(* ===== verification/Prelude.thy ===== *)
theory Prelude
  imports "HOL-Library.Word" "HOL-Library.AList" "HOL-Library.Multiset"
begin

text \<open>
  What every component shares: results that may fail (\<open>failure + 'a\<close>), the loops of the C++
  code over such results, and the ordered associative container \<open>std::map\<close>, stated as a locale
  and realised by a key-sorted association list.

  A failure is a place where the C++ program has no defined behaviour or stops: a
  \<open>llvm::cast\<close> to the wrong class, a null pointer that is dereferenced, an operand index
  outside the operand list, an exception that leaves a \<open>noexcept\<close> function.
\<close>

named_theorems res_simps "evaluation of results that may fail"

section \<open>Results that may fail\<close>

datatype failure =
    NullDeref   \<comment> \<open>a null pointer is dereferenced\<close>
  | BadCast     \<comment> \<open>\<open>llvm::cast<T>\<close> applied to a value that is not a \<open>T\<close>\<close>
  | BadIndex    \<comment> \<open>an operand, argument or element index is out of range\<close>
  | Terminated  \<comment> \<open>an exception leaves a \<open>noexcept\<close> function: \<open>std::terminate\<close>\<close>
  | OutOfFuel   \<comment> \<open>no behaviour of the program: the bound the model puts on a loop is too small\<close>

type_synonym 'a res = "failure + 'a"

fun rbind :: "'a res \<Rightarrow> ('a \<Rightarrow> 'b res) \<Rightarrow> 'b res" where
  "rbind (Inl e) f = Inl e"
| "rbind (Inr a) f = f a"

definition rmap :: "('a \<Rightarrow> 'b) \<Rightarrow> 'a res \<Rightarrow> 'b res" where
  "rmap f r = rbind r (\<lambda>a. Inr (f a))"

lemma rmap_simps [simp, res_simps]: "rmap f (Inl e) = Inl e" "rmap f (Inr a) = Inr (f a)"
  by (simp_all add: rmap_def)

lemma rbind_eq_Inr [simp]: "(rbind r f = Inr b) \<longleftrightarrow> (\<exists>a. r = Inr a \<and> f a = Inr b)"
  by (cases r) auto

lemma rmap_eq_Inr [simp]: "(rmap f r = Inr b) \<longleftrightarrow> (\<exists>a. r = Inr a \<and> f a = b)"
  by (cases r) auto

lemma rmap_eq_Inl [simp]: "(rmap f r = Inl e) \<longleftrightarrow> r = Inl e"
  by (cases r) auto

lemma rbind_assoc: "rbind (rbind r f) g = rbind r (\<lambda>a. rbind (f a) g)"
  by (cases r) auto

lemma rbind_Inr [simp]: "rbind r Inr = r"
  by (cases r) auto

text \<open>A \<open>filter\<close> loop whose predicate may fail; evaluation is left to right.\<close>

fun rfilter :: "('a \<Rightarrow> bool res) \<Rightarrow> 'a list \<Rightarrow> 'a list res" where
  "rfilter p [] = Inr []"
| "rfilter p (x # xs) =
     rbind (p x) (\<lambda>b. rbind (rfilter p xs) (\<lambda>ys. Inr (if b then x # ys else ys)))"

text \<open>Search loop with an early return of the first element that satisfies the predicate.\<close>

fun rfind :: "('a \<Rightarrow> bool res) \<Rightarrow> 'a list \<Rightarrow> 'a option res" where
  "rfind p [] = Inr None"
| "rfind p (x # xs) = rbind (p x) (\<lambda>b. if b then Inr (Some x) else rfind p xs)"

text \<open>A loop that appends what each element contributes.\<close>

fun rconcat :: "('a \<Rightarrow> 'b list res) \<Rightarrow> 'a list \<Rightarrow> 'b list res" where
  "rconcat g [] = Inr []"
| "rconcat g (x # xs) = rbind (g x) (\<lambda>ys. rbind (rconcat g xs) (\<lambda>zs. Inr (ys @ zs)))"

text \<open>A loop that returns the first result an element yields.\<close>

fun rfirst :: "('a \<Rightarrow> 'b option res) \<Rightarrow> 'a list \<Rightarrow> 'b option res" where
  "rfirst g [] = Inr None"
| "rfirst g (x # xs) =
     rbind (g x) (\<lambda>r. case r of Some y \<Rightarrow> Inr (Some y) | None \<Rightarrow> rfirst g xs)"

text \<open>A loop that updates a state and stops at the first failure.\<close>

fun rfold :: "('a \<Rightarrow> 's \<Rightarrow> 's res) \<Rightarrow> 'a list \<Rightarrow> 's \<Rightarrow> 's res" where
  "rfold f [] s = Inr s"
| "rfold f (x # xs) s = rbind (f x s) (rfold f xs)"

definition first_of :: "'a list \<Rightarrow> 'a option" where
  "first_of xs = (case xs of [] \<Rightarrow> None | x # _ \<Rightarrow> Some x)"

lemma first_of_simps [simp]: "first_of [] = None" "first_of (x # xs) = Some x"
  by (simp_all add: first_of_def)

lemma first_of_append: "first_of (xs @ ys) = (if xs = [] then first_of ys else first_of xs)"
  by (cases xs) auto

lemma rfilter_pure [res_simps]:
  "(\<And>x. x \<in> set xs \<Longrightarrow> p x = Inr (q x)) \<Longrightarrow> rfilter p xs = Inr (filter q xs)"
  by (induction xs) auto

lemma rfilter_sound: "rfilter p xs = Inr ys \<Longrightarrow> ys = filter (\<lambda>x. p x = Inr True) xs"
proof (induction xs arbitrary: ys)
  case (Cons x xs)
  then obtain b zs where "p x = Inr b" "rfilter p xs = Inr zs" "ys = (if b then x # zs else zs)"
    by auto
  with Cons.IH[of zs] show ?case by (cases b) simp_all
qed simp

lemma rfind_rfilter: "rfilter p xs = Inr ys \<Longrightarrow> rfind p xs = Inr (first_of ys)"
proof (induction xs arbitrary: ys)
  case (Cons x xs)
  then obtain b zs where "p x = Inr b" "rfilter p xs = Inr zs" "ys = (if b then x # zs else zs)"
    by auto
  with Cons.IH[of zs] show ?case by (cases b) simp_all
qed simp

lemma rconcat_pure [res_simps]:
  "(\<And>x. x \<in> set xs \<Longrightarrow> g x = Inr (h x)) \<Longrightarrow> rconcat g xs = Inr (concat (map h xs))"
  by (induction xs) auto

lemma rconcat_sound:
  assumes "rconcat g xs = Inr zs" and "\<And>x ys. x \<in> set xs \<Longrightarrow> g x = Inr ys \<Longrightarrow> ys = h x"
  shows "zs = concat (map h xs)"
  using assms by (induction xs arbitrary: zs) auto

lemma rconcat_append:
  "rconcat g (xs @ ys) = rbind (rconcat g xs) (\<lambda>a. rbind (rconcat g ys) (\<lambda>b. Inr (a @ b)))"
proof (induction xs)
  case (Cons x xs)
  then show ?case by (cases "g x"; cases "rconcat g xs"; cases "rconcat g ys") auto
qed simp

lemma rfirst_rconcat:
  assumes "\<And>x ys. x \<in> set xs \<Longrightarrow> h x = Inr ys \<Longrightarrow> g x = Inr (first_of ys)"
    and "rconcat h xs = Inr zs"
  shows "rfirst g xs = Inr (first_of zs)"
  using assms
proof (induction xs arbitrary: zs)
  case (Cons x xs)
  from Cons.prems(2) obtain ys ws where h: "h x = Inr ys" "rconcat h xs = Inr ws" "zs = ys @ ws"
    by auto
  have "rfirst g xs = Inr (first_of ws)"
    by (rule Cons.IH[OF _ h(2)]) (simp add: Cons.prems(1))
  with h Cons.prems(1)[of x] show ?case by (cases ys) auto
qed simp

lemma rfold_append: "rfold f (xs @ ys) s = rbind (rfold f xs s) (rfold f ys)"
proof (induction xs arbitrary: s)
  case (Cons x xs)
  then show ?case by (cases "f x s") simp_all
qed simp

lemma rfold_pure:
  "(\<And>x s. x \<in> set xs \<Longrightarrow> f x s = Inr (g x s)) \<Longrightarrow> rfold f xs s = Inr (fold g xs s)"
  by (induction xs arbitrary: s) auto

lemma rfold_invariant:
  assumes "rfold f xs s = Inr t" and "I s"
    and "\<And>x s t. x \<in> set xs \<Longrightarrow> I s \<Longrightarrow> f x s = Inr t \<Longrightarrow> I t"
  shows "I t"
  using assms
proof (induction xs arbitrary: s)
  case (Cons x xs)
  then obtain u where u: "f x s = Inr u" "rfold f xs u = Inr t" by auto
  have "I u" using Cons.prems(2,3) u(1) by auto
  then show ?case using Cons.IH[OF u(2)] Cons.prems(3) by (meson list.set_intros(2))
qed simp

section \<open>The ordered map of the C++ library\<close>

text \<open>
  What the code relies on of \<open>std::map\<close>: \<open>find\<close>, \<open>emplace\<close> (keeps an existing entry),
  \<open>operator[] =\<close> (overwrites), and iteration, which visits the entries once each, in ascending
  order of their keys.
\<close>

locale std_map =
  fixes empty :: "'m"
    and find :: "'m \<Rightarrow> 'k::linorder \<Rightarrow> 'v option"
    and emplace :: "'k \<Rightarrow> 'v \<Rightarrow> 'm \<Rightarrow> 'm"
    and assign :: "'k \<Rightarrow> 'v \<Rightarrow> 'm \<Rightarrow> 'm"
    and entries :: "'m \<Rightarrow> ('k \<times> 'v) list"
    and invar :: "'m \<Rightarrow> bool"
  assumes invar_empty: "invar empty"
    and invar_emplace: "invar m \<Longrightarrow> invar (emplace k v m)"
    and invar_assign: "invar m \<Longrightarrow> invar (assign k v m)"
    and find_empty: "find empty k = None"
    and find_emplace: "invar m \<Longrightarrow>
       find (emplace k v m) k' = (if k' = k \<and> find m k = None then Some v else find m k')"
    and find_assign: "invar m \<Longrightarrow> find (assign k v m) k' = (if k' = k then Some v else find m k')"
    and entries_find: "invar m \<Longrightarrow> map_of (entries m) = find m"
    and entries_sorted: "invar m \<Longrightarrow> sorted_wrt (<) (map fst (entries m))"
begin

definition emplace_all :: "('k \<times> 'v) list \<Rightarrow> 'm \<Rightarrow> 'm" where
  "emplace_all kvs m = fold (\<lambda>(k, v). emplace k v) kvs m"

definition assign_all :: "('k \<times> 'v) list \<Rightarrow> 'm \<Rightarrow> 'm" where
  "assign_all kvs m = fold (\<lambda>(k, v). assign k v) kvs m"

lemma invar_emplace_all: "invar m \<Longrightarrow> invar (emplace_all kvs m)"
  unfolding emplace_all_def
  by (induction kvs arbitrary: m) (auto simp: invar_emplace)

lemma invar_assign_all: "invar m \<Longrightarrow> invar (assign_all kvs m)"
  unfolding assign_all_def
  by (induction kvs arbitrary: m) (auto simp: invar_assign)

text \<open>A sequence of \<open>emplace\<close> keeps the first value offered for a key.\<close>

lemma find_emplace_all:
  "invar m \<Longrightarrow> find (emplace_all kvs m) k = (case find m k of None \<Rightarrow> map_of kvs k | Some v \<Rightarrow> Some v)"
proof (induction kvs arbitrary: m)
  case Nil
  then show ?case by (simp add: emplace_all_def split: option.splits)
next
  case (Cons kv kvs)
  obtain k' v' where [simp]: "kv = (k', v')" by (cases kv)
  have "find (emplace_all (kv # kvs) m) k = find (emplace_all kvs (emplace k' v' m)) k"
    by (simp add: emplace_all_def)
  also have "\<dots> = (case find (emplace k' v' m) k of None \<Rightarrow> map_of kvs k | Some v \<Rightarrow> Some v)"
    by (rule Cons.IH) (simp add: Cons.prems invar_emplace)
  finally show ?case by (auto simp: find_emplace Cons.prems split: option.splits)
qed

text \<open>A sequence of assignments keeps the last one.\<close>

lemma find_assign_all:
  "invar m \<Longrightarrow> find (assign_all kvs m) k = (case map_of (rev kvs) k of None \<Rightarrow> find m k | Some v \<Rightarrow> Some v)"
proof (induction kvs arbitrary: m)
  case Nil
  then show ?case by (simp add: assign_all_def)
next
  case (Cons kv kvs)
  obtain k' v' where [simp]: "kv = (k', v')" by (cases kv)
  have "find (assign_all (kv # kvs) m) k = find (assign_all kvs (assign k' v' m)) k"
    by (simp add: assign_all_def)
  also have "\<dots> = (case map_of (rev kvs) k of None \<Rightarrow> find (assign k' v' m) k | Some v \<Rightarrow> Some v)"
    by (rule Cons.IH) (simp add: Cons.prems invar_assign)
  finally show ?case by (auto simp: find_assign Cons.prems map_add_def split: option.splits)
qed

lemma entries_distinct: "invar m \<Longrightarrow> distinct (map fst (entries m))"
  using entries_sorted[of m] by (simp add: strict_sorted_iff)

lemma entries_iff: "invar m \<Longrightarrow> (k, v) \<in> set (entries m) \<longleftrightarrow> find m k = Some v"
  using entries_find[of m] entries_distinct[of m] by (metis map_of_eq_Some_iff)

end

text \<open>The realisation: an association list sorted by key.\<close>

fun omap_emplace :: "'k::linorder \<Rightarrow> 'v \<Rightarrow> ('k \<times> 'v) list \<Rightarrow> ('k \<times> 'v) list" where
  "omap_emplace k v [] = [(k, v)]"
| "omap_emplace k v ((a, b) # m) =
     (if k < a then (k, v) # (a, b) # m
      else if k = a then (a, b) # m
      else (a, b) # omap_emplace k v m)"

fun omap_assign :: "'k::linorder \<Rightarrow> 'v \<Rightarrow> ('k \<times> 'v) list \<Rightarrow> ('k \<times> 'v) list" where
  "omap_assign k v [] = [(k, v)]"
| "omap_assign k v ((a, b) # m) =
     (if k < a then (k, v) # (a, b) # m
      else if k = a then (a, v) # m
      else (a, b) # omap_assign k v m)"

abbreviation omap_sorted :: "('k::linorder \<times> 'v) list \<Rightarrow> bool" where
  "omap_sorted m \<equiv> sorted_wrt (<) (map fst m)"

lemma omap_emplace_bound:
  "(\<forall>x \<in> set (omap_emplace k v m). a < fst x) \<longleftrightarrow> a < k \<and> (\<forall>x \<in> set m. a < fst x)"
  by (induction k v m rule: omap_emplace.induct) (simp_all, blast?)

lemma omap_assign_bound:
  "(\<forall>x \<in> set (omap_assign k v m). a < fst x) \<longleftrightarrow> a < k \<and> (\<forall>x \<in> set m. a < fst x)"
  by (induction k v m rule: omap_assign.induct) (simp_all, blast?)

lemma map_of_smaller: "\<forall>x \<in> set m. k < fst x \<Longrightarrow> map_of m (k::'k::linorder) = None"
  by (induction m) auto

lemma omap_emplace_sorted: "omap_sorted m \<Longrightarrow> omap_sorted (omap_emplace k v m)"
proof (induction k v m rule: omap_emplace.induct)
  case (2 k v a b m)
  then show ?case by (force simp: omap_emplace_bound)
qed simp

lemma omap_assign_sorted: "omap_sorted m \<Longrightarrow> omap_sorted (omap_assign k v m)"
proof (induction k v m rule: omap_assign.induct)
  case (2 k v a b m)
  then show ?case by (force simp: omap_assign_bound)
qed simp

lemma omap_find_emplace:
  "omap_sorted m \<Longrightarrow>
   map_of (omap_emplace k v m) k' = (if k' = k \<and> map_of m k = None then Some v else map_of m k')"
proof (induction k v m rule: omap_emplace.induct)
  case (2 k v a b m)
  consider "k < a" | "k = a" | "a < k" by (rule linorder_cases)
  then show ?case
  proof cases
    case 1
    with 2 have "map_of m k = None" by (intro map_of_smaller) force
    with 1 show ?thesis by auto
  next
    case 3
    then have "k \<noteq> a" "\<not> k < a" by auto
    with 2 show ?thesis by auto
  qed simp
qed simp

lemma omap_find_assign:
  "omap_sorted m \<Longrightarrow> map_of (omap_assign k v m) k' = (if k' = k then Some v else map_of m k')"
  by (induction k v m rule: omap_assign.induct) auto

interpretation omap: std_map "[]" map_of omap_emplace omap_assign "\<lambda>m. m" omap_sorted
  by unfold_locales
    (auto simp: omap_emplace_sorted omap_assign_sorted omap_find_emplace omap_find_assign)

section \<open>Lists addressed by an identity\<close>

text \<open>
  LLVM keeps instructions and blocks in intrusive lists, addressed by pointer. Here each element
  carries its address, and the list operations find it by that address.
\<close>

definition at_id :: "('a \<Rightarrow> nat) \<Rightarrow> nat \<Rightarrow> 'a list \<Rightarrow> 'a option" where
  "at_id key x xs = List.find (\<lambda>a. key a = x) xs"

definition upd_at :: "('a \<Rightarrow> nat) \<Rightarrow> nat \<Rightarrow> ('a \<Rightarrow> 'a) \<Rightarrow> 'a list \<Rightarrow> 'a list" where
  "upd_at key x g xs = map (\<lambda>a. if key a = x then g a else a) xs"

fun ins_before :: "('a \<Rightarrow> nat) \<Rightarrow> nat \<Rightarrow> 'a \<Rightarrow> 'a list \<Rightarrow> 'a list" where
  "ins_before key x n [] = []"
| "ins_before key x n (a # as) = (if key a = x then n # a # as else a # ins_before key x n as)"

definition del_at :: "('a \<Rightarrow> nat) \<Rightarrow> nat \<Rightarrow> 'a list \<Rightarrow> 'a list" where
  "del_at key x xs = filter (\<lambda>a. key a \<noteq> x) xs"

lemma at_id_Some: "at_id key x xs = Some a \<Longrightarrow> a \<in> set xs \<and> key a = x"
  unfolding at_id_def by (induction xs) (auto split: if_splits)

lemma at_id_None: "at_id key x xs = None \<longleftrightarrow> x \<notin> key ` set xs"
  unfolding at_id_def by (induction xs) auto

lemma at_id_append:
  "at_id key x (xs @ ys) = (case at_id key x xs of None \<Rightarrow> at_id key x ys | Some a \<Rightarrow> Some a)"
  unfolding at_id_def by (induction xs) auto

lemma at_id_Nil [simp]: "at_id key x [] = None"
  by (simp add: at_id_def)

lemma at_id_Cons [simp]: "at_id key x (a # as) = (if key a = x then Some a else at_id key x as)"
  by (simp add: at_id_def)

lemma at_id_distinct:
  "distinct (map key xs) \<Longrightarrow> a \<in> set xs \<Longrightarrow> at_id key (key a) xs = Some a"
  by (induction xs) (auto simp: rev_image_eqI)

lemma upd_at_keys: "(\<And>a. key (g a) = key a) \<Longrightarrow> map key (upd_at key x g xs) = map key xs"
  unfolding upd_at_def by (induction xs) auto

lemma upd_at_Nil [simp]: "upd_at key x g [] = []"
  by (simp add: upd_at_def)

lemma upd_at_Cons [simp]:
  "upd_at key x g (a # as) = (if key a = x then g a else a) # upd_at key x g as"
  by (simp add: upd_at_def)

lemma upd_at_append [simp]: "upd_at key x g (as @ bs) = upd_at key x g as @ upd_at key x g bs"
  by (simp add: upd_at_def)

lemma upd_at_notin: "x \<notin> key ` set xs \<Longrightarrow> upd_at key x g xs = xs"
  unfolding upd_at_def by (induction xs) auto

lemma at_id_upd_at:
  "(\<And>a. key (g a) = key a) \<Longrightarrow>
   at_id key y (upd_at key x g xs) =
     (if x = y then map_option g (at_id key y xs) else at_id key y xs)"
  by (induction xs) auto

lemma ins_before_notin: "x \<notin> key ` set xs \<Longrightarrow> ins_before key x n xs = xs"
  by (induction xs) auto

lemma ins_before_append:
  "x \<notin> key ` set xs \<Longrightarrow> key a = x \<Longrightarrow> ins_before key x n (xs @ a # ys) = xs @ n # a # ys"
  by (induction xs) auto

lemma set_ins_before:
  "set (ins_before key x n xs) = (if x \<in> key ` set xs then insert n (set xs) else set xs)"
  by (induction xs) auto

lemma ins_before_distinct:
  "distinct (map key xs) \<Longrightarrow> key n \<notin> key ` set xs \<Longrightarrow> distinct (map key (ins_before key x n xs))"
  by (induction xs) (auto simp: set_ins_before split: if_splits)

lemma at_id_ins_before:
  "key n \<notin> key ` set xs \<Longrightarrow>
   at_id key y (ins_before key x n xs) =
     (if y = key n \<and> x \<in> key ` set xs then Some n else at_id key y xs)"
  by (induction xs) (auto simp: at_id_def)

lemma filter_ins_before: "\<not> p n \<Longrightarrow> filter p (ins_before key x n xs) = filter p xs"
  by (induction xs) auto

lemma del_at_append [simp]: "del_at key x (as @ bs) = del_at key x as @ del_at key x bs"
  by (simp add: del_at_def)

lemma del_at_Cons [simp]:
  "del_at key x (a # as) = (if key a = x then del_at key x as else a # del_at key x as)"
  by (simp add: del_at_def)

lemma del_at_Nil [simp]: "del_at key x [] = []"
  by (simp add: del_at_def)

lemma del_at_notin: "x \<notin> key ` set xs \<Longrightarrow> del_at key x xs = xs"
  unfolding del_at_def by (induction xs) auto

lemma at_id_del_at: "x \<noteq> y \<Longrightarrow> at_id key y (del_at key x xs) = at_id key y xs"
  by (induction xs) auto

lemma list_all2_image: "list_all2 P xs ys \<Longrightarrow> x \<in> set xs \<Longrightarrow> \<exists>y. P x y"
  by (auto simp: list_all2_conv_all_nth in_set_conv_nth)

lemma list_all2_mono_set:
  assumes "list_all2 P xs ys" and "\<And>x y. x \<in> set xs \<Longrightarrow> P x y \<Longrightarrow> Q x y"
  shows "list_all2 Q xs ys"
  using assms by (auto simp: list_all2_conv_all_nth)

lemma concat_upd_at: "concat (map (upd_at key x g) xss) = upd_at key x g (concat xss)"
  by (induction xss) auto

lemma concat_del_at: "concat (map (del_at key x) xss) = del_at key x (concat xss)"
  by (induction xss) auto

lemma ins_before_append_left:
  "x \<notin> key ` set ys \<Longrightarrow> ins_before key x n (xs @ ys) = ins_before key x n xs @ ys"
  by (induction xs) (auto simp: ins_before_notin)

lemma ins_before_append_right:
  "x \<notin> key ` set xs \<Longrightarrow> ins_before key x n (xs @ ys) = xs @ ins_before key x n ys"
  by (induction xs) auto

lemma concat_ins_before:
  "distinct (map key (concat xss)) \<Longrightarrow>
   concat (map (ins_before key x n) xss) = ins_before key x n (concat xss)"
proof (induction xss)
  case (Cons xs xss)
  show ?case
  proof (cases "x \<in> key ` set xs")
    case True
    with Cons.prems have "x \<notin> key ` set (concat xss)" by auto
    with Cons show ?thesis by (simp add: ins_before_append_left ins_before_notin)
  next
    case False
    with Cons show ?thesis by (simp add: ins_before_append_right ins_before_notin)
  qed
qed simp

lemma split_at_id:
  "at_id key x xs = Some a \<Longrightarrow> \<exists>ys zs. xs = ys @ a # zs \<and> x \<notin> key ` set ys \<and> key a = x"
proof (induction xs)
  case (Cons b xs)
  show ?case
  proof (cases "key b = x")
    case True
    with Cons.prems show ?thesis by (intro exI[of _ "[]"] exI[of _ xs]) auto
  next
    case False
    with Cons obtain ys zs where "xs = ys @ a # zs" "x \<notin> key ` set ys" "key a = x" by auto
    with False show ?thesis by (intro exI[of _ "b # ys"] exI[of _ zs]) auto
  qed
qed simp

text \<open>Splicing into such a list behind an element.\<close>

fun ins_after :: "('a \<Rightarrow> nat) \<Rightarrow> nat \<Rightarrow> 'a \<Rightarrow> 'a list \<Rightarrow> 'a list" where
  "ins_after key x n [] = []"
| "ins_after key x n (a # as) = (if key a = x then a # n # as else a # ins_after key x n as)"

lemma ins_after_append:
  "x \<notin> key ` set xs \<Longrightarrow> ins_after key x n (xs @ ys) = xs @ ins_after key x n ys"
  by (induction xs) auto

lemma ins_after_notin: "x \<notin> key ` set xs \<Longrightarrow> ins_after key x n xs = xs"
  by (induction xs) auto

lemma set_ins_after: "set (ins_after key x n xs) = (if x \<in> key ` set xs then insert n (set xs) else set xs)"
  by (induction xs) auto

lemma ins_after_distinct:
  "distinct (map key xs) \<Longrightarrow> key n \<notin> key ` set xs \<Longrightarrow> distinct (map key (ins_after key x n xs))"
  by (induction xs) (auto simp: set_ins_after split: if_splits)

lemma at_id_ins_after:
  "key n \<notin> key ` set xs \<Longrightarrow>
   at_id key y (ins_after key x n xs) =
     (if y = key n \<and> x \<in> key ` set xs then Some n else at_id key y xs)"
  by (induction xs) auto

lemma filter_ins_after: "\<not> p n \<Longrightarrow> filter p (ins_after key x n xs) = filter p xs"
  by (induction xs) auto

lemma ins_after_append_left: "x \<notin> key ` set ys \<Longrightarrow> ins_after key x n (xs @ ys) = ins_after key x n xs @ ys"
  by (induction xs) (auto simp: ins_after_notin)

lemma concat_ins_after:
  "distinct (map key (concat xss)) \<Longrightarrow>
   concat (map (ins_after key x n) xss) = ins_after key x n (concat xss)"
proof (induction xss)
  case (Cons xs xss)
  show ?case
  proof (cases "x \<in> key ` set xs")
    case True
    with Cons.prems have "x \<notin> key ` set (concat xss)" by auto
    with Cons show ?thesis by (simp add: ins_after_append_left ins_after_notin)
  next
    case False
    with Cons show ?thesis by (simp add: ins_after_append ins_after_notin)
  qed
qed simp

lemma last_ins_after:
  "xs \<noteq> [] \<Longrightarrow> key (last xs) \<noteq> x \<Longrightarrow> last (ins_after key x n xs) = last xs \<and> ins_after key x n xs \<noteq> []"
  by (induction xs) (auto simp: neq_Nil_conv split: if_splits)

lemma move_ins_after:
  "key n \<notin> key ` set xs \<Longrightarrow> ins_after key x n (del_at key (key n) (ins_before key x n xs)) = ins_after key x n xs"
  by (induction xs) (auto simp: del_at_notin image_iff)

lemma filter_upd_at: "(\<And>a. p (g a) = p a) \<Longrightarrow> filter p (upd_at key x g xs) = upd_at key x g (filter p xs)"
  by (induction xs) auto

text \<open>A pointer that must not be null.\<close>

definition deref :: "'a option \<Rightarrow> 'a res" where
  "deref v = (case v of None \<Rightarrow> Inl NullDeref | Some a \<Rightarrow> Inr a)"

text \<open>A loop that computes one result for each element.\<close>

definition rlist :: "('a \<Rightarrow> 'b res) \<Rightarrow> 'a list \<Rightarrow> 'b list res" where
  "rlist g xs = rconcat (\<lambda>x. rmap (\<lambda>y. [y]) (g x)) xs"

lemma rlist_simps [simp]:
  "rlist g [] = Inr []"
  "rlist g (x # xs) = rbind (g x) (\<lambda>y. rmap (Cons y) (rlist g xs))"
  by (cases "g x"; simp add: rlist_def rmap_def)+

lemma rlist_pure: "(\<And>x. x \<in> set xs \<Longrightarrow> g x = Inr (h x)) \<Longrightarrow> rlist g xs = Inr (map h xs)"
  by (induction xs) auto

text \<open>An insertion-ordered set: \<open>SetVector\<close>.\<close>

definition setv_insert :: "'a \<Rightarrow> 'a list \<Rightarrow> 'a list" where
  "setv_insert x xs = (if x \<in> set xs then xs else xs @ [x])"

lemma set_setv_insert [simp]: "set (setv_insert x xs) = insert x (set xs)"
  by (auto simp: setv_insert_def)

lemma distinct_setv_insert [simp]: "distinct (setv_insert x xs) = distinct xs"
  by (simp add: setv_insert_def)

end
