(* ===== verification/IR.thy ===== *)
theory IR
  imports Prelude
begin

text \<open>
  The part of LLVM IR that the passes read and write: types, values, metadata, instructions, basic
  blocks, functions and modules, with the accessors and list edits of their classes that the source
  calls. LLVM itself is not part of the repository: its data is represented here, and its
  transformation utilities (splitting a block, inlining, demoting a register, deleting a dead block,
  the order of a use list) are parameters of the definitions that call them.

  Pointers are addresses: an instruction or a block is identified by a number that is unique in its
  function, a function or a global by a number that is unique in its module. \<open>f_next\<close> and
  \<open>m_next\<close> are the first unused addresses; \<open>new\<close> takes the next one.
\<close>

section \<open>Types and values\<close>

datatype ir_type =
    VoidTy | FloatTy | DoubleTy | LabelTy | MetadataTy | TokenTy
  | IntTy nat
  | PtrTy ir_type
  | ArrayTy nat ir_type
  | StructTy "ir_type list"
  | FuncTy ir_type "ir_type list" bool  \<comment> \<open>return type, parameters, is variadic\<close>

text \<open>A \<open>ConstantInt\<close>: its width and its value, read as unsigned.\<close>

datatype cint = CInt (cbits: nat) (cval: nat)

text \<open>
  \<open>ConstantInt::get(IntegerType*, uint64_t)\<close> keeps the low bits of the 64-bit argument, and
  \<open>getZExtValue\<close> reads the value back, extended with zeros to 64 bits.
\<close>

definition cint_get :: "nat \<Rightarrow> 64 word \<Rightarrow> cint" where
  "cint_get w v = CInt w (unat v mod 2 ^ w)"

definition zext_value :: "cint \<Rightarrow> 64 word" where
  "zext_value c = of_nat (cval c)"

text \<open>
  Intrinsic functions are identified by their intrinsic, so that declaring one is idempotent as
  \<open>Intrinsic::getDeclaration\<close> is; they are declarations and are not listed in the module.
\<close>

datatype fn_id = Fn nat | Intrinsic string

datatype ir_value =
    ConstInt cint
  | ConstFP ir_type string
  | ConstData nat "nat list"        \<comment> \<open>\<open>ConstantDataArray\<close>: element width in bits, elements\<close>
  | OtherConst string ir_type
  | GlobalVar nat ir_type
  | FirstElem nat ir_type           \<comment> \<open>the constant address of the first element of a global array\<close>
  | FuncVal fn_id ir_type           \<comment> \<open>a function and its function type\<close>
  | InstVal nat                     \<comment> \<open>the result of an instruction\<close>
  | ArgVal nat
  | InlineAsm string

datatype metadata = MDString string | ValueAsMD ir_value | MDTuple "metadata list"

type_synonym md_node = "metadata list"   \<comment> \<open>the operands of an \<open>MDNode\<close>\<close>

section \<open>Instructions\<close>

text \<open>The classes of instructions that the passes tell apart, over their operand values.\<close>

datatype 'v ikind =
    Alloca ir_type
  | Load 'v
  | Store 'v 'v                                \<comment> \<open>value, pointer\<close>
  | PHI "('v \<times> nat) list"                      \<comment> \<open>incoming values and blocks\<close>
  | Call ir_type "'v list" 'v                  \<comment> \<open>function type, arguments, called operand\<close>
  | Invoke ir_type "'v list" 'v nat nat        \<comment> \<open>\<dots>, normal and unwind destination\<close>
  | Br nat
  | CondBr 'v nat nat
  | Switch 'v nat "(cint \<times> nat) list"          \<comment> \<open>condition, default destination, cases\<close>
  | Ret "'v option"
  | Unreachable
  | BitCast 'v
  | GEP "'v list"
  | LandingPad
  | CatchPad
  | CatchSwitch "nat list"
  | CleanupPad
  | OtherTerm string "'v list" "nat list"
  | OtherInst string "'v list"

record ir_inst =
  i_id :: nat
  i_kind :: "ir_value ikind"
  i_type :: ir_type
  i_name :: string
  i_md :: "(string \<times> md_node) list"

fun operands :: "'v ikind \<Rightarrow> 'v list" where
  "operands (Load p) = [p]"
| "operands (Store v p) = [v, p]"
| "operands (PHI ins) = map fst ins"
| "operands (Call t as c) = as @ [c]"
| "operands (Invoke t as c n u) = as @ [c]"
| "operands (CondBr c t e) = [c]"
| "operands (Switch c d cs) = [c]"
| "operands (Ret v) = (case v of None \<Rightarrow> [] | Some v \<Rightarrow> [v])"
| "operands (BitCast v) = [v]"
| "operands (GEP vs) = vs"
| "operands (OtherTerm s vs bs) = vs"
| "operands (OtherInst s vs) = vs"
| "operands _ = []"

lemma operands_map: "operands (map_ikind g k) = map g (operands k)"
  by (cases k) (auto split: option.splits)

definition replace_uses :: "'v \<Rightarrow> 'v \<Rightarrow> 'v ikind \<Rightarrow> 'v ikind" where
  "replace_uses old new k = map_ikind (\<lambda>v. if v = old then new else v) k"

lemma replace_uses_gone: "old \<noteq> new \<Longrightarrow> old \<notin> set (operands (replace_uses old new k))"
  by (auto simp: replace_uses_def operands_map)

fun successors :: "'v ikind \<Rightarrow> nat list" where
  "successors (Br b) = [b]"
| "successors (CondBr c t e) = [t, e]"
| "successors (Switch c d cs) = d # map snd cs"
| "successors (Invoke t as c n u) = [n, u]"
| "successors (CatchSwitch bs) = bs"
| "successors (OtherTerm s vs bs) = bs"
| "successors _ = []"

fun is_terminator :: "'v ikind \<Rightarrow> bool" where
  "is_terminator (Br b) = True"
| "is_terminator (CondBr c t e) = True"
| "is_terminator (Switch c d cs) = True"
| "is_terminator (Ret v) = True"
| "is_terminator Unreachable = True"
| "is_terminator (Invoke t as c n u) = True"
| "is_terminator (CatchSwitch bs) = True"
| "is_terminator (OtherTerm s vs bs) = True"
| "is_terminator _ = False"

fun is_alloca :: "'v ikind \<Rightarrow> bool" where "is_alloca (Alloca t) = True" | "is_alloca _ = False"
fun is_phi :: "'v ikind \<Rightarrow> bool" where "is_phi (PHI ins) = True" | "is_phi _ = False"
fun is_store :: "'v ikind \<Rightarrow> bool" where "is_store (Store v p) = True" | "is_store _ = False"
fun is_call :: "'v ikind \<Rightarrow> bool" where "is_call (Call t as c) = True" | "is_call _ = False"

text \<open>\<open>CallBase\<close>: the arguments, the called operand and the called function of a call or invoke.\<close>

fun call_parts :: "'v ikind \<Rightarrow> (ir_type \<times> 'v list \<times> 'v) option" where
  "call_parts (Call t as c) = Some (t, as, c)"
| "call_parts (Invoke t as c n u) = Some (t, as, c)"
| "call_parts _ = None"

text \<open>
  \<open>getCalledFunction\<close> is null for an indirect call and where the called function's type is
  not the call's function type.
\<close>

definition called_function :: "ir_value ikind \<Rightarrow> fn_id option" where
  "called_function k =
     (case call_parts k of
        Some (t, as, FuncVal g ty) \<Rightarrow> if ty = t then Some g else None
      | _ \<Rightarrow> None)"

definition get_arg_operand :: "ir_value ikind \<Rightarrow> nat \<Rightarrow> ir_value res" where
  "get_arg_operand k n =
     (case call_parts k of
        None \<Rightarrow> Inl BadCast
      | Some (t, as, c) \<Rightarrow> if n < length as then Inr (as ! n) else Inl BadIndex)"

fun set_arg_operand :: "ir_value ikind \<Rightarrow> nat \<Rightarrow> ir_value \<Rightarrow> ir_value ikind res" where
  "set_arg_operand (Call t as c) n v =
     (if n < length as then Inr (Call t (as[n := v]) c) else Inl BadIndex)"
| "set_arg_operand (Invoke t as c d u) n v =
     (if n < length as then Inr (Invoke t (as[n := v]) c d u) else Inl BadIndex)"
| "set_arg_operand k n v = Inl BadCast"

fun set_called_operand :: "'v \<Rightarrow> 'v ikind \<Rightarrow> 'v ikind" where
  "set_called_operand v (Call t as c) = Call t as v"
| "set_called_operand v (Invoke t as c d u) = Invoke t as v d u"
| "set_called_operand v k = k"

lemma called_function_Some:
  "called_function k = Some g \<longleftrightarrow> (\<exists>t as. call_parts k = Some (t, as, FuncVal g t))"
  unfolding called_function_def by (auto split: option.splits ir_value.splits)

section \<open>Blocks and functions\<close>

record ir_block =
  b_id :: nat
  b_name :: string
  b_insts :: "ir_inst list"

record ir_func =
  f_id :: nat
  f_name :: string
  f_type :: ir_type
  f_external :: bool         \<comment> \<open>\<open>hasExternalLinkage\<close>\<close>
  f_materializable :: bool
  f_optnone :: bool          \<comment> \<open>\<open>hasFnAttribute(OptimizeNone)\<close>\<close>
  f_noinline :: bool         \<comment> \<open>\<open>hasFnAttribute(NoInline)\<close>\<close>
  f_blocks :: "ir_block list"
  f_next :: nat

definition func_empty :: "ir_func \<Rightarrow> bool" where
  "func_empty f \<longleftrightarrow> f_blocks f = []"

text \<open>A function without a body that LLVM could not still read from its bitcode file.\<close>

definition is_declaration :: "ir_func \<Rightarrow> bool" where
  "is_declaration f \<longleftrightarrow> func_empty f \<and> \<not> f_materializable f"

definition func_insts :: "ir_func \<Rightarrow> ir_inst list" where
  "func_insts f = concat (map b_insts (f_blocks f))"

definition find_inst :: "ir_func \<Rightarrow> nat \<Rightarrow> ir_inst option" where
  "find_inst f x = at_id i_id x (func_insts f)"

definition find_block :: "ir_func \<Rightarrow> nat \<Rightarrow> ir_block option" where
  "find_block f b = at_id b_id b (f_blocks f)"

definition parent_block :: "ir_func \<Rightarrow> nat \<Rightarrow> ir_block option" where
  "parent_block f x = List.find (\<lambda>b. x \<in> set (map i_id (b_insts b))) (f_blocks f)"

definition on_insts :: "(ir_inst list \<Rightarrow> ir_inst list) \<Rightarrow> ir_block \<Rightarrow> ir_block" where
  "on_insts g b = b\<lparr>b_insts := g (b_insts b)\<rparr>"

definition map_blocks :: "(ir_block \<Rightarrow> ir_block) \<Rightarrow> ir_func \<Rightarrow> ir_func" where
  "map_blocks g f = f\<lparr>f_blocks := map g (f_blocks f)\<rparr>"

definition upd_inst :: "nat \<Rightarrow> (ir_inst \<Rightarrow> ir_inst) \<Rightarrow> ir_func \<Rightarrow> ir_func" where
  "upd_inst x g f = map_blocks (on_insts (upd_at i_id x g)) f"

definition set_kind :: "nat \<Rightarrow> ir_value ikind \<Rightarrow> ir_func \<Rightarrow> ir_func" where
  "set_kind x k f = upd_inst x (\<lambda>i. i\<lparr>i_kind := k\<rparr>) f"

definition insert_before :: "nat \<Rightarrow> ir_inst \<Rightarrow> ir_func \<Rightarrow> ir_func" where
  "insert_before x n f = map_blocks (on_insts (ins_before i_id x n)) f"

definition append_inst :: "nat \<Rightarrow> ir_inst \<Rightarrow> ir_func \<Rightarrow> ir_func" where
  "append_inst b n f =
     f\<lparr>f_blocks := upd_at b_id b (on_insts (\<lambda>is. is @ [n])) (f_blocks f)\<rparr>"

definition erase_inst :: "nat \<Rightarrow> ir_func \<Rightarrow> ir_func" where
  "erase_inst x f = map_blocks (on_insts (del_at i_id x)) f"

definition append_block :: "ir_block \<Rightarrow> ir_func \<Rightarrow> ir_func" where
  "append_block b f = f\<lparr>f_blocks := f_blocks f @ [b]\<rparr>"

text \<open>An instruction as its constructor makes it: no metadata yet.\<close>

definition mk_inst :: "nat \<Rightarrow> ir_value ikind \<Rightarrow> ir_type \<Rightarrow> string \<Rightarrow> ir_inst" where
  "mk_inst x k t nm = \<lparr>i_id = x, i_kind = k, i_type = t, i_name = nm, i_md = []\<rparr>"

text \<open>\<open>new X(\<dots>, insertBefore)\<close>: the instruction takes the next address of the function.\<close>

definition new_before :: "nat \<Rightarrow> ir_value ikind \<Rightarrow> ir_type \<Rightarrow> ir_func \<Rightarrow> ir_func" where
  "new_before x k t f =
     insert_before x (mk_inst (f_next f) k t '''') f\<lparr>f_next := Suc (f_next f)\<rparr>"

text \<open>\<open>X::Create(\<dots>, insertAtEnd)\<close>.\<close>

definition new_at_end :: "nat \<Rightarrow> ir_value ikind \<Rightarrow> ir_type \<Rightarrow> ir_func \<Rightarrow> ir_func" where
  "new_at_end b k t f =
     append_inst b (mk_inst (f_next f) k t '''') f\<lparr>f_next := Suc (f_next f)\<rparr>"

definition new_block :: "string \<Rightarrow> ir_func \<Rightarrow> ir_func" where
  "new_block nm f =
     append_block \<lparr>b_id = f_next f, b_name = nm, b_insts = []\<rparr> f\<lparr>f_next := Suc (f_next f)\<rparr>"

definition block_succs :: "ir_block \<Rightarrow> nat list" where
  "block_succs b = concat (map (\<lambda>i. successors (i_kind i)) (b_insts b))"

text \<open>
  The predecessors of a block: the parents of the terminators that have it as an operand. Their
  order is the use list's; only membership and emptiness are read.
\<close>

definition predecessors :: "ir_func \<Rightarrow> nat \<Rightarrow> nat list" where
  "predecessors f b = map b_id (filter (\<lambda>p. b \<in> set (block_succs p)) (f_blocks f))"

definition pred_empty :: "ir_func \<Rightarrow> nat \<Rightarrow> bool" where
  "pred_empty f b \<longleftrightarrow> predecessors f b = []"

text \<open>\<open>getTerminator\<close>: the last instruction, where it is a terminator.\<close>

definition terminator :: "ir_block \<Rightarrow> ir_inst option" where
  "terminator b =
     (if b_insts b \<noteq> [] \<and> is_terminator (i_kind (last (b_insts b)))
      then Some (last (b_insts b)) else None)"

text \<open>
  The users of a value, one entry per use, in program order. LLVM leaves the order of a use list
  open: code that depends on it takes a reordering as a parameter.
\<close>

definition uses :: "ir_value \<Rightarrow> ir_inst \<Rightarrow> bool" where
  "uses v i \<longleftrightarrow> v \<in> set (operands (i_kind i))"

definition users :: "ir_func \<Rightarrow> ir_value \<Rightarrow> ir_inst list" where
  "users f v = concat (map (\<lambda>i. replicate (count_list (operands (i_kind i)) v) i) (func_insts f))"

definition reordering :: "('a list \<Rightarrow> 'a list) \<Rightarrow> bool" where
  "reordering ord \<longleftrightarrow> (\<forall>xs. mset (ord xs) = mset xs)"

lemma reordering_set: "reordering ord \<Longrightarrow> set (ord xs) = set xs"
  unfolding reordering_def by (metis set_mset_mset)

lemma reordering_id: "reordering (\<lambda>xs. xs)" and reordering_rev: "reordering rev"
  by (simp_all add: reordering_def)

lemma set_users: "set (users f v) = {i \<in> set (func_insts f). uses v i}"
  by (auto simp: users_def uses_def count_list_0_iff)

section \<open>Well-formed functions\<close>

definition fresh_ids :: "nat list \<Rightarrow> nat \<Rightarrow> bool" where
  "fresh_ids xs n \<longleftrightarrow> distinct xs \<and> (\<forall>x \<in> set xs. x < n)"

definition wf_func :: "ir_func \<Rightarrow> bool" where
  "wf_func f \<longleftrightarrow>
     fresh_ids (map i_id (func_insts f)) (f_next f) \<and> fresh_ids (map b_id (f_blocks f)) (f_next f)"

lemma fresh_ids_Suc: "fresh_ids xs n \<Longrightarrow> fresh_ids xs (Suc n)"
  by (auto simp: fresh_ids_def)

lemma fresh_ids_notin: "fresh_ids xs n \<Longrightarrow> n \<notin> set xs"
  by (auto simp: fresh_ids_def)

lemma wf_func_distinct: "wf_func f \<Longrightarrow> distinct (map i_id (func_insts f))"
  by (simp add: wf_func_def fresh_ids_def)

lemma wf_func_next_notin: "wf_func f \<Longrightarrow> f_next f \<notin> i_id ` set (func_insts f)"
  using fresh_ids_notin[of "map i_id (func_insts f)"] by (simp add: wf_func_def)

lemma fresh_ids_ins_before:
  "fresh_ids (map key xs) n \<Longrightarrow> key a = n \<Longrightarrow> fresh_ids (map key (ins_before key x a xs)) (Suc n)"
  unfolding fresh_ids_def
  by (auto simp: set_ins_before less_Suc_eq intro!: ins_before_distinct)

lemma func_insts_map_blocks: "func_insts (map_blocks (on_insts g) f) = concat (map g (map b_insts (f_blocks f)))"
  by (simp add: func_insts_def map_blocks_def on_insts_def comp_def)

lemma func_insts_next [simp]: "func_insts (f\<lparr>f_next := n\<rparr>) = func_insts f"
  by (simp add: func_insts_def)

lemma func_insts_upd_inst: "func_insts (upd_inst x g f) = upd_at i_id x g (func_insts f)"
  unfolding upd_inst_def func_insts_map_blocks concat_upd_at by (simp add: func_insts_def)

lemma func_insts_erase_inst: "func_insts (erase_inst x f) = del_at i_id x (func_insts f)"
  unfolding erase_inst_def func_insts_map_blocks concat_del_at by (simp add: func_insts_def)

lemma func_insts_insert_before:
  "distinct (map i_id (func_insts f)) \<Longrightarrow>
   func_insts (insert_before x n f) = ins_before i_id x n (func_insts f)"
  unfolding insert_before_def func_insts_map_blocks unfolding func_insts_def
  by (rule concat_ins_before)

lemma map_blocks_frame [simp]:
  "f_next (map_blocks g f) = f_next f" "f_name (map_blocks g f) = f_name f"
  "f_id (map_blocks g f) = f_id f" "f_type (map_blocks g f) = f_type f"
  by (simp_all add: map_blocks_def)

lemma map_blocks_ids [simp]: "map b_id (f_blocks (map_blocks (on_insts g) f)) = map b_id (f_blocks f)"
  by (simp add: map_blocks_def on_insts_def comp_def)

lemma upd_inst_next [simp]: "f_next (upd_inst x g f) = f_next f"
  and erase_inst_next [simp]: "f_next (erase_inst x f) = f_next f"
  and insert_before_next [simp]: "f_next (insert_before x n f) = f_next f"
  by (simp_all add: upd_inst_def erase_inst_def insert_before_def)

lemma edits_block_ids [simp]:
  "map b_id (f_blocks (upd_inst x g f)) = map b_id (f_blocks f)"
  "map b_id (f_blocks (erase_inst x f)) = map b_id (f_blocks f)"
  "map b_id (f_blocks (insert_before x n f)) = map b_id (f_blocks f)"
  by (simp_all add: upd_inst_def erase_inst_def insert_before_def)

lemma wf_func_upd_inst:
  assumes "wf_func f" and "\<And>a. i_id (g a) = i_id a"
  shows "wf_func (upd_inst x g f)"
  using assms by (simp add: wf_func_def func_insts_upd_inst upd_at_keys)

lemma wf_func_insert_fresh:
  assumes "wf_func f" and "i_id n = f_next f"
  shows "wf_func (insert_before x n f\<lparr>f_next := Suc (f_next f)\<rparr>)"
  using assms
  by (simp add: wf_func_def func_insts_insert_before fresh_ids_ins_before fresh_ids_Suc
      wf_func_distinct[OF assms(1)])

lemma wf_func_new_before: "wf_func f \<Longrightarrow> wf_func (new_before x k t f)"
  unfolding new_before_def by (rule wf_func_insert_fresh) (simp_all add: mk_inst_def)

lemma new_before_frame [simp]: "f_next (new_before x k t f) = Suc (f_next f)"
  "f_id (new_before x k t f) = f_id f" "f_type (new_before x k t f) = f_type f"
  "f_name (new_before x k t f) = f_name f"
  by (simp_all add: new_before_def insert_before_def)

lemma upd_inst_frame [simp]: "f_id (upd_inst x g f) = f_id f" "f_type (upd_inst x g f) = f_type f"
  "f_name (upd_inst x g f) = f_name f"
  by (simp_all add: upd_inst_def)

lemma find_inst_upd_inst:
  "(\<And>a. i_id (g a) = i_id a) \<Longrightarrow>
   find_inst (upd_inst x g f) y = (if x = y then map_option g (find_inst f y) else find_inst f y)"
  unfolding find_inst_def func_insts_upd_inst by (rule at_id_upd_at)

lemma find_inst_Some: "find_inst f x = Some i \<Longrightarrow> i \<in> set (func_insts f) \<and> i_id i = x"
  unfolding find_inst_def by (rule at_id_Some)

lemma find_inst_less: "wf_func f \<Longrightarrow> find_inst f x = Some i \<Longrightarrow> x < f_next f"
  by (drule find_inst_Some) (auto simp: wf_func_def fresh_ids_def)

lemma func_insts_new_before:
  "wf_func f \<Longrightarrow> func_insts (new_before x k t f) =
     ins_before i_id x (mk_inst (f_next f) k t '''') (func_insts f)"
  unfolding new_before_def by (simp add: func_insts_insert_before wf_func_distinct)

lemma find_inst_new_before:
  assumes "wf_func f"
  shows "find_inst (new_before x k t f) y =
     (if y = f_next f \<and> x \<in> i_id ` set (func_insts f) then Some (mk_inst (f_next f) k t '''')
      else find_inst f y)"
  using wf_func_next_notin[OF assms]
  unfolding find_inst_def func_insts_new_before[OF assms]
  by (simp add: at_id_ins_before mk_inst_def)

lemma mk_inst_simps [simp]: "i_id (mk_inst x k t nm) = x" "i_kind (mk_inst x k t nm) = k"
  "i_type (mk_inst x k t nm) = t" "i_md (mk_inst x k t nm) = []"
  by (simp_all add: mk_inst_def)

text \<open>Giving instructions a new operation, all others and the layout unchanged.\<close>

definition edit_kinds :: "(ir_inst \<Rightarrow> ir_value ikind) \<Rightarrow> ir_func \<Rightarrow> ir_func" where
  "edit_kinds h f = map_blocks (on_insts (map (\<lambda>i. i\<lparr>i_kind := h i\<rparr>))) f"

lemma func_insts_edit_kinds: "func_insts (edit_kinds h f) = map (\<lambda>i. i\<lparr>i_kind := h i\<rparr>) (func_insts f)"
  unfolding edit_kinds_def func_insts_map_blocks by (simp add: func_insts_def map_concat)

lemma wf_func_edit_kinds: "wf_func f \<Longrightarrow> wf_func (edit_kinds h f)"
  unfolding wf_func_def func_insts_edit_kinds by (simp add: edit_kinds_def comp_def)

lemma edit_kinds_comp:
  "edit_kinds h2 (edit_kinds h1 f) = edit_kinds (\<lambda>i. h2 (i\<lparr>i_kind := h1 i\<rparr>)) f"
  by (simp add: edit_kinds_def map_blocks_def on_insts_def comp_def)

lemma map_blocks_insts_cong:
  assumes "\<And>i. i \<in> set (func_insts f) \<Longrightarrow> g i = g' i"
  shows "map_blocks (on_insts (map g)) f = map_blocks (on_insts (map g')) f"
proof -
  have "on_insts (map g) b = on_insts (map g') b" if "b \<in> set (f_blocks f)" for b
  proof -
    have "map g (b_insts b) = map g' (b_insts b)"
      using that assms by (auto simp: func_insts_def)
    then show ?thesis by (simp add: on_insts_def)
  qed
  then have "map (on_insts (map g)) (f_blocks f) = map (on_insts (map g')) (f_blocks f)"
    by simp
  then show ?thesis by (simp only: map_blocks_def)
qed

lemma map_blocks_id: "map_blocks (on_insts (\<lambda>is. is)) f = f"
proof -
  have "on_insts (\<lambda>is. is) = (\<lambda>b. b)" by (simp add: on_insts_def fun_eq_iff)
  then show ?thesis by (simp add: map_blocks_def)
qed

lemma edit_kinds_cong:
  "(\<And>i. i \<in> set (func_insts f) \<Longrightarrow> h i = h' i) \<Longrightarrow> edit_kinds h f = edit_kinds h' f"
  unfolding edit_kinds_def by (rule map_blocks_insts_cong) simp

lemma edit_kinds_id: "(\<And>i. i \<in> set (func_insts f) \<Longrightarrow> h i = i_kind i) \<Longrightarrow> edit_kinds h f = f"
proof -
  assume "\<And>i. i \<in> set (func_insts f) \<Longrightarrow> h i = i_kind i"
  then have "edit_kinds h f = edit_kinds i_kind f" by (rule edit_kinds_cong)
  also have "\<dots> = f" by (simp add: edit_kinds_def map_blocks_id)
  finally show ?thesis .
qed

lemma inst_eq_by_id:
  "wf_func f \<Longrightarrow> i \<in> set (func_insts f) \<Longrightarrow> j \<in> set (func_insts f) \<Longrightarrow> i_id i = i_id j \<Longrightarrow> i = j"
  using wf_func_distinct by (metis distinct_map inj_onD)

lemma find_inst_member: "wf_func f \<Longrightarrow> i \<in> set (func_insts f) \<Longrightarrow> find_inst f (i_id i) = Some i"
  unfolding find_inst_def by (rule at_id_distinct) (simp_all add: wf_func_distinct)

lemma set_kind_edit:
  assumes "wf_func f" and "c \<in> set (func_insts f)"
  shows "set_kind (i_id c) k f = edit_kinds (\<lambda>i. if i = c then k else i_kind i) f"
proof -
  have "\<And>i. i \<in> set (func_insts f) \<Longrightarrow> (i_id i = i_id c) = (i = c)"
    using assms by (blast intro: inst_eq_by_id)
  then show ?thesis
    unfolding set_kind_def upd_inst_def edit_kinds_def upd_at_def[abs_def]
    by (intro map_blocks_insts_cong) simp
qed

text \<open>A loop that looks each of some instructions up and rewrites it from what it was at the start.\<close>

lemma rfold_edit_kinds:
  assumes "wf_func f" and "distinct (map i_id cs)" and "set cs \<subseteq> set (func_insts f)"
    and "\<And>c g. c \<in> set cs \<Longrightarrow> find_inst g (i_id c) = Some c \<Longrightarrow>
           step (code c) g = Inr (set_kind (i_id c) (h c) g)"
  shows "rfold step (map code cs) f = Inr (edit_kinds (\<lambda>i. if i \<in> set cs then h i else i_kind i) f)"
  using assms
proof (induction cs arbitrary: f)
  case Nil
  then show ?case by (simp add: edit_kinds_id)
next
  case (Cons c cs)
  let ?h1 = "\<lambda>i. if i = c then h c else i_kind i"
  let ?h2 = "\<lambda>i. if i \<in> set cs then h i else i_kind i"
  have c: "c \<in> set (func_insts f)" using Cons.prems(3) by simp
  have nc: "c\<lparr>i_kind := h c\<rparr> \<notin> set cs"
  proof
    assume "c\<lparr>i_kind := h c\<rparr> \<in> set cs"
    then have "i_id (c\<lparr>i_kind := h c\<rparr>) \<in> i_id ` set cs" by (rule imageI)
    with Cons.prems(2) show False by simp
  qed
  have "step (code c) f = Inr (set_kind (i_id c) (h c) f)"
    using Cons.prems(4)[of c f] find_inst_member[OF Cons.prems(1) c] by simp
  also have "set_kind (i_id c) (h c) f = edit_kinds ?h1 f"
    by (rule set_kind_edit[OF Cons.prems(1) c])
  finally have step: "step (code c) f = Inr (edit_kinds ?h1 f)" .
  have sub: "set cs \<subseteq> set (func_insts (edit_kinds ?h1 f))"
  proof
    fix i assume "i \<in> set cs"
    moreover from this have "i \<noteq> c" using Cons.prems(2) by auto
    ultimately show "i \<in> set (func_insts (edit_kinds ?h1 f))"
      using Cons.prems(3) by (force simp: func_insts_edit_kinds image_iff)
  qed
  have "rfold step (map code cs) (edit_kinds ?h1 f) = Inr (edit_kinds ?h2 (edit_kinds ?h1 f))"
    using Cons.prems(2,4) by (intro Cons.IH wf_func_edit_kinds Cons.prems(1) sub) auto
  also have "edit_kinds ?h2 (edit_kinds ?h1 f) =
      edit_kinds (\<lambda>i. if i \<in> set (c # cs) then h i else i_kind i) f"
    unfolding edit_kinds_comp using nc by (intro edit_kinds_cong) auto
  finally show ?case using step by simp
qed

section \<open>Blocks under edits of their instructions\<close>

lemma map_blocks_comp: "map_blocks g (map_blocks h f) = map_blocks (g \<circ> h) f"
  by (simp add: map_blocks_def)

lemma on_insts_comp: "on_insts g \<circ> on_insts h = on_insts (g \<circ> h)"
  by (simp add: on_insts_def fun_eq_iff)

lemma on_insts_frame [simp]: "b_id (on_insts h b) = b_id b" "b_insts (on_insts h b) = h (b_insts b)"
  "b_name (on_insts h b) = b_name b"
  by (simp_all add: on_insts_def)

lemma map_blocks_blocks [simp]: "f_blocks (map_blocks g f) = map g (f_blocks f)"
  by (simp add: map_blocks_def)

lemma on_insts_cong: "h (b_insts b) = h' (b_insts b) \<Longrightarrow> on_insts h b = on_insts h' b"
  by (simp add: on_insts_def)

lemma map_blocks_cong:
  "(\<And>b. b \<in> set (f_blocks f) \<Longrightarrow> g b = g' b) \<Longrightarrow> map_blocks g f = map_blocks g' f"
  unfolding map_blocks_def by (metis list.map_cong0)

lemma find_block_map: "find_block (map_blocks (on_insts h) f) b = map_option (on_insts h) (find_block f b)"
proof -
  have "at_id b_id b (map (on_insts h) bs) = map_option (on_insts h) (at_id b_id b bs)" for bs
    by (induction bs) simp_all
  then show ?thesis by (simp add: find_block_def)
qed

lemma find_block_Some: "find_block f b = Some blk \<Longrightarrow> blk \<in> set (f_blocks f) \<and> b_id blk = b"
  unfolding find_block_def by (rule at_id_Some)

lemma find_block_member: "wf_func f \<Longrightarrow> b \<in> set (f_blocks f) \<Longrightarrow> find_block f (b_id b) = Some b"
  unfolding find_block_def by (rule at_id_distinct) (simp_all add: wf_func_def fresh_ids_def)

lemma parent_block_map:
  assumes "\<And>b. b \<in> set (f_blocks f) \<Longrightarrow> x \<in> i_id ` set (h (b_insts b)) \<longleftrightarrow> x \<in> i_id ` set (b_insts b)"
  shows "parent_block (map_blocks (on_insts h) f) x = map_option (on_insts h) (parent_block f x)"
proof -
  have "\<forall>b \<in> set bs. x \<in> i_id ` set (h (b_insts b)) \<longleftrightarrow> x \<in> i_id ` set (b_insts b) \<Longrightarrow>
      List.find (\<lambda>b. x \<in> set (map i_id (b_insts b))) (map (on_insts h) bs) =
      map_option (on_insts h) (List.find (\<lambda>b. x \<in> set (map i_id (b_insts b))) bs)" for bs
    by (induction bs) auto
  with assms show ?thesis by (simp add: parent_block_def)
qed

lemma parent_block_Some:
  "parent_block f x = Some b \<Longrightarrow> b \<in> set (f_blocks f) \<and> x \<in> i_id ` set (b_insts b)"
  unfolding parent_block_def by (auto simp: find_Some_iff)

lemma parent_block_next [simp]: "parent_block (f\<lparr>f_next := n\<rparr>) x = parent_block f x"
  and find_block_next [simp]: "find_block (f\<lparr>f_next := n\<rparr>) b = find_block f b"
  and find_inst_next [simp]: "find_inst (f\<lparr>f_next := n\<rparr>) x = find_inst f x"
  and map_blocks_next: "map_blocks g (f\<lparr>f_next := n\<rparr>) = (map_blocks g f)\<lparr>f_next := n\<rparr>"
  by (simp_all add: parent_block_def find_block_def find_inst_def map_blocks_def)

lemma block_insts_distinct: "wf_func f \<Longrightarrow> b \<in> set (f_blocks f) \<Longrightarrow> distinct (map i_id (b_insts b))"
  using wf_func_distinct[of f] by (auto simp: func_insts_def map_concat distinct_concat_iff)

lemma block_inst_func: "b \<in> set (f_blocks f) \<Longrightarrow> i \<in> set (b_insts b) \<Longrightarrow> i \<in> set (func_insts f)"
  by (auto simp: func_insts_def)

lemma find_inst_parent:
  assumes "wf_func f" and "parent_block f x = Some b" and "i \<in> set (b_insts b)"
  shows "find_inst f (i_id i) = Some i"
  using assms parent_block_Some[OF assms(2)] block_inst_func by (intro find_inst_member) auto

lemma find_inst_map:
  assumes "\<And>i. i_id (g i) = i_id i"
  shows "find_inst (map_blocks (on_insts (map g)) f) x = map_option g (find_inst f x)"
proof -
  have "at_id i_id x (map g is) = map_option g (at_id i_id x is)" for "is"
    by (induction "is") (simp_all add: assms)
  then show ?thesis
    unfolding find_inst_def func_insts_map_blocks unfolding map_concat[symmetric] func_insts_def by simp
qed

lemma terminator_in: "terminator b = Some t \<Longrightarrow> t \<in> set (b_insts b) \<and> is_terminator (i_kind t)"
  by (auto simp: terminator_def split: if_splits)

lemma last_ins_before: "xs \<noteq> [] \<Longrightarrow> last (ins_before key x n xs) = last xs \<and> ins_before key x n xs \<noteq> []"
  by (induction xs) auto

lemma terminator_ins_before: "terminator (on_insts (ins_before i_id x n) b) = terminator b"
proof (cases "b_insts b = []")
  case False
  then show ?thesis using last_ins_before[OF False, of i_id x n] by (simp add: terminator_def)
qed (simp add: terminator_def)

text \<open>Inserting an instruction before another one and then erasing that one replaces it.\<close>

lemma del_ins_before:
  assumes "distinct (map key xs)" and "key n \<noteq> x"
  shows "del_at key x (ins_before key x n xs) = map (\<lambda>a. if key a = x then n else a) xs"
  using assms(1)
proof (induction xs)
  case (Cons a xs)
  show ?case
  proof (cases "key a = x")
    case True
    with Cons.prems have "x \<notin> key ` set xs" by auto
    then have "map (\<lambda>a. if key a = x then n else a) xs = xs" by (intro map_idI) auto
    with True assms(2) \<open>x \<notin> key ` set xs\<close> show ?thesis by (simp add: del_at_notin)
  next
    case False
    with Cons show ?thesis by simp
  qed
qed simp

text \<open>
  An edit of single instructions that gives one of them, at \<open>x\<close>, the next address of the function and
  leaves the layout and all other addresses as they are.
\<close>

definition replace_insts :: "(ir_inst \<Rightarrow> ir_inst) \<Rightarrow> ir_func \<Rightarrow> ir_func" where
  "replace_insts R f = map_blocks (on_insts (map R)) (f\<lparr>f_next := Suc (f_next f)\<rparr>)"

definition readdresses :: "(ir_inst \<Rightarrow> ir_inst) \<Rightarrow> nat \<Rightarrow> nat \<Rightarrow> bool" where
  "readdresses R x n \<longleftrightarrow> (\<forall>j. i_id (R j) = (if i_id j = x then n else i_id j))"

lemma replace_insts_next [simp]: "f_next (replace_insts R f) = Suc (f_next f)"
  and find_block_replace_insts: "find_block (replace_insts R f) b = map_option (on_insts (map R)) (find_block f b)"
  and func_insts_replace_insts: "func_insts (replace_insts R f) = map R (func_insts f)"
proof -
  show "func_insts (replace_insts R f) = map R (func_insts f)"
    unfolding replace_insts_def func_insts_map_blocks unfolding func_insts_def by (simp add: map_concat)
qed (simp_all add: replace_insts_def find_block_map)

lemma wf_replace_insts:
  assumes "wf_func f" and "readdresses R x (f_next f)"
  shows "wf_func (replace_insts R f)"
proof -
  have d: "distinct (map i_id (func_insts f))" "\<forall>i \<in> set (func_insts f). i_id i < f_next f"
    using assms(1) by (auto simp: wf_func_def fresh_ids_def)
  have R: "i_id (R j) = (if i_id j = x then f_next f else i_id j)" for j
    using assms(2) by (simp add: readdresses_def)
  have "inj_on (\<lambda>j. i_id (R j)) (set (func_insts f))"
  proof (rule inj_onI)
    fix i j assume ij: "i \<in> set (func_insts f)" "j \<in> set (func_insts f)" "i_id (R i) = i_id (R j)"
    then have "i_id i = i_id j" using d(2) by (auto simp: R split: if_splits)
    with ij show "i = j" using inst_eq_by_id[OF assms(1)] by blast
  qed
  then have "distinct (map i_id (map R (func_insts f)))"
    using d(1) by (simp add: distinct_map comp_def)
  moreover have "\<forall>i \<in> set (map R (func_insts f)). i_id i < Suc (f_next f)"
    using d(2) by (auto simp: R less_Suc_eq)
  moreover have "map b_id (f_blocks (replace_insts R f)) = map b_id (f_blocks f)"
    by (simp add: replace_insts_def comp_def)
  ultimately show ?thesis
    using assms(1) by (auto simp: wf_func_def fresh_ids_def func_insts_replace_insts less_Suc_eq)
qed

lemma find_inst_replace_insts:
  assumes "readdresses R x (f_next f)" and "y \<noteq> x" and "y < f_next f"
  shows "find_inst (replace_insts R f) y = map_option R (find_inst f y)"
proof -
  have "at_id i_id y (map R is) = map_option R (at_id i_id y is)" for "is"
    using assms by (induction "is") (auto simp: readdresses_def)
  then show ?thesis by (simp add: find_inst_def func_insts_replace_insts)
qed

lemma parent_block_replace_insts:
  assumes "readdresses R x (f_next f)" and "y \<noteq> x" and "y < f_next f"
  shows "parent_block (replace_insts R f) y = map_option (on_insts (map R)) (parent_block f y)"
proof -
  have "i_id (R j) = y \<longleftrightarrow> i_id j = y" for j
    using assms by (auto simp: readdresses_def)
  then have "(\<exists>j \<in> set is. i_id (R j) = y) \<longleftrightarrow> (\<exists>j \<in> set is. i_id j = y)" for "is"
    by simp
  then have "y \<in> i_id ` set (map R is) \<longleftrightarrow> y \<in> i_id ` set is" for "is"
    unfolding image_iff set_map by (metis imageE imageI)
  then show ?thesis unfolding replace_insts_def by (subst parent_block_map) (simp_all only: parent_block_next)
qed

lemma terminator_map:
  "terminator b = Some u \<Longrightarrow> is_terminator (i_kind (R u)) \<Longrightarrow> terminator (on_insts (map R) b) = Some (R u)"
  by (auto simp: terminator_def last_map split: if_splits)

text \<open>Appending an instruction to a block.\<close>

lemma append_inst_blocks:
  "f_blocks (append_inst b n f) = map (\<lambda>c. if b_id c = b then on_insts (\<lambda>is. is @ [n]) c else c) (f_blocks f)"
  by (simp add: append_inst_def upd_at_def)

lemma find_inst_append_inst: "x \<noteq> i_id n \<Longrightarrow> find_inst (append_inst b n f) x = find_inst f x"
proof -
  assume x: "x \<noteq> i_id n"
  have "at_id i_id x (concat (map b_insts (map (\<lambda>c. if b_id c = b then on_insts (\<lambda>is. is @ [n]) c else c) bs)))
      = at_id i_id x (concat (map b_insts bs))" for bs
    by (induction bs) (auto simp: at_id_append x split: option.splits)
  then show ?thesis unfolding find_inst_def func_insts_def append_inst_blocks .
qed

lemma parent_block_append_inst:
  "x \<noteq> i_id n \<Longrightarrow> map_option b_id (parent_block (append_inst b n f) x) = map_option b_id (parent_block f x)"
proof -
  assume x: "x \<noteq> i_id n"
  have "map_option b_id (List.find (\<lambda>b. x \<in> set (map i_id (b_insts b)))
         (map (\<lambda>c. if b_id c = b then on_insts (\<lambda>is. is @ [n]) c else c) bs))
      = map_option b_id (List.find (\<lambda>b. x \<in> set (map i_id (b_insts b))) bs)" for bs
    by (induction bs) (use x in auto)
  then show ?thesis unfolding parent_block_def append_inst_blocks .
qed

lemma new_at_end_other:
  assumes "x \<noteq> f_next f"
  shows "find_inst (new_at_end b k t f) x = find_inst f x"
    and "map_option b_id (parent_block (new_at_end b k t f) x) = map_option b_id (parent_block f x)"
  using assms unfolding new_at_end_def
  by (simp_all add: find_inst_append_inst parent_block_append_inst)

lemma parent_block_upd_inst:
  assumes "\<And>a. i_id (g a) = i_id a"
  shows "map_option b_id (parent_block (upd_inst y g f) x) = map_option b_id (parent_block f x)"
proof -
  have "x \<in> i_id ` set (upd_at i_id y g is) \<longleftrightarrow> x \<in> i_id ` set is" for "is"
    by (metis assms list.set_map upd_at_keys)
  then show ?thesis
    unfolding upd_inst_def by (subst parent_block_map) (auto simp: option.map_comp comp_def)
qed

lemma parent_block_erase_inst:
  assumes "x \<noteq> y"
  shows "map_option b_id (parent_block (erase_inst y f) x) = map_option b_id (parent_block f x)"
proof -
  have "x \<in> i_id ` set (del_at i_id y is) \<longleftrightarrow> x \<in> i_id ` set is" for "is"
    using assms by (auto simp: del_at_def)
  then show ?thesis
    unfolding erase_inst_def by (subst parent_block_map) (auto simp: option.map_comp comp_def)
qed

lemma find_inst_erase_inst: "x \<noteq> y \<Longrightarrow> find_inst (erase_inst y f) x = find_inst f x"
  unfolding find_inst_def func_insts_erase_inst by (rule at_id_del_at) simp

lemma find_inst_has_parent:
  assumes "find_inst f x = Some i"
  shows "\<exists>b. parent_block f x = Some b"
proof -
  have "i \<in> set (func_insts f)" "i_id i = x" using find_inst_Some[OF assms] by auto
  then obtain b where b: "b \<in> set (f_blocks f)" "x \<in> set (map i_id (b_insts b))" by (auto simp: func_insts_def)
  have "parent_block f x \<noteq> None"
  proof
    assume "parent_block f x = None"
    with b show False unfolding parent_block_def find_None_iff by blast
  qed
  then show ?thesis by blast
qed

section \<open>Modules\<close>

record ir_global =
  g_id :: nat
  g_name :: string
  g_type :: ir_type
  g_const :: bool
  g_linkage :: string
  g_unique_init :: bool     \<comment> \<open>\<open>hasUniqueInitializer\<close>\<close>
  g_init :: "ir_value option"

record ir_module =
  m_funcs :: "ir_func list"
  m_globals :: "ir_global list"
  m_named_md :: "(string \<times> metadata list) list"
  m_arch_bits :: nat        \<comment> \<open>the pointer width of the target triple's architecture\<close>
  m_intptr_bits :: nat      \<comment> \<open>the width of \<open>DataLayout::getIntPtrType\<close>\<close>
  m_next :: nat

definition find_func :: "ir_module \<Rightarrow> nat \<Rightarrow> ir_func option" where
  "find_func m g = at_id f_id g (m_funcs m)"

definition upd_func :: "nat \<Rightarrow> (ir_func \<Rightarrow> ir_func) \<Rightarrow> ir_module \<Rightarrow> ir_module" where
  "upd_func g h m = m\<lparr>m_funcs := upd_at f_id g h (m_funcs m)\<rparr>"

definition find_global :: "ir_module \<Rightarrow> nat \<Rightarrow> ir_global option" where
  "find_global m g = at_id g_id g (m_globals m)"

text \<open>What a pass reports as still valid after it ran.\<close>

datatype preserved_analyses = PA_all | PA_none | PA_cfg

text \<open>A function as its constructor makes it, with the given body: no attributes.\<close>

definition mk_func :: "nat \<Rightarrow> string \<Rightarrow> ir_type \<Rightarrow> bool \<Rightarrow> ir_block list \<Rightarrow> nat \<Rightarrow> ir_func" where
  "mk_func g nm ty ext bs n =
     \<lparr>f_id = g, f_name = nm, f_type = ty, f_external = ext, f_materializable = False,
      f_optnone = False, f_noinline = False, f_blocks = bs, f_next = n\<rparr>"

definition mk_block :: "nat \<Rightarrow> ir_inst list \<Rightarrow> ir_block" where
  "mk_block b is = \<lparr>b_id = b, b_name = '''', b_insts = is\<rparr>"

text \<open>Loops that edit functions of a module one at a time.\<close>

text \<open>Functions with distinct addresses below the counter, each well formed.\<close>

definition wf_module :: "ir_module \<Rightarrow> bool" where
  "wf_module m \<longleftrightarrow> distinct (map f_id (m_funcs m)) \<and>
     (\<forall>f \<in> set (m_funcs m). f_id f < m_next m \<and> wf_func f)"

lemma find_func_Some: "find_func m g = Some f \<Longrightarrow> f \<in> set (m_funcs m) \<and> f_id f = g"
  unfolding find_func_def by (rule at_id_Some)

lemma find_func_member:
  "distinct (map f_id (m_funcs m)) \<Longrightarrow> f \<in> set (m_funcs m) \<Longrightarrow> find_func m (f_id f) = Some f"
  unfolding find_func_def by (rule at_id_distinct)

lemma find_func_upd_func:
  "(\<And>f. f_id (h f) = f_id f) \<Longrightarrow>
   find_func (upd_func g h m) g' = (if g = g' then map_option h (find_func m g') else find_func m g')"
  unfolding find_func_def upd_func_def by (simp add: at_id_upd_at)

lemma find_func_fold:
  assumes "\<And>r f. f_id (h r f) = f_id f"
  shows "find_func (fold (\<lambda>r. upd_func (key r) (h r)) rs m) g =
    map_option (fold h (filter (\<lambda>r. key r = g) rs)) (find_func m g)"
proof (induction rs arbitrary: m)
  case Nil
  show ?case by (cases "find_func m g") simp_all
next
  case (Cons r rs)
  then show ?case
    using find_func_upd_func[of "h r", OF assms] by (cases "find_func m g") auto
qed

section \<open>Moving instructions\<close>

text \<open>\<open>moveBefore\<close> and \<open>moveAfter\<close>; moving an instruction next to itself changes nothing.\<close>

definition insert_after :: "nat \<Rightarrow> ir_inst \<Rightarrow> ir_func \<Rightarrow> ir_func" where
  "insert_after x n f = map_blocks (on_insts (ins_after i_id x n)) f"

definition move_before :: "nat \<Rightarrow> nat \<Rightarrow> ir_func \<Rightarrow> ir_func" where
  "move_before x y f =
     (case find_inst f x of
        None \<Rightarrow> f
      | Some i \<Rightarrow> if x = y then f else insert_before y i (erase_inst x f))"

definition move_after :: "nat \<Rightarrow> nat \<Rightarrow> ir_func \<Rightarrow> ir_func" where
  "move_after x y f =
     (case find_inst f x of
        None \<Rightarrow> f
      | Some i \<Rightarrow> if x = y then f else insert_after y i (erase_inst x f))"

text \<open>\<open>replaceAllUsesWith\<close>.\<close>

definition replace_all_uses :: "ir_value \<Rightarrow> ir_value \<Rightarrow> ir_func \<Rightarrow> ir_func" where
  "replace_all_uses old new f = edit_kinds (\<lambda>i. replace_uses old new (i_kind i)) f"

text \<open>An instruction created with a name.\<close>

definition new_named_before :: "nat \<Rightarrow> ir_value ikind \<Rightarrow> ir_type \<Rightarrow> string \<Rightarrow> ir_func \<Rightarrow> ir_func" where
  "new_named_before x k t nm f = insert_before x (mk_inst (f_next f) k t nm) f\<lparr>f_next := Suc (f_next f)\<rparr>"

text \<open>The first instruction of a block that is not a \<open>phi\<close>, and the front of the entry block.\<close>

definition first_non_phi :: "ir_block \<Rightarrow> ir_inst option" where
  "first_non_phi b = List.find (\<lambda>i. \<not> is_phi (i_kind i)) (b_insts b)"

lemma func_insts_insert_after:
  "distinct (map i_id (func_insts f)) \<Longrightarrow> func_insts (insert_after x n f) = ins_after i_id x n (func_insts f)"
  unfolding insert_after_def func_insts_map_blocks unfolding func_insts_def by (rule concat_ins_after)

lemma insert_after_frame [simp]: "f_next (insert_after x n f) = f_next f"
  "map b_id (f_blocks (insert_after x n f)) = map b_id (f_blocks f)"
  by (simp_all add: insert_after_def)

lemma wf_func_insert_after_fresh:
  assumes "wf_func f" and "i_id n = f_next f"
  shows "wf_func (insert_after x n f\<lparr>f_next := Suc (f_next f)\<rparr>)"
proof -
  note d = wf_func_distinct[OF assms(1)]
  have new: "i_id n \<notin> i_id ` set (func_insts f)" using wf_func_next_notin[OF assms(1)] assms(2) by simp
  show ?thesis
    using assms ins_after_distinct[OF d new, of x]
    by (auto simp: wf_func_def func_insts_insert_after[OF d] fresh_ids_def set_ins_after less_Suc_eq)
qed

text \<open>An instruction that is created and then moved behind the one it was created before.\<close>

lemma move_after_new:
  assumes "wf_func f" and "x \<in> i_id ` set (func_insts f)"
  shows "move_after (f_next f) x (new_before x k t f) =
    insert_after x (mk_inst (f_next f) k t '''') f\<lparr>f_next := Suc (f_next f)\<rparr>"
proof -
  let ?n = "mk_inst (f_next f) k t ''''"
  have fresh: "f_next f \<notin> i_id ` set (func_insts f)" by (rule wf_func_next_notin[OF assms(1)])
  have find: "find_inst (new_before x k t f) (f_next f) = Some ?n" "x \<noteq> f_next f"
    using assms(2) fresh by (auto simp: find_inst_new_before[OF assms(1)] simp del: image_iff) (metis assms(2))
  have "ins_after i_id x ?n (del_at i_id (f_next f) (ins_before i_id x ?n (b_insts b))) = ins_after i_id x ?n (b_insts b)"
    if "b \<in> set (f_blocks f)" for b
    using move_ins_after[of i_id ?n "b_insts b" x] fresh that by (auto simp: func_insts_def)
  then have "map_blocks (on_insts (ins_after i_id x ?n) \<circ> on_insts (del_at i_id (f_next f)) \<circ> on_insts (ins_before i_id x ?n)) f =
      map_blocks (on_insts (ins_after i_id x ?n)) f"
    by (intro map_blocks_cong) (simp add: on_insts_def)
  then show ?thesis
    using find by (simp add: move_after_def insert_after_def erase_inst_def new_before_def insert_before_def
        map_blocks_next map_blocks_comp comp_assoc)
qed

section \<open>Lookups of what must exist\<close>

text \<open>Where there is no such instruction or block the code holds a null pointer, or one to nothing.\<close>

definition get_inst :: "ir_func \<Rightarrow> nat \<Rightarrow> ir_inst res" where
  "get_inst f x = (case find_inst f x of None \<Rightarrow> Inl NullDeref | Some i \<Rightarrow> Inr i)"

definition get_parent :: "ir_func \<Rightarrow> nat \<Rightarrow> ir_block res" where
  "get_parent f x = (case parent_block f x of None \<Rightarrow> Inl NullDeref | Some b \<Rightarrow> Inr b)"

definition get_terminator :: "ir_func \<Rightarrow> nat \<Rightarrow> ir_inst res" where
  "get_terminator f b =
     (case find_block f b of None \<Rightarrow> Inl NullDeref | Some blk \<Rightarrow> deref (terminator blk))"

text \<open>\<open>getNextNode\<close>.\<close>

definition next_inst :: "ir_block \<Rightarrow> nat \<Rightarrow> nat res" where
  "next_inst b x =
     (case dropWhile (\<lambda>i. i_id i \<noteq> x) (b_insts b) of
        i # j # is \<Rightarrow> Inr (i_id j)
      | _ \<Rightarrow> Inl NullDeref)"

text \<open>An instruction of an example.\<close>

definition demo_inst :: "nat \<Rightarrow> ir_value ikind \<Rightarrow> ir_inst" where
  "demo_inst x k = mk_inst x k VoidTy ''''"

section \<open>Demoting values to the stack\<close>

text \<open>
  \<open>DemoteRegToStack\<close> and \<open>DemotePHIToStack\<close>: from the instruction, the point for the new variable and the
  function to the changed function and the variable, a null pointer where the value had no uses.
\<close>

type_synonym demotion = "nat \<Rightarrow> nat \<Rightarrow> ir_func \<Rightarrow> ir_func \<times> nat option"

lemma layout_ids:
  assumes "wf_func f" and "f_blocks f = ys @ blk # zs"
  shows "b_id blk \<notin> b_id ` set ys" "b_id blk \<notin> b_id ` set zs"
    and "x \<in> i_id ` set (b_insts blk) \<Longrightarrow> b \<in> set ys \<union> set zs \<Longrightarrow> x \<notin> i_id ` set (b_insts b)"
proof -
  have "distinct (map b_id (ys @ blk # zs))" and d: "distinct (map i_id (concat (map b_insts (ys @ blk # zs))))"
    using assms by (auto simp: wf_func_def fresh_ids_def func_insts_def)
  then show "b_id blk \<notin> b_id ` set ys" "b_id blk \<notin> b_id ` set zs" by auto
  have mid: "distinct (Y @ B @ Z) \<Longrightarrow> set B \<inter> set (Y @ Z) = {}" for Y B Z :: "nat list" by auto
  have "set (map i_id (b_insts blk)) \<inter> set (map i_id (concat (map b_insts ys)) @ map i_id (concat (map b_insts zs))) = {}"
    using d by (intro mid) simp
  then show "x \<in> i_id ` set (b_insts blk) \<Longrightarrow> b \<in> set ys \<union> set zs \<Longrightarrow> x \<notin> i_id ` set (b_insts b)"
    by fastforce
qed

end
