(* ===== verification/Metadata_Util.thy ===== *)
theory Metadata_Util
  imports IR
begin

text \<open>
  \<open>lib/support/metadata-util.cpp\<close> and \<open>include/support/metadata-util.h\<close>: attaching string and
  integer metadata to instructions, creating \<open>llvm.donothing\<close> calls that only carry metadata
  (markers), and the family of searches over a block or a function. The C++ overloads are told
  apart by a suffix: \<open>bb\<close> and \<open>fn\<close> for the scope; then nothing for a search by name,
  \<open>pred\<close> for a search with a predicate on the text, \<open>value\<close> for a search by text.

  The locales \<open>block_search\<close> and \<open>first_search\<close> state once how a search over a function relates to
  the search over a block it loops over; every pair of overloads is an interpretation.
\<close>

section \<open>Metadata of an instruction\<close>

definition get_md :: "string \<Rightarrow> ir_inst \<Rightarrow> md_node option" where
  "get_md name i = map_of (i_md i) name"

definition set_md :: "string \<Rightarrow> md_node \<Rightarrow> ir_inst \<Rightarrow> ir_inst" where
  "set_md name node i = i\<lparr>i_md := AList.update name node (i_md i)\<rparr>"

definition has_md_other :: "ir_inst \<Rightarrow> bool" where
  "has_md_other i \<longleftrightarrow> (\<exists>p \<in> set (i_md i). fst p \<noteq> ''dbg'')"

definition attach_metadata :: "ir_inst \<Rightarrow> string \<Rightarrow> string \<Rightarrow> ir_inst \<times> md_node" where
  "attach_metadata i name v = (let node = [MDString v] in (set_md name node i, node))"

definition attach_metadata_u64 :: "ir_inst \<Rightarrow> string \<Rightarrow> 64 word \<Rightarrow> ir_inst \<times> md_node" where
  "attach_metadata_u64 i name v =
     (let node = [ValueAsMD (ConstInt (cint_get 64 v))] in (set_md name node i, node))"

text \<open>The variadic templates: one attachment after another, in the order of the arguments.\<close>

definition attach_metadata_all :: "string \<Rightarrow> string \<Rightarrow> ir_inst list \<Rightarrow> ir_inst list" where
  "attach_metadata_all name v is = map (\<lambda>i. fst (attach_metadata i name v)) is"

definition attach_metadata_u64_all :: "string \<Rightarrow> 64 word \<Rightarrow> ir_inst list \<Rightarrow> ir_inst list" where
  "attach_metadata_u64_all name v is = map (\<lambda>i. fst (attach_metadata_u64 i name v)) is"

text \<open>\<open>cast<MDString>(node->getOperand(0))->getString()\<close>.\<close>

fun node_text :: "md_node \<Rightarrow> string res" where
  "node_text [] = Inl BadIndex"
| "node_text (MDString s # ops) = Inr s"
| "node_text (_ # ops) = Inl BadCast"

fun node_u64 :: "md_node \<Rightarrow> 64 word res" where
  "node_u64 [] = Inl BadIndex"
| "node_u64 (ValueAsMD (ConstInt c) # ops) = Inr (zext_value c)"
| "node_u64 (_ # ops) = Inl BadCast"

definition get_metadata :: "ir_inst \<Rightarrow> string \<Rightarrow> string option res" where
  "get_metadata i name =
     (case get_md name i of None \<Rightarrow> Inr None | Some node \<Rightarrow> rmap Some (node_text node))"

definition get_uint64_metadata :: "ir_inst \<Rightarrow> string \<Rightarrow> 64 word option res" where
  "get_uint64_metadata i name =
     (case get_md name i of None \<Rightarrow> Inr None | Some node \<Rightarrow> rmap Some (node_u64 node))"

section \<open>Markers\<close>

definition donothing_type :: ir_type where
  "donothing_type = FuncTy VoidTy [] False"

definition donothing_call :: "ir_value ikind" where
  "donothing_call = Call donothing_type [] (FuncVal (Intrinsic ''llvm.donothing'') donothing_type)"

text \<open>
  An \<open>IRBuilder\<close> at an instruction gives what it creates that instruction's debug location; one at
  the end of a block gives none.
\<close>

definition debug_loc_of :: "ir_func \<Rightarrow> nat \<Rightarrow> (string \<times> md_node) list" where
  "debug_loc_of f p =
     (case find_inst f p of None \<Rightarrow> [] | Some ip \<Rightarrow> filter (\<lambda>a. fst a = ''dbg'') (i_md ip))"

definition create_metadata_marker_before :: "ir_func \<Rightarrow> nat \<Rightarrow> ir_func \<times> nat" where
  "create_metadata_marker_before f p =
     (let x = f_next f;
          n = (mk_inst x donothing_call VoidTy '''')\<lparr>i_md := debug_loc_of f p\<rparr>
      in (insert_before p n f\<lparr>f_next := Suc x\<rparr>, x))"

definition create_metadata_marker_end :: "ir_func \<Rightarrow> nat \<Rightarrow> ir_func \<times> nat" where
  "create_metadata_marker_end f b =
     (let x = f_next f
      in (append_inst b (mk_inst x donothing_call VoidTy '''') f\<lparr>f_next := Suc x\<rparr>, x))"

definition create_metadata_before :: "ir_func \<Rightarrow> nat \<Rightarrow> string \<Rightarrow> string \<Rightarrow> ir_func \<times> nat" where
  "create_metadata_before f p name v =
     (let (f', x) = create_metadata_marker_before f p
      in (upd_inst x (\<lambda>i. fst (attach_metadata i name v)) f', x))"

definition create_metadata_end :: "ir_func \<Rightarrow> nat \<Rightarrow> string \<Rightarrow> string \<Rightarrow> ir_func \<times> nat" where
  "create_metadata_end f b name v =
     (let (f', x) = create_metadata_marker_end f b
      in (upd_inst x (\<lambda>i. fst (attach_metadata i name v)) f', x))"

section \<open>Searches for instructions that carry metadata\<close>

definition find_metadata_bb :: "ir_block \<Rightarrow> string \<Rightarrow> ir_inst list" where
  "find_metadata_bb b name =
     filter (\<lambda>i. has_md_other i \<and> get_md name i \<noteq> None) (b_insts b)"

definition find_metadata_fn :: "ir_func \<Rightarrow> string \<Rightarrow> ir_inst list" where
  "find_metadata_fn f name = concat (map (\<lambda>b. find_metadata_bb b name) (f_blocks f))"

text \<open>The predicate applied to the text of the node; a null node is dereferenced.\<close>

definition text_satisfies :: "string \<Rightarrow> (string \<Rightarrow> bool) \<Rightarrow> ir_inst \<Rightarrow> bool res" where
  "text_satisfies name p i =
     (case get_md name i of None \<Rightarrow> Inl NullDeref | Some node \<Rightarrow> rmap p (node_text node))"

definition find_metadata_bb_pred :: "ir_block \<Rightarrow> string \<Rightarrow> (string \<Rightarrow> bool) \<Rightarrow> ir_inst list res" where
  "find_metadata_bb_pred b name p = rfilter (text_satisfies name p) (find_metadata_bb b name)"

definition find_metadata_fn_pred :: "ir_func \<Rightarrow> string \<Rightarrow> (string \<Rightarrow> bool) \<Rightarrow> ir_inst list res" where
  "find_metadata_fn_pred f name p = rconcat (\<lambda>b. find_metadata_bb_pred b name p) (f_blocks f)"

definition find_metadata_bb_value :: "ir_block \<Rightarrow> string \<Rightarrow> string \<Rightarrow> ir_inst list res" where
  "find_metadata_bb_value b name v = find_metadata_bb_pred b name (\<lambda>s. s = v)"

definition find_metadata_fn_value :: "ir_func \<Rightarrow> string \<Rightarrow> string \<Rightarrow> ir_inst list res" where
  "find_metadata_fn_value f name v = rconcat (\<lambda>b. find_metadata_bb_value b name v) (f_blocks f)"

section \<open>Searches for markers\<close>

definition is_metadata_marker :: "ir_inst \<Rightarrow> bool" where
  "is_metadata_marker i \<longleftrightarrow>
     is_call (i_kind i) \<and> called_function (i_kind i) = Some (Intrinsic ''llvm.donothing'') \<and>
     has_md_other i"

definition find_markers_bb :: "ir_block \<Rightarrow> ir_inst list" where
  "find_markers_bb b = filter is_metadata_marker (b_insts b)"

definition find_markers_fn :: "ir_func \<Rightarrow> ir_inst list" where
  "find_markers_fn f = concat (map find_markers_bb (f_blocks f))"

definition find_markers_bb_name :: "ir_block \<Rightarrow> string \<Rightarrow> ir_inst list" where
  "find_markers_bb_name b name =
     filter (\<lambda>i. if has_md_other i then get_md name i \<noteq> None else False) (find_markers_bb b)"

definition find_markers_fn_name :: "ir_func \<Rightarrow> string \<Rightarrow> ir_inst list" where
  "find_markers_fn_name f name = concat (map (\<lambda>b. find_markers_bb_name b name) (f_blocks f))"

definition find_markers_bb_pred :: "ir_block \<Rightarrow> string \<Rightarrow> (string \<Rightarrow> bool) \<Rightarrow> ir_inst list res" where
  "find_markers_bb_pred b name p = rfilter (text_satisfies name p) (find_markers_bb_name b name)"

definition find_markers_fn_pred :: "ir_func \<Rightarrow> string \<Rightarrow> (string \<Rightarrow> bool) \<Rightarrow> ir_inst list res" where
  "find_markers_fn_pred f name p = rconcat (\<lambda>b. find_markers_bb_pred b name p) (f_blocks f)"

definition find_markers_bb_value :: "ir_block \<Rightarrow> string \<Rightarrow> string \<Rightarrow> ir_inst list res" where
  "find_markers_bb_value b name v = find_markers_bb_pred b name (\<lambda>s. s = v)"

definition find_markers_fn_value :: "ir_func \<Rightarrow> string \<Rightarrow> string \<Rightarrow> ir_inst list res" where
  "find_markers_fn_value f name v = find_markers_fn_pred f name (\<lambda>s. s = v)"

text \<open>The searches that return the first marker, or a null pointer.\<close>

definition find_marker_bb_pred :: "ir_block \<Rightarrow> string \<Rightarrow> (string \<Rightarrow> bool) \<Rightarrow> ir_inst option res" where
  "find_marker_bb_pred b name p = rfind (text_satisfies name p) (find_markers_bb_name b name)"

definition find_marker_fn_pred :: "ir_func \<Rightarrow> string \<Rightarrow> (string \<Rightarrow> bool) \<Rightarrow> ir_inst option res" where
  "find_marker_fn_pred f name p = rfirst (\<lambda>b. find_marker_bb_pred b name p) (f_blocks f)"

definition find_marker_bb_name :: "ir_block \<Rightarrow> string \<Rightarrow> ir_inst option res" where
  "find_marker_bb_name b name = find_marker_bb_pred b name (\<lambda>_. True)"

definition find_marker_fn_name :: "ir_func \<Rightarrow> string \<Rightarrow> ir_inst option res" where
  "find_marker_fn_name f name = find_marker_fn_pred f name (\<lambda>_. True)"

definition find_marker_bb_value :: "ir_block \<Rightarrow> string \<Rightarrow> string \<Rightarrow> ir_inst option res" where
  "find_marker_bb_value b name v = find_marker_bb_pred b name (\<lambda>s. s = v)"

definition find_marker_fn_value :: "ir_func \<Rightarrow> string \<Rightarrow> string \<Rightarrow> ir_inst option res" where
  "find_marker_fn_value f name v = find_marker_fn_pred f name (\<lambda>s. s = v)"

section \<open>What a search over a function returns\<close>

text \<open>
  A search over a block selects instructions (\<open>sel\<close>) and succeeds where the text it reads is there
  (\<open>ok\<close>); the search over a function is the loop over the blocks.
\<close>

locale block_search =
  fixes blk :: "ir_block \<Rightarrow> ir_inst list res"
    and fn :: "ir_func \<Rightarrow> ir_inst list res"
    and sel :: "ir_inst \<Rightarrow> bool"
    and ok :: "ir_inst \<Rightarrow> bool"
  assumes blk_total: "\<forall>i \<in> set (b_insts b). ok i \<Longrightarrow> blk b = Inr (filter sel (b_insts b))"
    and blk_sound: "blk b = Inr is \<Longrightarrow> is = filter sel (b_insts b)"
    and fn_loop: "fn f = rconcat blk (f_blocks f)"
begin

lemma fn_total:
  assumes "\<forall>i \<in> set (func_insts f). ok i"
  shows "fn f = Inr (filter sel (func_insts f))"
proof -
  have "rconcat blk (f_blocks f) = Inr (concat (map (\<lambda>b. filter sel (b_insts b)) (f_blocks f)))"
    using assms by (intro rconcat_pure blk_total) (auto simp: func_insts_def)
  then show ?thesis by (simp add: fn_loop func_insts_def filter_concat comp_def)
qed

lemma fn_sound: "fn f = Inr is \<Longrightarrow> is = filter sel (func_insts f)"
  unfolding fn_loop func_insts_def filter_concat map_map comp_def
  by (rule rconcat_sound) (auto dest: blk_sound)

end

locale first_search = block_search +
  fixes blk1 :: "ir_block \<Rightarrow> ir_inst option res"
    and fn1 :: "ir_func \<Rightarrow> ir_inst option res"
  assumes blk1_first: "blk b = Inr is \<Longrightarrow> blk1 b = Inr (first_of is)"
    and fn1_loop: "fn1 f = rfirst blk1 (f_blocks f)"
begin

lemma fn1_first: "fn f = Inr is \<Longrightarrow> fn1 f = Inr (first_of is)"
  unfolding fn_loop fn1_loop by (rule rfirst_rconcat) (auto intro: blk1_first)

lemma fn1_total:
  "\<forall>i \<in> set (func_insts f). ok i \<Longrightarrow> fn1 f = Inr (first_of (filter sel (func_insts f)))"
  by (rule fn1_first) (rule fn_total)

end

text \<open>The instructions each search selects.\<close>

definition tagged :: "string \<Rightarrow> ir_inst \<Rightarrow> bool" where
  "tagged name i \<longleftrightarrow> has_md_other i \<and> get_md name i \<noteq> None"

definition text_of :: "string \<Rightarrow> ir_inst \<Rightarrow> string option" where
  "text_of name i = (case get_md name i of Some (MDString s # _) \<Rightarrow> Some s | _ \<Rightarrow> None)"

definition tagged_text :: "string \<Rightarrow> (string \<Rightarrow> bool) \<Rightarrow> ir_inst \<Rightarrow> bool" where
  "tagged_text name p i \<longleftrightarrow> tagged name i \<and> (\<exists>s. text_of name i = Some s \<and> p s)"

definition holds_text :: "string \<Rightarrow> ir_inst \<Rightarrow> bool" where
  "holds_text name i \<longleftrightarrow> (tagged name i \<longrightarrow> text_of name i \<noteq> None)"

lemma text_satisfies_True: "text_satisfies name p i = Inr True \<longleftrightarrow> (\<exists>s. text_of name i = Some s \<and> p s)"
  unfolding text_satisfies_def text_of_def
  by (auto split: option.splits list.splits metadata.splits ir_value.splits
      elim!: node_text.elims)

lemma text_satisfies_text: "text_of name i = Some s \<Longrightarrow> text_satisfies name p i = Inr (p s)"
  unfolding text_satisfies_def text_of_def
  by (auto split: option.splits list.splits metadata.splits)

lemma rfilter_text:
  assumes "\<forall>i \<in> set is. holds_text name i" and "\<And>i. S i \<Longrightarrow> tagged name i"
  shows "rfilter (text_satisfies name p) (filter S is)
           = Inr (filter (\<lambda>i. S i \<and> tagged_text name p i) is)"
proof -
  have "rfilter (text_satisfies name p) (filter S is)
      = Inr (filter (\<lambda>i. tagged_text name p i) (filter S is))"
  proof (rule rfilter_pure)
    fix i assume "i \<in> set (filter S is)"
    with assms have "tagged name i" "holds_text name i" by auto
    then obtain s where s: "text_of name i = Some s" by (auto simp: holds_text_def)
    with \<open>tagged name i\<close> show "text_satisfies name p i = Inr (tagged_text name p i)"
      by (simp add: text_satisfies_text[OF s] tagged_text_def)
  qed
  then show ?thesis by (simp add: conj_commute)
qed

lemma rfilter_text_sound:
  assumes "rfilter (text_satisfies name p) (filter S is) = Inr js" and "\<And>i. S i \<Longrightarrow> tagged name i"
  shows "js = filter (\<lambda>i. S i \<and> tagged_text name p i) is"
proof -
  have "js = filter (\<lambda>i. text_satisfies name p i = Inr True) (filter S is)"
    by (rule rfilter_sound) (rule assms(1))
  then show ?thesis
    using assms(2) by (auto simp: text_satisfies_True tagged_text_def intro!: filter_cong)
qed

text \<open>The searches of the source, as interpretations.\<close>

interpretation by_name: block_search
  "\<lambda>b. Inr (find_metadata_bb b name)" "\<lambda>f. Inr (find_metadata_fn f name)"
  "tagged name" "\<lambda>_. True" for name :: string
proof
  fix f
  show "Inr (find_metadata_fn f name) = rconcat (\<lambda>b. Inr (find_metadata_bb b name)) (f_blocks f)"
    unfolding find_metadata_fn_def by (rule rconcat_pure[symmetric]) simp
qed (auto simp: find_metadata_bb_def tagged_def[abs_def])

interpretation by_text: block_search
  "\<lambda>b. find_metadata_bb_pred b name p" "\<lambda>f. find_metadata_fn_pred f name p"
  "tagged_text name p" "holds_text name" for name :: string and p
proof
  fix b "is"
  have bb: "find_metadata_bb b name = filter (tagged name) (b_insts b)"
    by (simp add: find_metadata_bb_def tagged_def[abs_def])
  have sel: "(\<lambda>i. tagged name i \<and> tagged_text name p i) = tagged_text name p"
    by (auto simp: tagged_text_def)
  show "find_metadata_bb_pred b name p = Inr (filter (tagged_text name p) (b_insts b))"
    if "\<forall>i \<in> set (b_insts b). holds_text name i"
    using rfilter_text[OF that, of "tagged name" p] by (simp add: find_metadata_bb_pred_def bb sel)
  show "is = filter (tagged_text name p) (b_insts b)" if "find_metadata_bb_pred b name p = Inr is"
    using that rfilter_text_sound[of name p "tagged name" "b_insts b" "is"]
    by (simp add: find_metadata_bb_pred_def bb sel)
qed (simp add: find_metadata_fn_pred_def)

interpretation by_value: block_search
  "\<lambda>b. find_metadata_bb_value b name v" "\<lambda>f. find_metadata_fn_value f name v"
  "tagged_text name (\<lambda>s. s = v)" "holds_text name" for name v :: string
  by unfold_locales
    (auto simp: find_metadata_bb_value_def find_metadata_fn_value_def by_text.blk_total
      dest: by_text.blk_sound)

interpretation markers: block_search
  "\<lambda>b. Inr (find_markers_bb b)" "\<lambda>f. Inr (find_markers_fn f)" is_metadata_marker "\<lambda>_. True"
proof
  fix f
  show "Inr (find_markers_fn f) = rconcat (\<lambda>b. Inr (find_markers_bb b)) (f_blocks f)"
    unfolding find_markers_fn_def by (rule rconcat_pure[symmetric]) simp
qed (auto simp: find_markers_bb_def)

definition tagged_marker :: "string \<Rightarrow> ir_inst \<Rightarrow> bool" where
  "tagged_marker name i \<longleftrightarrow> is_metadata_marker i \<and> tagged name i"

lemma find_markers_bb_name_eq: "find_markers_bb_name b name = filter (tagged_marker name) (b_insts b)"
  by (auto simp: find_markers_bb_name_def find_markers_bb_def tagged_marker_def tagged_def
      intro!: filter_cong)

interpretation markers_name: block_search
  "\<lambda>b. Inr (find_markers_bb_name b name)" "\<lambda>f. Inr (find_markers_fn_name f name)"
  "tagged_marker name" "\<lambda>_. True" for name :: string
proof
  fix f
  show "Inr (find_markers_fn_name f name) = rconcat (\<lambda>b. Inr (find_markers_bb_name b name)) (f_blocks f)"
    unfolding find_markers_fn_name_def by (rule rconcat_pure[symmetric]) simp
qed (auto simp: find_markers_bb_name_eq)

definition marker_text :: "string \<Rightarrow> (string \<Rightarrow> bool) \<Rightarrow> ir_inst \<Rightarrow> bool" where
  "marker_text name p i \<longleftrightarrow> is_metadata_marker i \<and> tagged_text name p i"

interpretation markers_text: first_search
  "\<lambda>b. find_markers_bb_pred b name p" "\<lambda>f. find_markers_fn_pred f name p"
  "marker_text name p" "holds_text name"
  "\<lambda>b. find_marker_bb_pred b name p" "\<lambda>f. find_marker_fn_pred f name p" for name :: string and p
proof
  fix b "is"
  have tm: "\<And>i. tagged_marker name i \<Longrightarrow> tagged name i" by (simp add: tagged_marker_def)
  have sel: "(\<lambda>i. tagged_marker name i \<and> tagged_text name p i) = marker_text name p"
    by (auto simp: tagged_text_def tagged_marker_def marker_text_def)
  show "find_markers_bb_pred b name p = Inr (filter (marker_text name p) (b_insts b))"
    if "\<forall>i \<in> set (b_insts b). holds_text name i"
    using rfilter_text[OF that, of "tagged_marker name" p] tm
    by (simp add: find_markers_bb_pred_def find_markers_bb_name_eq sel)
  show "is = filter (marker_text name p) (b_insts b)" if "find_markers_bb_pred b name p = Inr is"
    using that rfilter_text_sound[of name p "tagged_marker name" "b_insts b" "is"] tm
    by (simp add: find_markers_bb_pred_def find_markers_bb_name_eq sel)
  show "find_marker_bb_pred b name p = Inr (first_of is)" if "find_markers_bb_pred b name p = Inr is"
    using that unfolding find_marker_bb_pred_def find_markers_bb_pred_def by (rule rfind_rfilter)
qed (simp_all add: find_markers_fn_pred_def find_marker_fn_pred_def)

section \<open>Properties\<close>

lemma map_of_update: "map_of (AList.update k v xs) k' = (if k' = k then Some v else map_of xs k')"
  by (simp add: update_conv fun_upd_apply)

lemma get_md_set_md: "get_md name' (set_md name node i) = (if name' = name then Some node else get_md name' i)"
  by (simp add: get_md_def set_md_def map_of_update)

lemma set_md_frame [simp]: "i_id (set_md name node i) = i_id i" "i_kind (set_md name node i) = i_kind i"
  by (simp_all add: set_md_def)

lemma has_md_other_set_md: "name \<noteq> ''dbg'' \<Longrightarrow> has_md_other (set_md name node i)"
  unfolding has_md_other_def set_md_def
  by (rule bexI[of _ "(name, node)"]) (auto intro!: map_of_SomeD simp: map_of_update)

lemma tagged_value_iff:
  "tagged_text name (\<lambda>s. s = v) = (\<lambda>i. has_md_other i \<and> get_metadata i name = Inr (Some v))"
  unfolding tagged_text_def[abs_def] tagged_def text_of_def get_metadata_def
  by (auto simp: fun_eq_iff split: option.splits list.splits metadata.splits ir_value.splits
      elim!: node_text.elims)

lemma marker_value_iff:
  "marker_text name (\<lambda>s. s = v) = (\<lambda>i. is_metadata_marker i \<and> get_metadata i name = Inr (Some v))"
  unfolding marker_text_def[abs_def] tagged_value_iff
  by (auto simp: is_metadata_marker_def fun_eq_iff)

lemma zext_cint_get_64: "zext_value (cint_get 64 w) = w"
proof -
  have "unat w < 2 ^ 64" using unsigned_less[of w] by simp
  then show ?thesis by (simp add: zext_value_def cint_get_def)
qed

lemma get_metadata_attach:
  "get_metadata (fst (attach_metadata i name v)) name' =
     (if name' = name then Inr (Some v) else get_metadata i name')"
  by (simp add: get_metadata_def attach_metadata_def get_md_set_md Let_def)

lemma get_uint64_metadata_attach:
  "get_uint64_metadata (fst (attach_metadata_u64 i name w)) name' =
     (if name' = name then Inr (Some w) else get_uint64_metadata i name')"
  by (simp add: get_uint64_metadata_def attach_metadata_u64_def get_md_set_md zext_cint_get_64 Let_def)

text \<open>
  C39: What is attached to an instruction under a name is what is read back under that name, for
  strings and for 64-bit integers, and nothing attached under another name changes.
\<close>

theorem metadata_roundtrip:
  "get_metadata (fst (attach_metadata i name v)) name' =
     (if name' = name then Inr (Some v) else get_metadata i name') \<and>
   get_uint64_metadata (fst (attach_metadata_u64 i name w)) name' =
     (if name' = name then Inr (Some w) else get_uint64_metadata i name')"
  by (simp add: get_metadata_attach get_uint64_metadata_attach)

text \<open>
  C37: The search of a function for instructions whose metadata \<open>name\<close> has the text \<open>v\<close> returns exactly
  these instructions, in program order, where every node of that name holds a text.
\<close>

theorem find_metadata_fn_value_correct:
  assumes "\<forall>i \<in> set (func_insts f). holds_text name i"
  shows "find_metadata_fn_value f name v =
     Inr (filter (\<lambda>i. has_md_other i \<and> get_metadata i name = Inr (Some v)) (func_insts f))"
  using by_value.fn_total[OF assms, of v] by (simp add: tagged_value_iff)


text \<open>The instruction that \<open>create_metadata\<close> puts before another one.\<close>

definition new_marker :: "ir_func \<Rightarrow> nat \<Rightarrow> string \<Rightarrow> string \<Rightarrow> ir_inst" where
  "new_marker f p name v =
     fst (attach_metadata
       ((mk_inst (f_next f) donothing_call VoidTy '''')\<lparr>i_md := debug_loc_of f p\<rparr>) name v)"

lemma new_marker_simps [simp]:
  "i_id (new_marker f p name v) = f_next f" "i_kind (new_marker f p name v) = donothing_call"
  by (simp_all add: new_marker_def attach_metadata_def Let_def mk_inst_def)

lemma called_donothing: "called_function donothing_call = Some (Intrinsic ''llvm.donothing'')"
  by (simp add: called_function_def donothing_call_def)

lemma new_marker_is_marker:
  assumes "name \<noteq> ''dbg''"
  shows "is_metadata_marker (new_marker f p name v)"
    and "get_metadata (new_marker f p name v) name = Inr (Some v)"
proof -
  show "is_metadata_marker (new_marker f p name v)"
    using assms called_donothing
    by (simp add: is_metadata_marker_def new_marker_def attach_metadata_def Let_def
        has_md_other_set_md mk_inst_def donothing_call_def)
  show "get_metadata (new_marker f p name v) name = Inr (Some v)"
    by (simp add: new_marker_def get_metadata_attach)
qed

lemma create_metadata_before_insts:
  assumes wf: "wf_func f" and ip: "find_inst f p = Some ip"
    and new: "create_metadata_before f p name v = (f', x)"
  shows "x = f_next f \<and> wf_func f' \<and>
    (\<exists>pre post. func_insts f = pre @ ip # post \<and>
       func_insts f' = pre @ new_marker f p name v # ip # post)"
proof -
  let ?n = "(mk_inst (f_next f) donothing_call VoidTy '''')\<lparr>i_md := debug_loc_of f p\<rparr>"
  let ?g = "\<lambda>i. fst (attach_metadata i name v)"
  let ?f1 = "insert_before p ?n f\<lparr>f_next := Suc (f_next f)\<rparr>"
  have f': "f' = upd_inst (f_next f) ?g ?f1" and x: "x = f_next f"
    using new by (auto simp: create_metadata_before_def create_metadata_marker_before_def Let_def)
  from ip obtain pre post where split: "func_insts f = pre @ ip # post" "p \<notin> i_id ` set pre" "i_id ip = p"
    unfolding find_inst_def by (blast dest: split_at_id)
  have next_id: "f_next f \<notin> i_id ` set (pre @ ip # post)"
    using wf_func_next_notin[OF wf] by (simp add: split)
  have "func_insts ?f1 = pre @ ?n # ip # post"
    using wf_func_distinct[OF wf] split
    by (simp add: func_insts_insert_before ins_before_append)
  then have "func_insts f' = pre @ ?g ?n # ip # post"
    using next_id by (simp add: f' func_insts_upd_inst upd_at_notin mk_inst_def image_Un)
  moreover have "wf_func f'"
    unfolding f' by (intro wf_func_upd_inst wf_func_insert_fresh wf)
      (simp_all add: attach_metadata_def Let_def mk_inst_def)
  ultimately show ?thesis using x split(1) by (auto simp: new_marker_def)
qed

lemma create_metadata_before_other:
  "name' \<noteq> name \<Longrightarrow> name' \<noteq> ''dbg'' \<Longrightarrow> get_metadata (new_marker f p name v) name' = Inr None"
proof -
  assume "name' \<noteq> name" "name' \<noteq> ''dbg''"
  moreover have "map_of (debug_loc_of f p) name' = None"
    using \<open>name' \<noteq> ''dbg''\<close> by (auto simp: debug_loc_of_def map_of_eq_None_iff split: option.splits)
  ultimately show ?thesis
    by (simp add: new_marker_def get_metadata_attach) (simp add: get_metadata_def get_md_def)
qed


section \<open>Witnesses\<close>

text \<open>One block: a tagged marker, an untagged instruction, a return.\<close>

definition sample_marked :: ir_func where
  "sample_marked = mk_func 0 ''f'' (FuncTy VoidTy [] False) True
     [mk_block 1
       [fst (attach_metadata (mk_inst 2 donothing_call VoidTy '''') ''fuse.function.start'' ''g''),
        mk_inst 3 (OtherInst ''add'' [ArgVal 0, ArgVal 1]) (IntTy 32) '''',
        mk_inst 4 (Ret None) VoidTy '''']] 5"

theorem find_metadata_fn_value_correct_witness:
  "find_metadata_fn_value sample_marked ''fuse.function.start'' ''g'' =
     Inr [fst (attach_metadata (mk_inst 2 donothing_call VoidTy '''') ''fuse.function.start'' ''g'')]"
proof -
  have h: "\<forall>i \<in> set (func_insts sample_marked). holds_text ''fuse.function.start'' i"
    by code_simp
  have "filter (\<lambda>i. has_md_other i \<and> get_metadata i ''fuse.function.start'' = Inr (Some ''g''))
      (func_insts sample_marked) =
    [fst (attach_metadata (mk_inst 2 donothing_call VoidTy '''') ''fuse.function.start'' ''g'')]"
    by code_simp
  with find_metadata_fn_value_correct[OF h, of "''g''"] show ?thesis by simp
qed



end
