(* ===== verification/Value_Type_Util.thy ===== *)
theory Value_Type_Util
  imports IR
begin

text \<open>
  \<open>lib/support/value-util.cpp\<close> (integer and string constants read from a value, string constants
  created) and \<open>include/support/type-util.h\<close> (IR types built from C++ type descriptors).
\<close>

section \<open>Integer constants\<close>

text \<open>The argument may be a null pointer (\<open>dyn_cast_or_null\<close>).\<close>

fun get_int_constant :: "ir_value option \<Rightarrow> 64 word option" where
  "get_int_constant (Some (ConstInt c)) = Some (zext_value c)"
| "get_int_constant _ = None"

section \<open>String constants\<close>

text \<open>
  \<open>ConstantDataArray\<close>: an array whose elements are all zero is a \<open>ConstantAggregateZero\<close> instead;
  \<open>isString\<close> holds for arrays of bytes, \<open>isCString\<close> for those whose only zero is the last element.
\<close>

definition const_data_get :: "nat \<Rightarrow> nat list \<Rightarrow> ir_value" where
  "const_data_get w es =
     (if \<forall>e \<in> set es. e = 0 then OtherConst ''zeroinitializer'' (ArrayTy (length es) (IntTy w))
      else ConstData w es)"

definition is_string :: "nat \<times> nat list \<Rightarrow> bool" where
  "is_string d \<longleftrightarrow> fst d = 8"

definition is_cstring :: "nat \<times> nat list \<Rightarrow> bool" where
  "is_cstring d \<longleftrightarrow> is_string d \<and> snd d \<noteq> [] \<and> last (snd d) = 0 \<and> 0 \<notin> set (butlast (snd d))"

definition get_as_string :: "nat \<times> nat list \<Rightarrow> string" where
  "get_as_string d = map char_of (snd d)"

definition get_as_cstring :: "nat \<times> nat list \<Rightarrow> string" where
  "get_as_cstring d = butlast (get_as_string d)"

fun as_const_data :: "ir_value \<Rightarrow> (nat \<times> nat list) option" where
  "as_const_data (ConstData w es) = Some (w, es)"
| "as_const_data _ = None"

definition create_string_constant :: "string \<Rightarrow> ir_value" where
  "create_string_constant s = const_data_get 8 (map of_char s @ [0])"

text \<open>The initializer of a constant global that is certain to be its value, as string data.\<close>

definition global_string_data :: "ir_module \<Rightarrow> ir_value \<Rightarrow> (nat \<times> nat list) option res" where
  "global_string_data m v =
     (case v of
        GlobalVar g ty \<Rightarrow>
          (case find_global m g of
             None \<Rightarrow> Inl NullDeref
           | Some gv \<Rightarrow>
               if g_const gv \<and> g_unique_init gv
               then (case g_init gv of None \<Rightarrow> Inl NullDeref | Some c \<Rightarrow> Inr (as_const_data c))
               else Inr None)
      | _ \<Rightarrow> Inr None)"

definition get_string_constant :: "ir_module \<Rightarrow> ir_value option \<Rightarrow> string option res" where
  "get_string_constant m vp =
     (case vp of
        None \<Rightarrow> Inl NullDeref
      | Some v \<Rightarrow>
          rbind (global_string_data m v) (\<lambda>d.
            let stringConst = (case d of None \<Rightarrow> as_const_data v | Some d \<Rightarrow> Some d)
            in Inr (case stringConst of
                 None \<Rightarrow> None
               | Some d \<Rightarrow>
                   if is_cstring d then Some (get_as_cstring d)
                   else if is_string d then Some (get_as_string d)
                   else None)))"

lemma char_of_of_char_map: "map char_of (map of_char s :: nat list) = (s :: string)"
  by (induction s) auto

lemma char_of_zero: "char_of (0::nat) = CHR 0x00"
  by (simp add: char_of_def)

lemma of_char_zero: "(of_char c :: nat) = 0 \<longleftrightarrow> c = CHR 0x00"
proof -
  have "(of_char (CHR 0x00) :: nat) = 0" by simp
  then show ?thesis using of_char_eq_iff[of c "CHR 0x00", where 'a = nat] by metis
qed

lemma create_string_data:
  "as_const_data (create_string_constant s) =
     (if \<forall>c \<in> set s. c = CHR 0x00 then None else Some (8, map of_char s @ [0]))"
  by (auto simp: create_string_constant_def const_data_get_def of_char_zero)

definition string_read_back :: "string \<Rightarrow> string option" where
  "string_read_back s =
     (if \<forall>c \<in> set s. c = CHR 0x00 then None
      else if CHR 0x00 \<in> set s then Some (s @ [CHR 0x00])
      else Some s)"

lemma read_created_data:
  assumes "\<not> (\<forall>c \<in> set s. c = CHR 0x00)"
  defines "d \<equiv> (8, map of_char s @ [0]) :: nat \<times> nat list"
  shows "(if is_cstring d then Some (get_as_cstring d)
          else if is_string d then Some (get_as_string d) else None) = string_read_back s"
proof -
  have "is_cstring d \<longleftrightarrow> CHR 0x00 \<notin> set s"
    by (auto simp: d_def is_cstring_def is_string_def of_char_zero image_iff)
  moreover have "get_as_string d = s @ [CHR 0x00]"
    by (simp add: d_def get_as_string_def char_of_of_char_map char_of_zero del: map_map)
  moreover have "is_string d" by (simp add: is_string_def d_def)
  moreover have "string_read_back s = (if CHR 0x00 \<in> set s then Some (s @ [CHR 0x00]) else Some s)"
    by (simp only: string_read_back_def assms(1) if_False)
  ultimately show ?thesis by (simp add: get_as_cstring_def)
qed

lemma read_created_string:
  "rbind (Inr (as_const_data (create_string_constant s))) (\<lambda>d. Inr (case d of
       None \<Rightarrow> None
     | Some d \<Rightarrow>
         if is_cstring d then Some (get_as_cstring d)
         else if is_string d then Some (get_as_string d) else None)) = Inr (string_read_back s)"
proof (cases "\<forall>c \<in> set s. c = CHR 0x00")
  case True
  then have "string_read_back s = None" by (simp add: string_read_back_def)
  with True show ?thesis by (simp add: create_string_data)
next
  case False
  then have "as_const_data (create_string_constant s) = Some (8, map of_char s @ [0])"
    by (simp only: create_string_data if_False)
  then show ?thesis by (simp only: rbind.simps option.case read_created_data[OF False])
qed

lemma get_created_string:
  "get_string_constant m (Some (create_string_constant s)) = Inr (string_read_back s)"
proof -
  have "global_string_data m (create_string_constant s) = Inr None"
    by (simp add: global_string_data_def create_string_constant_def const_data_get_def)
  then show ?thesis using read_created_string[of s] by (simp add: get_string_constant_def)
qed

lemma get_global_string:
  assumes "find_global m g = Some gv" "g_const gv" "g_unique_init gv"
    and "g_init gv = Some (create_string_constant s)"
  shows "get_string_constant m (Some (GlobalVar g ty)) = Inr (string_read_back s)"
proof -
  have "global_string_data m (GlobalVar g ty) = Inr (as_const_data (create_string_constant s))"
    using assms by (simp add: global_string_data_def)
  then show ?thesis using read_created_string[of s]
    by (cases "as_const_data (create_string_constant s)") (simp_all add: get_string_constant_def)
qed

text \<open>
  C40: A string constant that is created and read back, directly or through a constant global
  initialised with it, gives the string, except that a string with an embedded zero byte comes back
  with its terminator and a string of zero bytes only (the empty one too) is not recognised.
\<close>

theorem string_constant_roundtrip:
  "get_string_constant m (Some (create_string_constant s)) = Inr (string_read_back s) \<and>
   (find_global m g = Some gv \<longrightarrow> g_const gv \<longrightarrow> g_unique_init gv \<longrightarrow>
     g_init gv = Some (create_string_constant s) \<longrightarrow>
     get_string_constant m (Some (GlobalVar g ty)) = Inr (string_read_back s))"
  using get_created_string get_global_string by simp

theorem string_constant_roundtrip_witness:
  "get_string_constant
     \<lparr>m_funcs = [],
      m_globals = [\<lparr>g_id = 7, g_name = ''s'', g_type = ArrayTy 3 (IntTy 8), g_const = True,
        g_linkage = ''linkonce_odr'', g_unique_init = True, g_init = Some (create_string_constant ''hi'')\<rparr>],
      m_named_md = [], m_arch_bits = 64, m_intptr_bits = 64, m_next = 8\<rparr>
     (Some (GlobalVar 7 (PtrTy (IntTy 8)))) = Inr (Some ''hi'')"
  (is "get_string_constant ?m _ = _")
proof -
  have "find_global ?m 7 = Some (hd (m_globals ?m))" by (simp add: find_global_def)
  moreover have "g_const (hd (m_globals ?m))" "g_unique_init (hd (m_globals ?m))"
    "g_init (hd (m_globals ?m)) = Some (create_string_constant ''hi'')" by simp_all
  ultimately have "get_string_constant ?m (Some (GlobalVar 7 (PtrTy (IntTy 8)))) = Inr (string_read_back ''hi'')"
    using string_constant_roundtrip[of ?m "''hi''" 7 "hd (m_globals ?m)"] by blast
  then show ?thesis by (simp add: string_read_back_def)
qed

section \<open>Types from descriptors\<close>

text \<open>
  The C++ types that \<open>TypeCreator\<close> is specialised for: \<open>Int<N>\<close>, \<open>Size\<close>, \<open>void*\<close>, \<open>T*\<close> and
  \<open>R(A, As...)\<close>.
\<close>

datatype type_desc =
    DInt nat
  | DSize
  | DVoidPtr
  | DPtr type_desc
  | DFunc type_desc type_desc "type_desc list"

text \<open>
  The argument list of a function type is the braced initializer
  \<open>{(TypeCreator<ArgsT>{}(m), ...)}\<close>: one element, a fold of the comma operator, whose value is the
  type of the last argument.
\<close>

fun create_type :: "ir_module \<Rightarrow> type_desc \<Rightarrow> ir_type" where
  "create_type m (DInt n) = IntTy n"
| "create_type m DSize =
     (if m_arch_bits m = 64 then IntTy 64
      else if m_arch_bits m = 16 then IntTy 16
      else IntTy 32)"
| "create_type m DVoidPtr = PtrTy (IntTy 8)"
| "create_type m (DPtr d) = PtrTy (create_type m d)"
| "create_type m (DFunc r a as) =
     FuncTy (create_type m r) [foldl (\<lambda>_ d. create_type m d) (create_type m a) as] False"

text \<open>\<open>create_type(m, bitCount)\<close>, and \<open>TypeCreator<IntN>\<close>.\<close>

definition create_int_type :: "ir_module \<Rightarrow> nat \<Rightarrow> ir_type" where
  "create_int_type m bitCount = IntTy bitCount"

lemma comma_fold: "foldl (\<lambda>_ d. h d) x as = (if as = [] then x else h (last as))"
  by (induction as arbitrary: x) auto

lemma create_func_type [simp]:
  "create_type m (DFunc r a as) = FuncTy (create_type m r) [create_type m (last (a # as))] False"
  by (simp add: comma_fold)

declare create_type.simps(2, 5) [simp del]

text \<open>The type that the descriptor of a function names.\<close>

definition described_func_type :: "ir_module \<Rightarrow> type_desc \<Rightarrow> type_desc list \<Rightarrow> ir_type" where
  "described_func_type m r as = FuncTy (create_type m r) (map (create_type m) as) False"

text \<open>
  C33: The function type built from a descriptor is the one the descriptor names exactly for
  functions of one parameter; any other is built with its last parameter only.
\<close>

theorem create_type_func_iff:
  "create_type m (DFunc r a as) = described_func_type m r (a # as) \<longleftrightarrow> as = []"
  by (auto simp: described_func_type_def)

end
