(* ===== verification/Breakpoint_Net.thy ===== *)
theory Breakpoint_Net
  imports IR
begin

text \<open>
  \<open>lib/passes/breakpoint-net/breakpoint-net.cpp\<close>: a function pass that puts a call of
  \<open>llvm.debugtrap\<close> before every instruction of every block, after the allocas of the entry block
  and the leading phi nodes and exception pads.
\<close>

section \<open>The pass\<close>

definition debugtrap_call :: "ir_value ikind" where
  "debugtrap_call = Call (FuncTy VoidTy [] False) []
     (FuncVal (Intrinsic ''llvm.debugtrap'') (FuncTy VoidTy [] False))"

fun is_phi_or_pad :: "'v ikind \<Rightarrow> bool" where
  "is_phi_or_pad (PHI ins) = True"
| "is_phi_or_pad LandingPad = True"
| "is_phi_or_pad CatchPad = True"
| "is_phi_or_pad (CatchSwitch bs) = True"
| "is_phi_or_pad CleanupPad = True"
| "is_phi_or_pad _ = False"

text \<open>
  The loop over the rest of a block. \<open>getNextNode\<close> of the instruction that was there before is the
  instruction that was next before. The number is the next unused address.
\<close>

fun trap_each :: "nat \<Rightarrow> ir_inst list \<Rightarrow> ir_inst list" where
  "trap_each n [] = []"
| "trap_each n (i # is) = mk_inst n debugtrap_call VoidTy '''' # i # trap_each (Suc n) is"

definition after_allocas :: "nat \<Rightarrow> ir_block \<Rightarrow> ir_inst list" where
  "after_allocas entry b =
     (if b_id b = entry then dropWhile (\<lambda>i. is_alloca (i_kind i)) (b_insts b) else b_insts b)"

definition trap_rest :: "nat \<Rightarrow> ir_block \<Rightarrow> ir_inst list" where
  "trap_rest entry b = dropWhile (\<lambda>i. is_phi_or_pad (i_kind i)) (after_allocas entry b)"

definition trap_block :: "nat \<Rightarrow> nat \<Rightarrow> ir_block \<Rightarrow> ir_block" where
  "trap_block entry n b =
     b\<lparr>b_insts := take (length (b_insts b) - length (trap_rest entry b)) (b_insts b)
                   @ trap_each n (trap_rest entry b)\<rparr>"

text \<open>
  The loop over the blocks: the blocks, the next address, whether anything was inserted, and whether
  the pass returned from inside the loop. The instruction behind \<open>block.begin()\<close> is read first,
  which an empty block does not have.
\<close>

fun trap_blocks :: "nat \<Rightarrow> nat \<Rightarrow> bool \<Rightarrow> ir_block list \<Rightarrow> (ir_block list \<times> nat \<times> bool \<times> bool) res" where
  "trap_blocks entry n modified [] = Inr ([], n, modified, False)"
| "trap_blocks entry n modified (b # bs) =
     (if b_insts b = [] then Inl NullDeref
      else if after_allocas entry b = [] then Inr (b # bs, n, modified, True)
      else if trap_rest entry b = [] then Inr (b # bs, n, modified, True)
      else rmap (\<lambda>(bs', r). (trap_block entry n b # bs', r))
             (trap_blocks entry (n + length (trap_rest entry b)) True bs))"

definition breakpoint_net :: "ir_func \<Rightarrow> (ir_func \<times> preserved_analyses) res" where
  "breakpoint_net f =
     (if f_optnone f then Inr (f, PA_all)
      else case f_blocks f of
        [] \<Rightarrow> Inr (f, PA_all)
      | b # bs \<Rightarrow>
          rmap (\<lambda>(bs', n, modified, early).
              (f\<lparr>f_blocks := bs', f_next := n\<rparr>, if early \<or> \<not> modified then PA_all else PA_cfg))
            (trap_blocks (b_id b) (f_next f) False (b # bs)))"

section \<open>Facts about the loops\<close>

definition trappable :: "nat \<Rightarrow> ir_block \<Rightarrow> bool" where
  "trappable entry b \<longleftrightarrow> trap_rest entry b \<noteq> []"

lemma trappable_guards:
  "trappable entry b \<Longrightarrow> b_insts b \<noteq> [] \<and> after_allocas entry b \<noteq> [] \<and> trap_rest entry b \<noteq> []"
proof -
  assume "trappable entry b"
  have "after_allocas entry b = [] \<Longrightarrow> trap_rest entry b = []" by (simp add: trap_rest_def)
  moreover have "b_insts b = [] \<Longrightarrow> after_allocas entry b = []" by (simp add: after_allocas_def)
  ultimately show ?thesis using \<open>trappable entry b\<close> by (auto simp: trappable_def)
qed

lemma trap_rest_suffix: "\<exists>pre. b_insts b = pre @ trap_rest entry b"
proof -
  have "\<exists>pre. b_insts b = pre @ after_allocas entry b"
    by (metis after_allocas_def append_Nil takeWhile_dropWhile_id)
  moreover have "\<exists>mid. after_allocas entry b = mid @ trap_rest entry b"
    by (metis trap_rest_def takeWhile_dropWhile_id)
  ultimately show ?thesis by (metis append.assoc)
qed

lemma trap_block_insts:
  assumes "b_insts b = pre @ trap_rest entry b"
  shows "b_insts (trap_block entry n b) = pre @ trap_each n (trap_rest entry b)"
proof -
  have "length (b_insts b) = length pre + length (trap_rest entry b)"
    by (subst assms) simp
  then have "take (length (b_insts b) - length (trap_rest entry b)) (b_insts b) = pre"
    by (subst (2) assms) simp
  then show ?thesis by (simp add: trap_block_def)
qed

lemma trap_each_old:
  "\<forall>i \<in> set is. i_id i < N \<Longrightarrow> N \<le> n \<Longrightarrow> filter (\<lambda>i. i_id i < N) (trap_each n is) = is"
  by (induction n "is" rule: trap_each.induct) (auto simp: mk_inst_def)

lemma trap_each_succs:
  "concat (map (\<lambda>i. successors (i_kind i)) (trap_each n is)) = concat (map (\<lambda>i. successors (i_kind i)) is)"
  by (induction n "is" rule: trap_each.induct) (simp_all add: mk_inst_def debugtrap_call_def)

lemma trap_each_nth:
  "k < length is \<Longrightarrow> trap_each n is ! (2 * k) = mk_inst (n + k) debugtrap_call VoidTy ''''
     \<and> trap_each n is ! Suc (2 * k) = is ! k"
proof (induction n "is" arbitrary: k rule: trap_each.induct)
  case (2 n i "is")
  show ?case
  proof (cases k)
    case (Suc j)
    with 2(1)[of j] 2(2) show ?thesis by simp
  qed simp
qed simp

lemma trap_each_length: "length (trap_each n is) = 2 * length is"
  by (induction n "is" rule: trap_each.induct) auto

lemma trap_block_old:
  assumes "\<forall>i \<in> set (b_insts b). i_id i < N" "N \<le> n"
  shows "filter (\<lambda>i. i_id i < N) (b_insts (trap_block entry n b)) = b_insts b"
proof -
  obtain pre where pre: "b_insts b = pre @ trap_rest entry b" using trap_rest_suffix by blast
  then have "\<forall>i \<in> set pre. i_id i < N" "\<forall>i \<in> set (trap_rest entry b). i_id i < N"
    using assms(1) by (metis Un_iff set_append)+
  then have "filter (\<lambda>i. i_id i < N) (b_insts (trap_block entry n b)) = pre @ trap_rest entry b"
    using assms(2) by (simp add: trap_block_insts[OF pre] trap_each_old)
  with pre show ?thesis by simp
qed

lemma trap_block_frame:
  "b_id (trap_block entry n b) = b_id b" "block_succs (trap_block entry n b) = block_succs b"
proof -
  show "b_id (trap_block entry n b) = b_id b" by (simp add: trap_block_def)
  obtain pre where pre: "b_insts b = pre @ trap_rest entry b" using trap_rest_suffix by blast
  show "block_succs (trap_block entry n b) = block_succs b"
    unfolding block_succs_def trap_block_insts[OF pre]
    by (subst pre) (simp add: trap_each_succs)
qed

lemma trap_blocks_frame:
  assumes "trap_blocks entry n modified bs = Inr (bs', n', m', e)"
  shows "map b_id bs' = map b_id bs \<and> map block_succs bs' = map block_succs bs \<and>
    (\<forall>N \<le> n. (\<forall>b \<in> set bs. \<forall>i \<in> set (b_insts b). i_id i < N) \<longrightarrow>
       map (\<lambda>b. filter (\<lambda>i. i_id i < N) (b_insts b)) bs' = map b_insts bs)"
  using assms
proof (induction entry n modified bs arbitrary: bs' rule: trap_blocks.induct)
  case (2 entry n modified b bs)
  show ?case
  proof (cases "trappable entry b")
    case True
    note g = trappable_guards[OF True]
    obtain cs where cs: "bs' = trap_block entry n b # cs"
      "trap_blocks entry (n + length (trap_rest entry b)) True bs = Inr (cs, n', m', e)"
      using 2(2) g by auto
    have IH: "map b_id cs = map b_id bs \<and> map block_succs cs = map block_succs bs \<and>
      (\<forall>N \<le> n + length (trap_rest entry b). (\<forall>b \<in> set bs. \<forall>i \<in> set (b_insts b). i_id i < N) \<longrightarrow>
         map (\<lambda>b. filter (\<lambda>i. i_id i < N) (b_insts b)) cs = map b_insts bs)"
      using 2(1)[OF _ _ _ cs(2)] g by auto
    show ?thesis
      using IH by (auto simp: cs(1) trap_block_frame trap_block_old)
  next
    case False
    then have "bs' = b # bs"
      using 2(2) by (auto simp: trappable_def split: if_splits)
    then show ?thesis by (auto simp: filter_id_conv)
  qed
qed simp

lemma trap_blocks_append:
  "\<forall>b \<in> set as. trappable entry b \<Longrightarrow>
   \<exists>as' n'. trap_blocks entry n modified (as @ bs) =
     rmap (\<lambda>(bs', r). (as' @ bs', r)) (trap_blocks entry n' (modified \<or> as \<noteq> []) bs)
   \<and> list_all2 (\<lambda>b b'. \<exists>k. b' = trap_block entry k b) as as'"
proof (induction as arbitrary: n modified)
  case Nil
  then show ?case by (intro exI[of _ "[]"] exI[of _ n]) (auto simp: rmap_def)
next
  case (Cons a as)
  then have t: "trappable entry a" by simp
  obtain as' n' where IH:
    "trap_blocks entry (n + length (trap_rest entry a)) True (as @ bs) =
       rmap (\<lambda>(bs', r). (as' @ bs', r)) (trap_blocks entry n' True bs)"
    "list_all2 (\<lambda>b b'. \<exists>k. b' = trap_block entry k b) as as'"
    using Cons.IH[of "n + length (trap_rest entry a)" True] Cons.prems by auto
  show ?case
    using IH trappable_guards[OF t]
    by (intro exI[of _ "trap_block entry n a # as'"] exI[of _ n'])
      (cases "trap_blocks entry n' True bs"; auto)
qed

section \<open>Properties\<close>


text \<open>
  C11: Where every block has an instruction to trap (which is not an alloca of the entry block, a
  leading phi node or an exception pad), the pass instruments every block: the leading instructions
  stay, and each of the others is preceded by its own call of \<open>llvm.debugtrap\<close>.
\<close>

theorem breakpoint_net_instruments_all:
  assumes "\<not> f_optnone f" and "f_blocks f \<noteq> []"
    and "\<forall>b \<in> set (f_blocks f). trappable (b_id (hd (f_blocks f))) b"
  shows "\<exists>f'. breakpoint_net f = Inr (f', PA_cfg) \<and>
    list_all2 (\<lambda>b b'. \<exists>pre ts. b_insts b = pre @ trap_rest (b_id (hd (f_blocks f))) b \<and>
        b_insts b' = pre @ ts \<and> length ts = 2 * length (trap_rest (b_id (hd (f_blocks f))) b) \<and>
        (\<forall>k < length (trap_rest (b_id (hd (f_blocks f))) b).
           i_kind (ts ! (2 * k)) = debugtrap_call \<and>
           ts ! Suc (2 * k) = trap_rest (b_id (hd (f_blocks f))) b ! k))
      (f_blocks f) (f_blocks f')"
    (is "\<exists>f'. _ \<and> list_all2 ?P _ _")
proof -
  obtain b bs where f: "f_blocks f = b # bs" using assms(2) by (cases "f_blocks f") auto
  let ?e = "b_id b"
  obtain as' n' where run:
    "trap_blocks ?e (f_next f) False (f_blocks f @ []) =
       rmap (\<lambda>(bs', r). (as' @ bs', r)) (trap_blocks ?e n' True [])"
    and all: "list_all2 (\<lambda>b b'. \<exists>k. b' = trap_block ?e k b) (f_blocks f) as'"
    using trap_blocks_append[of "f_blocks f" ?e "f_next f" False "[]"] assms(2,3) f by auto
  have "breakpoint_net f = Inr (f\<lparr>f_blocks := as', f_next := n'\<rparr>, PA_cfg)"
    using run assms(1) by (simp add: breakpoint_net_def f)
  moreover have "list_all2 ?P (f_blocks f) as'"
  proof (rule list_all2_mono[OF all])
    fix c c' assume "\<exists>k. c' = trap_block ?e k c"
    then obtain k where c': "c' = trap_block ?e k c" by blast
    obtain pre where pre: "b_insts c = pre @ trap_rest ?e c" using trap_rest_suffix by blast
    show "?P c c'"
      using pre
      by (intro exI[of _ pre] exI[of _ "trap_each k (trap_rest ?e c)"])
        (simp add: f c' trap_block_insts[OF pre] trap_each_length trap_each_nth mk_inst_def)
  qed
  ultimately show ?thesis by (intro exI[of _ "f\<lparr>f_blocks := as', f_next := n'\<rparr>"]) simp
qed

text \<open>
  C31: A block that consists of phi nodes and exception pads only (that of a \<open>catchswitch\<close>) ends the
  pass: it and every block after it stay as they were, and the pass reports that every analysis is
  preserved, although it has changed the blocks before.
\<close>

theorem breakpoint_net_stops_at_pad_block:
  assumes "\<not> f_optnone f" and "f_blocks f = as @ b # bs" and "as \<noteq> []"
    and "\<forall>a \<in> set as. trappable (b_id (hd as)) a"
    and "b_insts b \<noteq> []" and "\<not> trappable (b_id (hd as)) b"
  shows "\<exists>as' f'. breakpoint_net f = Inr (f', PA_all) \<and> f_blocks f' = as' @ b # bs \<and>
    list_all2 (\<lambda>a a'. length (b_insts a) < length (b_insts a')) as as'"
proof -
  let ?e = "b_id (hd as)"
  obtain as' n' where run:
    "trap_blocks ?e (f_next f) False (as @ b # bs) =
       rmap (\<lambda>(bs', r). (as' @ bs', r)) (trap_blocks ?e n' True (b # bs))"
    and all: "list_all2 (\<lambda>b b'. \<exists>k. b' = trap_block ?e k b) as as'"
    using trap_blocks_append[of as ?e "f_next f" False "b # bs"] assms(3,4) by auto
  have stop: "trap_blocks ?e n' True (b # bs) = Inr (b # bs, n', True, True)"
    using assms(5,6) by (simp add: trappable_def)
  have "breakpoint_net f = Inr (f\<lparr>f_blocks := as' @ b # bs, f_next := n'\<rparr>, PA_all)"
    using run stop assms(1,2,3) by (cases as) (auto simp: breakpoint_net_def)
  moreover have "list_all2 (\<lambda>a a'. length (b_insts a) < length (b_insts a')) as as'"
  proof (rule list_all2_mono_set[OF all])
    fix a a' assume "a \<in> set as" "\<exists>k. a' = trap_block ?e k a"
    then obtain k where a': "a' = trap_block ?e k a" and "trap_rest ?e a \<noteq> []"
      using assms(4) by (auto simp: trappable_def)
    moreover obtain pre where pre: "b_insts a = pre @ trap_rest ?e a" using trap_rest_suffix by blast
    moreover have "length (b_insts a) = length pre + length (trap_rest ?e a)"
      by (subst pre) simp
    ultimately show "length (b_insts a) < length (b_insts a')"
      by (simp add: a' trap_block_insts[OF pre] trap_each_length)
  qed
  ultimately show ?thesis by (intro exI[of _ as']) auto
qed

section \<open>Witnesses\<close>

text \<open>An entry block with an alloca, a \<open>catchswitch\<close> block, and a block that returns.\<close>

definition sample_entry :: ir_block where
  "sample_entry = mk_block 1
     [mk_inst 2 (Alloca (IntTy 32)) (PtrTy (IntTy 32)) ''x'',
      mk_inst 3 (Store (ConstInt (CInt 32 7)) (InstVal 2)) VoidTy '''',
      mk_inst 4 (Br 5) VoidTy '''']"

definition sample_pad :: ir_block where
  "sample_pad = mk_block 5 [mk_inst 6 (CatchSwitch [7]) TokenTy '''']"

definition sample_exit :: ir_block where
  "sample_exit = mk_block 7 [mk_inst 8 (Ret None) VoidTy '''']"

definition sample_plain :: ir_func where
  "sample_plain = mk_func 0 ''f'' (FuncTy VoidTy [] False) True [sample_entry, sample_exit] 9"

definition sample_eh :: ir_func where
  "sample_eh = mk_func 0 ''f'' (FuncTy VoidTy [] False) True [sample_entry, sample_pad, sample_exit] 9"


theorem breakpoint_net_instruments_all_witness:
  "\<exists>f'. breakpoint_net sample_plain = Inr (f', PA_cfg) \<and> length (f_blocks f') = 2"
proof -
  have "\<not> f_optnone sample_plain" "f_blocks sample_plain \<noteq> []" by code_simp+
  moreover have "\<forall>b \<in> set (f_blocks sample_plain). trappable (b_id (hd (f_blocks sample_plain))) b"
    by code_simp
  ultimately obtain f' where "breakpoint_net sample_plain = Inr (f', PA_cfg)"
    "length (f_blocks f') = length (f_blocks sample_plain)"
    using breakpoint_net_instruments_all[of sample_plain] by (auto dest: list_all2_lengthD)
  then show ?thesis by (auto simp: sample_plain_def mk_func_def)
qed

theorem breakpoint_net_stops_at_pad_block_witness:
  "\<exists>a' f'. breakpoint_net sample_eh = Inr (f', PA_all) \<and>
     f_blocks f' = [a', sample_pad, sample_exit] \<and> length (b_insts sample_entry) < length (b_insts a')"
proof -
  have "\<not> f_optnone sample_eh" "f_blocks sample_eh = [sample_entry] @ sample_pad # [sample_exit]"
    by (simp_all add: sample_eh_def mk_func_def)
  moreover have "\<forall>a \<in> set [sample_entry]. trappable (b_id (hd [sample_entry])) a" by code_simp
  moreover have "b_insts sample_pad \<noteq> []" "\<not> trappable (b_id (hd [sample_entry])) sample_pad"
    by code_simp+
  ultimately obtain as' f' where "breakpoint_net sample_eh = Inr (f', PA_all)"
    "f_blocks f' = as' @ sample_pad # [sample_exit]"
    "list_all2 (\<lambda>a a'. length (b_insts a) < length (b_insts a')) [sample_entry] as'"
    using breakpoint_net_stops_at_pad_block[of sample_eh "[sample_entry]" sample_pad "[sample_exit]"]
    by blast
  then show ?thesis by (auto simp: list_all2_Cons1)
qed

end
