(* ===== verification/Resize_Malloc.thy ===== *)
theory Resize_Malloc
  imports Value_Type_Util
begin

text \<open>
  \<open>lib/passes/resize-malloc/resize-malloc.cpp\<close>: a function pass that recognises calls of memory
  allocation functions and enlarges a constant size argument to a multiple of 8 KB.
\<close>

section \<open>Recognising an allocation\<close>

datatype mem_alloc_id =
    MemNone
  | Malloc
  | Calloc
  | Mmap
  | WindowsVirtualAlloc
  | WindowsVirtualAllocEx
  | WindowsVirtualAllocExNuma
  | WindowsHeapAlloc
  | WindowsCoTaskMemAlloc
  | WindowsGlobalAlloc
  | WindowsLocalAlloc
  | SystemVNew
  | ItaniumNew

text \<open>
  Name, linkage and function type of the called function. The type is that of the called operand,
  which \<open>getCalledFunction\<close> has compared with the call's; an intrinsic has external linkage.
\<close>

definition callee_info :: "ir_module \<Rightarrow> ir_value ikind \<Rightarrow> (string \<times> bool \<times> ir_type) option" where
  "callee_info m k =
     (case call_parts k of
        None \<Rightarrow> None
      | Some (t, as, c) \<Rightarrow>
          (case called_function k of
             None \<Rightarrow> None
           | Some (Intrinsic s) \<Rightarrow> Some (s, True, t)
           | Some (Fn g) \<Rightarrow> map_option (\<lambda>f. (f_name f, f_external f, t)) (find_func m g)))"

definition is_mem_alloc :: "ir_module \<Rightarrow> ir_value ikind \<Rightarrow> mem_alloc_id" where
  "is_mem_alloc m k =
     (case callee_info m k of
        None \<Rightarrow> MemNone
      | Some (name, external, calleeType) \<Rightarrow>
          if \<not> external then MemNone
          else if calleeType = create_type m (DFunc DVoidPtr DSize []) \<and> name = ''malloc'' then Malloc
          else if calleeType = create_type m (DFunc DVoidPtr DSize []) \<and> name = ''CoTaskMemAlloc''
            then WindowsCoTaskMemAlloc
          else if calleeType = create_type m (DFunc DVoidPtr DSize []) \<and> name = ''_Znwm'' then SystemVNew
          else if calleeType = create_type m (DFunc DVoidPtr DSize []) \<and> name = ''??2@YAPEAX_K@Z''
            then ItaniumNew
          else if name = ''calloc'' \<and> calleeType = create_type m (DFunc DVoidPtr DSize [DSize]) then Calloc
          else if name = ''mmap'' \<and>
            calleeType = create_type m (DFunc DVoidPtr DVoidPtr [DSize, DInt 32, DInt 32, DInt 32, DSize])
            then Mmap
          else if name = ''VirtualAlloc'' \<and>
            calleeType = create_type m (DFunc DVoidPtr DVoidPtr [DSize, DInt 32, DInt 32])
            then WindowsVirtualAlloc
          else if name = ''VirtualAllocEx'' \<and>
            calleeType = create_type m (DFunc DVoidPtr DVoidPtr [DVoidPtr, DSize, DInt 32, DInt 32])
            then WindowsVirtualAllocEx
          else if name = ''VirtualAllocExNuma'' \<and>
            calleeType = create_type m (DFunc DVoidPtr DVoidPtr [DSize, DInt 32, DInt 32, DInt 32])
            then WindowsVirtualAllocExNuma
          else if name = ''HeapAlloc'' \<and>
            calleeType = create_type m (DFunc DVoidPtr DVoidPtr [DInt 32, DSize])
            then WindowsHeapAlloc
          else if calleeType = create_type m (DFunc DVoidPtr DVoidPtr [DSize]) \<and> name = ''GlobalAlloc''
            then WindowsGlobalAlloc
          else if calleeType = create_type m (DFunc DVoidPtr DVoidPtr [DSize]) \<and> name = ''LocalAlloc''
            then WindowsLocalAlloc
          else MemNone)"

text \<open>The index of the size argument; \<open>~0u\<close> where the call is no allocation.\<close>

fun size_arg_index :: "mem_alloc_id \<Rightarrow> nat" where
  "size_arg_index MemNone = 2 ^ 32 - 1"
| "size_arg_index Malloc = 0"
| "size_arg_index ItaniumNew = 0"
| "size_arg_index SystemVNew = 0"
| "size_arg_index WindowsCoTaskMemAlloc = 0"
| "size_arg_index Calloc = 1"
| "size_arg_index Mmap = 1"
| "size_arg_index WindowsLocalAlloc = 1"
| "size_arg_index WindowsGlobalAlloc = 1"
| "size_arg_index WindowsVirtualAlloc = 1"
| "size_arg_index WindowsVirtualAllocEx = 2"
| "size_arg_index WindowsVirtualAllocExNuma = 2"
| "size_arg_index WindowsHeapAlloc = 2"

definition get_size_arg :: "ir_module \<Rightarrow> ir_inst \<Rightarrow> mem_alloc_id \<times> nat \<times> nat" where
  "get_size_arg m i = (let memCall = is_mem_alloc m (i_kind i) in (memCall, size_arg_index memCall, i_id i))"

section \<open>Resizing a call\<close>

definition round_up_8k :: "64 word \<Rightarrow> 64 word" where
  "round_up_8k memSize = memSize + (0x2000 - memSize mod 0x2000)"

text \<open>The size a call asks for, 0 where it is not a constant; the product of both arguments for calloc.\<close>

definition requested_size :: "mem_alloc_id \<Rightarrow> nat \<Rightarrow> ir_value ikind \<Rightarrow> 64 word res" where
  "requested_size memCall arg k =
     (if memCall = Calloc then
        rbind (get_arg_operand k 0) (\<lambda>v0.
          case get_int_constant (Some v0) of
            None \<Rightarrow> Inr 0
          | Some elemSize \<Rightarrow>
              rbind (get_arg_operand k arg) (\<lambda>v1.
                case get_int_constant (Some v1) of
                  None \<Rightarrow> Inr 0
                | Some elemCount \<Rightarrow> Inr (elemSize * elemCount)))
      else
        rbind (get_arg_operand k arg) (\<lambda>v.
          case get_int_constant (Some v) of None \<Rightarrow> Inr 0 | Some sizeConst \<Rightarrow> Inr sizeConst))"

text \<open>\<open>ConstantInt::get(v->getType(), n)\<close> for an integer-typed operand.\<close>

fun int_const_like :: "ir_value \<Rightarrow> 64 word \<Rightarrow> ir_value res" where
  "int_const_like (ConstInt c) n = Inr (ConstInt (cint_get (cbits c) n))"
| "int_const_like _ n = Inl BadCast"

definition resize_call :: "mem_alloc_id \<Rightarrow> nat \<Rightarrow> ir_value ikind \<Rightarrow> ir_value ikind res" where
  "resize_call memCall arg k =
     rbind (requested_size memCall arg k) (\<lambda>memSize.
       if memSize > 0 then
         rbind (get_arg_operand k arg) (\<lambda>v.
           rbind (int_const_like v (round_up_8k memSize)) (\<lambda>memSizeConst.
             rbind (if memCall = Calloc
                    then rbind (get_arg_operand k 0) (\<lambda>v0.
                           rbind (int_const_like v0 1) (\<lambda>oneConst. set_arg_operand k 0 oneConst))
                    else Inr k) (\<lambda>k'.
               set_arg_operand k' arg memSizeConst)))
       else Inr k)"

section \<open>The pass\<close>

definition mem_alloc_calls :: "ir_module \<Rightarrow> ir_func \<Rightarrow> (mem_alloc_id \<times> nat \<times> nat) list" where
  "mem_alloc_calls m f =
     filter (\<lambda>(memCall, arg, x). memCall \<noteq> MemNone)
       (map (get_size_arg m) (filter (\<lambda>i. is_call (i_kind i)) (func_insts f)))"

definition resize_step :: "mem_alloc_id \<times> nat \<times> nat \<Rightarrow> ir_func \<Rightarrow> ir_func res" where
  "resize_step c f =
     (case c of (memCall, arg, x) \<Rightarrow>
        (case find_inst f x of
           None \<Rightarrow> Inl NullDeref
         | Some i \<Rightarrow> rmap (\<lambda>k. set_kind x k f) (resize_call memCall arg (i_kind i))))"

definition resize_malloc :: "ir_module \<Rightarrow> ir_func \<Rightarrow> (ir_func \<times> preserved_analyses) res" where
  "resize_malloc m f =
     (if is_declaration f \<or> f_optnone f then Inr (f, PA_all)
      else rmap (\<lambda>f'. (f', PA_cfg)) (rfold resize_step (mem_alloc_calls m f) f))"

section \<open>The rounding\<close>

lemma next_multiple: "(n::nat) + (0x2000 - n mod 0x2000) = 0x2000 * (n div 0x2000 + 1)"
proof -
  define q r where "q = n div 0x2000" and "r = n mod 0x2000"
  have "n = 0x2000 * q + r" "r < 0x2000" by (simp_all add: q_def r_def)
  then show ?thesis unfolding q_def[symmetric] r_def[symmetric] by simp
qed

lemma unat_round_up_8k:
  "unat (round_up_8k s) = (0x2000 * (unat s div 0x2000 + 1)) mod 2 ^ 64"
proof -
  have m: "unat (s mod 0x2000) = unat s mod 0x2000" by (simp add: unat_mod)
  have le: "s mod 0x2000 \<le> 0x2000"
    unfolding word_le_nat_alt m by simp
  have d: "unat (0x2000 - s mod 0x2000) = 0x2000 - unat s mod 0x2000"
    using unat_sub[OF le] m by simp
  have "unat (round_up_8k s) = (unat s + (0x2000 - unat s mod 0x2000)) mod 2 ^ 64"
    unfolding round_up_8k_def unat_word_ariths d by simp
  also have "unat s + (0x2000 - unat s mod 0x2000) = 0x2000 * (unat s div 0x2000 + 1)"
    by (rule next_multiple)
  finally show ?thesis .
qed

text \<open>
  C34: The rounded size is the next multiple of 8 KB above the requested one, a size that already is
  a multiple included, wherever the addition fits 64 bits; for the topmost 8 KB of sizes it is 0.
\<close>

theorem round_up_8k_correct:
  "(unat s < 2 ^ 64 - 0x2000 \<longrightarrow>
      0x2000 dvd unat (round_up_8k s) \<and> unat s < unat (round_up_8k s) \<and>
      unat (round_up_8k s) \<le> unat s + 0x2000) \<and>
   (2 ^ 64 - 0x2000 \<le> unat s \<longrightarrow> round_up_8k s = 0)"
proof (intro conjI impI)
  let ?r = "0x2000 * (unat s div 0x2000 + 1)"
  have bounds: "unat s < ?r" "?r \<le> unat s + 0x2000" by simp_all
  {
    assume small: "unat s < 2 ^ 64 - 0x2000"
    then have "?r < 2 ^ 64" using bounds(2) by simp
    then have r: "unat (round_up_8k s) = ?r" by (simp add: unat_round_up_8k)
    show "0x2000 dvd unat (round_up_8k s)" "unat s < unat (round_up_8k s)"
      "unat (round_up_8k s) \<le> unat s + 0x2000"
      using bounds unfolding r by simp_all
  }
  {
    assume "2 ^ 64 - 0x2000 \<le> unat s"
    moreover have "unat s < 2 ^ 64" using unsigned_less[of s] by simp
    ultimately have "unat s div 0x2000 = 2 ^ 51 - 1" by simp
    then have "unat (round_up_8k s) = 0" by (simp add: unat_round_up_8k)
    then show "round_up_8k s = 0" by (simp add: unat_eq_0)
  }
qed

section \<open>Which calls are recognised\<close>

text \<open>What the LLVM verifier guarantees of a call: its arguments have the types of the parameters.\<close>

fun arg_fits :: "ir_value \<Rightarrow> ir_type \<Rightarrow> bool" where
  "arg_fits (ConstInt c) ty = (ty = IntTy (cbits c) \<and> cval c < 2 ^ cbits c)"
| "arg_fits _ ty = True"

definition well_typed_call :: "ir_value ikind \<Rightarrow> bool" where
  "well_typed_call k =
     (case call_parts k of
        None \<Rightarrow> True
      | Some (t, as, c) \<Rightarrow>
          (case t of FuncTy r ps va \<Rightarrow> va \<or> list_all2 arg_fits as ps | _ \<Rightarrow> False))"

lemma callee_info_type:
  "callee_info m k = Some (name, ext, ty) \<Longrightarrow> \<exists>as c. call_parts k = Some (ty, as, c)"
  by (auto simp: callee_info_def split: option.splits fn_id.splits)

lemma size_type_width: "\<exists>w \<le> 64. create_type m DSize = IntTy w"
  by (simp add: create_type.simps(2))

text \<open>A recognised call has one parameter; where the size is the first argument, it has a size type.\<close>

lemma is_mem_alloc_type:
  assumes "is_mem_alloc m k \<noteq> MemNone"
  shows "\<exists>r p as c. call_parts k = Some (FuncTy r [p] False, as, c) \<and>
    (size_arg_index (is_mem_alloc m k) = 0 \<longrightarrow> p = create_type m DSize)"
proof -
  obtain name ext ty where info: "callee_info m k = Some (name, ext, ty)"
    using assms by (auto simp: is_mem_alloc_def split: option.splits)
  then obtain as c where parts: "call_parts k = Some (ty, as, c)" by (blast dest: callee_info_type)
  have "\<exists>r p. ty = FuncTy r [p] False \<and>
      (size_arg_index (is_mem_alloc m k) = 0 \<longrightarrow> p = create_type m DSize)"
    using assms unfolding is_mem_alloc_def info option.case prod.case create_func_type
    by (auto simp del: create_type.simps split: if_splits)
  with parts show ?thesis by auto
qed


lemma well_typed_one_arg:
  assumes "well_typed_call k" and "call_parts k = Some (FuncTy r [p] False, as, c)"
  shows "\<exists>v. as = [v] \<and> arg_fits v p"
  using assms by (auto simp: well_typed_call_def list_all2_Cons2)

text \<open>The specification of the change the pass makes to one call.\<close>

definition enlarged :: "ir_module \<Rightarrow> ir_value ikind \<Rightarrow> ir_value ikind" where
  "enlarged m k =
     (case k of
        Call t [ConstInt c] callee \<Rightarrow>
          if is_mem_alloc m k \<noteq> MemNone \<and> 0 < cval c
          then Call t [ConstInt (CInt (cbits c)
                 (0x2000 * (cval c div 0x2000 + 1) mod 2 ^ cbits c))] callee
          else k
      | _ \<Rightarrow> k)"

lemma enlarged_simp:
  "enlarged m (Call t [ConstInt c] callee) =
     (if is_mem_alloc m (Call t [ConstInt c] callee) \<noteq> MemNone \<and> 0 < cval c
      then Call t [ConstInt (CInt (cbits c) (0x2000 * (cval c div 0x2000 + 1) mod 2 ^ cbits c))] callee
      else Call t [ConstInt c] callee)"
  by (simp add: enlarged_def)

lemma enlarged_not_const: "(\<nexists>c. v = ConstInt c) \<Longrightarrow> enlarged m (Call t [v] callee) = Call t [v] callee"
  by (auto simp: enlarged_def split: ir_value.splits)

lemma cint_get_round:
  assumes "cval c < 2 ^ cbits c" and "cbits c \<le> 64"
  shows "cint_get (cbits c) (round_up_8k (zext_value c)) =
    CInt (cbits c) (0x2000 * (cval c div 0x2000 + 1) mod 2 ^ cbits c)"
proof -
  have "(2::nat) ^ cbits c \<le> 2 ^ 64" using assms(2) by (rule power_increasing) simp
  then have "unat (zext_value c) = cval c"
    using assms(1) by (simp add: zext_value_def unat_of_nat)
  moreover have "(2::nat) ^ cbits c dvd 2 ^ 64" using assms(2) by (rule le_imp_power_dvd)
  ultimately show ?thesis by (simp add: cint_get_def unat_round_up_8k mod_mod_cancel)
qed

lemma zext_pos:
  assumes "cval c < 2 ^ cbits c" and "cbits c \<le> 64"
  shows "(0 < zext_value c) = (0 < cval c)"
proof -
  have "(2::nat) ^ cbits c \<le> 2 ^ 64" using assms(2) by (rule power_increasing) simp
  then have "unat (zext_value c) = cval c"
    using assms(1) by (simp add: zext_value_def unat_of_nat)
  then show ?thesis by (simp add: word_less_nat_alt)
qed

lemma resize_call_enlarges:
  assumes k: "is_call k" "well_typed_call k"
    and mc: "is_mem_alloc m k \<noteq> MemNone" "size_arg_index (is_mem_alloc m k) = 0"
  shows "resize_call (is_mem_alloc m k) 0 k = Inr (enlarged m k)"
proof -
  let ?mc = "is_mem_alloc m k"
  have nc: "?mc \<noteq> Calloc" using mc(2) by auto
  obtain r as callee where parts: "call_parts k = Some (FuncTy r [create_type m DSize] False, as, callee)"
    using is_mem_alloc_type[OF mc(1)] mc(2) by auto
  obtain v where v: "as = [v]" "arg_fits v (create_type m DSize)"
    using well_typed_one_arg[OF k(2) parts] by blast
  have kk: "k = Call (FuncTy r [create_type m DSize] False) [v] callee"
    using parts k(1) v(1) by (cases k) auto
  have arg: "get_arg_operand k 0 = Inr v"
    by (simp add: get_arg_operand_def parts v)
  show ?thesis
  proof (cases "\<exists>c. v = ConstInt c")
    case True
    then obtain c where c: "v = ConstInt c" by blast
    obtain w where "w \<le> 64" "create_type m DSize = IntTy w" using size_type_width by blast
    with v(2) c have wc: "cval c < 2 ^ cbits c" "cbits c \<le> 64" by auto
    have "requested_size ?mc 0 k = Inr (zext_value c)"
      using nc by (simp add: requested_size_def arg c)
    moreover have "set_arg_operand k 0 x = Inr (Call (FuncTy r [create_type m DSize] False) [x] callee)" for x
      by (simp add: kk)
    moreover have "enlarged m k =
        (if 0 < cval c
         then Call (FuncTy r [create_type m DSize] False)
           [ConstInt (CInt (cbits c) (0x2000 * (cval c div 0x2000 + 1) mod 2 ^ cbits c))] callee
         else k)"
      using mc(1) by (simp add: enlarged_simp kk c)
    ultimately show ?thesis
      using nc arg[unfolded c] zext_pos[OF wc] cint_get_round[OF wc]
      by (simp add: resize_call_def c)
  next
    case False
    then have "get_int_constant (Some v) = None" by (cases v) auto
    then have "requested_size ?mc 0 k = Inr 0"
      using nc by (simp add: requested_size_def arg)
    then show ?thesis using enlarged_not_const[OF False] by (simp add: resize_call_def kk)
  qed
qed

lemma resize_call_out_of_range:
  assumes "well_typed_call k"
    and mc: "is_mem_alloc m k \<noteq> MemNone" "size_arg_index (is_mem_alloc m k) \<noteq> 0"
  shows "resize_call (is_mem_alloc m k) (size_arg_index (is_mem_alloc m k)) k = Inl BadIndex \<or>
    is_mem_alloc m k = Calloc \<and> resize_call Calloc 1 k = Inr k"
proof -
  obtain r p as callee where parts: "call_parts k = Some (FuncTy r [p] False, as, callee)"
    using is_mem_alloc_type[OF mc(1)] by blast
  obtain v where v: "as = [v]" using well_typed_one_arg[OF assms(1) parts] by blast
  have "get_arg_operand k n = (if n = 0 then Inr v else Inl BadIndex)" for n
    by (simp add: get_arg_operand_def parts v)
  then show ?thesis
    using mc(2) by (auto simp: resize_call_def requested_size_def split: option.splits)
qed

section \<open>The whole pass\<close>

definition recognised :: "ir_module \<Rightarrow> ir_func \<Rightarrow> ir_inst list" where
  "recognised m f =
     filter (\<lambda>i. is_call (i_kind i) \<and> is_mem_alloc m (i_kind i) \<noteq> MemNone) (func_insts f)"

lemma mem_alloc_calls_recognised: "mem_alloc_calls m f = map (get_size_arg m) (recognised m f)"
proof -
  have "(\<lambda>(mc, a, x). mc \<noteq> MemNone) \<circ> get_size_arg m = (\<lambda>i. is_mem_alloc m (i_kind i) \<noteq> MemNone)"
    by (simp add: fun_eq_iff get_size_arg_def Let_def)
  then show ?thesis
    by (simp add: mem_alloc_calls_def recognised_def filter_map conj_commute)
qed

lemma recognised_distinct: "wf_func f \<Longrightarrow> distinct (map i_id (recognised m f))"
  unfolding recognised_def using wf_func_distinct by (rule distinct_map_filter)

lemma recognised_sub: "set (recognised m f) \<subseteq> set (func_insts f)"
  by (auto simp: recognised_def)

lemma resize_step_eq:
  assumes "find_inst g (i_id c) = Some c"
    and "resize_call (is_mem_alloc m (i_kind c)) (size_arg_index (is_mem_alloc m (i_kind c))) (i_kind c) = Inr k"
  shows "resize_step (get_size_arg m c) g = Inr (set_kind (i_id c) k g)"
  using assms by (simp add: resize_step_def get_size_arg_def Let_def)

lemma enlarged_unrecognised:
  "\<not> (is_call k \<and> is_mem_alloc m k \<noteq> MemNone) \<Longrightarrow> enlarged m k = k"
  by (auto simp: enlarged_def split: ikind.splits list.splits ir_value.splits)

text \<open>
  C9: Where every recognised call has its size as the first argument, the pass succeeds and makes
  exactly the specified change: each recognised call with a constant size asks for the next multiple
  of 8 KB (in the width of its argument), and every other instruction and the layout are the same.
\<close>

theorem resize_malloc_refines:
  assumes "wf_func f" and "\<not> is_declaration f" and "\<not> f_optnone f"
    and "\<forall>i \<in> set (func_insts f). well_typed_call (i_kind i)"
    and "\<forall>i \<in> set (recognised m f). size_arg_index (is_mem_alloc m (i_kind i)) = 0"
  shows "resize_malloc m f = Inr (edit_kinds (\<lambda>i. enlarged m (i_kind i)) f, PA_cfg)"
proof -
  have "rfold resize_step (map (get_size_arg m) (recognised m f)) f =
      Inr (edit_kinds (\<lambda>i. if i \<in> set (recognised m f) then enlarged m (i_kind i) else i_kind i) f)"
  proof (rule rfold_edit_kinds[OF assms(1) recognised_distinct[OF assms(1)] recognised_sub])
    fix c g assume c: "c \<in> set (recognised m f)" and g: "find_inst g (i_id c) = Some c"
    then have "is_call (i_kind c)" "well_typed_call (i_kind c)"
      "is_mem_alloc m (i_kind c) \<noteq> MemNone" "size_arg_index (is_mem_alloc m (i_kind c)) = 0"
      using assms(4,5) by (auto simp: recognised_def)
    then show "resize_step (get_size_arg m c) g = Inr (set_kind (i_id c) (enlarged m (i_kind c)) g)"
      using resize_call_enlarges by (intro resize_step_eq[OF g]) simp
  qed
  also have "edit_kinds (\<lambda>i. if i \<in> set (recognised m f) then enlarged m (i_kind i) else i_kind i) f =
      edit_kinds (\<lambda>i. enlarged m (i_kind i)) f"
    by (rule edit_kinds_cong) (auto simp: recognised_def enlarged_unrecognised)
  finally show ?thesis
    using assms(2,3) by (simp add: resize_malloc_def mem_alloc_calls_recognised)
qed

lemma resize_step_recognised:
  assumes "c \<in> set (recognised m f)" "well_typed_call (i_kind c)" "find_inst g (i_id c) = Some c"
  shows "resize_step (get_size_arg m c) g = Inl BadIndex \<or>
    (\<exists>k. resize_call (is_mem_alloc m (i_kind c)) (size_arg_index (is_mem_alloc m (i_kind c))) (i_kind c) = Inr k)
    \<and> (is_mem_alloc m (i_kind c) = Calloc \<or> size_arg_index (is_mem_alloc m (i_kind c)) = 0)"
proof -
  have c: "is_call (i_kind c)" "is_mem_alloc m (i_kind c) \<noteq> MemNone"
    using assms(1) by (auto simp: recognised_def)
  show ?thesis
  proof (cases "size_arg_index (is_mem_alloc m (i_kind c)) = 0")
    case True
    then show ?thesis using resize_call_enlarges[OF c(1) assms(2) c(2) True] by auto
  next
    case False
    then show ?thesis
      using resize_call_out_of_range[OF assms(2) c(2) False] assms(3)
      by (auto simp: resize_step_def get_size_arg_def Let_def)
  qed
qed

lemma rfold_resize_fails:
  assumes "wf_func f" and "\<forall>i \<in> set cs. i \<in> set (recognised m f) \<and> well_typed_call (i_kind i)"
    and "distinct (map i_id cs)" and "i \<in> set cs"
    and "is_mem_alloc m (i_kind i) \<noteq> Calloc" "size_arg_index (is_mem_alloc m (i_kind i)) \<noteq> 0"
    and "set cs \<subseteq> set (func_insts g)" "wf_func g"
  shows "rfold resize_step (map (get_size_arg m) cs) g = Inl BadIndex"
  using assms(2-)
proof (induction cs arbitrary: g)
  case (Cons c cs)
  have c: "c \<in> set (recognised m f)" "well_typed_call (i_kind c)" "c \<in> set (func_insts g)"
    using Cons.prems by auto
  have find: "find_inst g (i_id c) = Some c" by (rule find_inst_member[OF Cons.prems(7) c(3)])
  consider "resize_step (get_size_arg m c) g = Inl BadIndex"
    | k where "resize_call (is_mem_alloc m (i_kind c)) (size_arg_index (is_mem_alloc m (i_kind c))) (i_kind c) = Inr k"
        "is_mem_alloc m (i_kind c) = Calloc \<or> size_arg_index (is_mem_alloc m (i_kind c)) = 0"
    using resize_step_recognised[OF c(1,2) find] by blast
  then show ?case
  proof cases
    case 1
    then show ?thesis by simp
  next
    case (2 k)
    let ?g = "edit_kinds (\<lambda>i. if i = c then k else i_kind i) g"
    have "i \<noteq> c" using 2(2) Cons.prems(4,5) by auto
    then have i: "i \<in> set cs" using Cons.prems(3) by simp
    have "set cs \<subseteq> set (func_insts ?g)"
    proof
      fix j assume "j \<in> set cs"
      moreover from this have "j \<noteq> c" using Cons.prems(2) by auto
      ultimately show "j \<in> set (func_insts ?g)"
        using Cons.prems(6) by (force simp: func_insts_edit_kinds image_iff)
    qed
    then have "rfold resize_step (map (get_size_arg m) cs) ?g = Inl BadIndex"
      using Cons.prems i by (intro Cons.IH wf_func_edit_kinds) auto
    then show ?thesis
      using resize_step_eq[OF find 2(1)] set_kind_edit[OF Cons.prems(7) c(3)] by simp
  qed
qed simp


section \<open>Witnesses\<close>

theorem round_up_8k_correct_witness:
  "unat (round_up_8k 4) = 0x2000 \<and> 0x2000 dvd unat (round_up_8k 4) \<and> round_up_8k 0xFFFFFFFFFFFFFFFF = 0"
proof -
  have "unat (4 :: 64 word) < 2 ^ 64 - 0x2000" by simp
  then have "0x2000 dvd unat (round_up_8k 4)" using round_up_8k_correct[of 4] by blast
  moreover have "2 ^ 64 - 0x2000 \<le> unat (0xFFFFFFFFFFFFFFFF :: 64 word)" by simp
  then have "round_up_8k 0xFFFFFFFFFFFFFFFF = 0" using round_up_8k_correct[of "0xFFFFFFFFFFFFFFFF"] by blast
  moreover have "unat (round_up_8k 4) = 0x2000" by (simp add: round_up_8k_def)
  ultimately show ?thesis by blast
qed

definition size_to_ptr :: ir_type where
  "size_to_ptr = FuncTy (PtrTy (IntTy 8)) [IntTy 64] False"

definition sample_module :: ir_module where
  "sample_module =
     \<lparr>m_funcs =
        [mk_func 1 ''malloc'' size_to_ptr True [] 0,
         mk_func 2 ''mmap'' size_to_ptr True [] 0,
         mk_func 3 ''calloc'' (FuncTy (PtrTy (IntTy 8)) [IntTy 64, IntTy 64] False) True [] 0],
      m_globals = [], m_named_md = [], m_arch_bits = 64, m_intptr_bits = 64, m_next = 4\<rparr>"

definition call_with_size :: "nat \<Rightarrow> nat \<Rightarrow> ir_value ikind" where
  "call_with_size g n = Call size_to_ptr [ConstInt (CInt 64 n)] (FuncVal (Fn g) size_to_ptr)"

definition sample_caller :: "nat \<Rightarrow> nat \<Rightarrow> ir_func" where
  "sample_caller g n = mk_func 9 ''f'' (FuncTy VoidTy [] False) True
     [mk_block 1 [mk_inst 2 (call_with_size g n) (PtrTy (IntTy 8)) '''',
                  mk_inst 3 (Ret None) VoidTy '''']] 4"

lemma sample_caller_typed:
  "n < 2 ^ 64 \<Longrightarrow> \<forall>i \<in> set (func_insts (sample_caller g n)). well_typed_call (i_kind i)"
  by (simp add: sample_caller_def func_insts_def mk_func_def mk_block_def mk_inst_def
      well_typed_call_def call_with_size_def size_to_ptr_def)

definition calloc_call :: "ir_value ikind" where
  "calloc_call = Call (FuncTy (PtrTy (IntTy 8)) [IntTy 64, IntTy 64] False)
     [ConstInt (CInt 64 4), ConstInt (CInt 64 10)]
     (FuncVal (Fn 3) (FuncTy (PtrTy (IntTy 8)) [IntTy 64, IntTy 64] False))"


theorem resize_malloc_refines_witness:
  "resize_malloc sample_module (sample_caller 1 100) = Inr (sample_caller 1 0x2000, PA_cfg)"
proof -
  have "wf_func (sample_caller 1 100)" by code_simp
  moreover have "\<not> is_declaration (sample_caller 1 100)" by code_simp
  moreover have "\<not> f_optnone (sample_caller 1 100)" by code_simp
  moreover have "\<forall>i \<in> set (func_insts (sample_caller 1 100)). well_typed_call (i_kind i)"
    by (rule sample_caller_typed) simp
  moreover have "\<forall>i \<in> set (recognised sample_module (sample_caller 1 100)).
      is_mem_alloc sample_module (i_kind i) = Malloc" by code_simp
  then have "\<forall>i \<in> set (recognised sample_module (sample_caller 1 100)).
      size_arg_index (is_mem_alloc sample_module (i_kind i)) = 0" by simp
  ultimately have "resize_malloc sample_module (sample_caller 1 100) =
      Inr (edit_kinds (\<lambda>i. enlarged sample_module (i_kind i)) (sample_caller 1 100), PA_cfg)"
    by (rule resize_malloc_refines)
  moreover have "is_mem_alloc sample_module (call_with_size 1 100) = Malloc" by code_simp
  then have "enlarged sample_module (call_with_size 1 100) = call_with_size 1 0x2000"
    by (simp add: call_with_size_def enlarged_simp)
  then have "edit_kinds (\<lambda>i. enlarged sample_module (i_kind i)) (sample_caller 1 100) =
      sample_caller 1 0x2000"
    by (simp add: edit_kinds_def map_blocks_def on_insts_def sample_caller_def mk_func_def
        mk_block_def mk_inst_def enlarged_unrecognised)
  ultimately show ?thesis by simp
qed


end
