(* ===== verification/Switch_Table.thy ===== *)
theory Switch_Table
  imports IR
begin

text \<open>
  The cases of a \<open>switch\<close> as the passes use them: both \<open>pachinko-calls\<close> and \<open>fuse-functions\<close> build a
  dispatch table by adding cases with numbers that are not in it yet, and rely on the table leading
  every number to the block it was added with. The locale states that contract; the cases of the IR
  instruction are its interpretation.
\<close>

section \<open>The contract of a dispatch table\<close>

locale dispatch_table =
  fixes add :: "'c \<Rightarrow> 'b \<Rightarrow> 't \<Rightarrow> 't"
    and target :: "'t \<Rightarrow> 'c \<Rightarrow> 'b option"
    and keys :: "'t \<Rightarrow> 'c list"
  assumes keys_add: "keys (add c b t) = keys t @ [c]"
    and target_add: "c \<notin> set (keys t) \<Longrightarrow> target (add c b t) c' = (if c' = c then Some b else target t c')"
    and target_None: "target t c = None \<longleftrightarrow> c \<notin> set (keys t)"
begin

definition add_all :: "('c \<times> 'b) list \<Rightarrow> 't \<Rightarrow> 't" where
  "add_all cbs t = fold (\<lambda>(c, b). add c b) cbs t"

lemma add_all_simps: "add_all [] t = t" "add_all ((c, b) # cbs) t = add_all cbs (add c b t)"
  by (simp_all add: add_all_def)

lemma keys_add_all: "keys (add_all cbs t) = keys t @ map fst cbs"
  by (induction cbs arbitrary: t) (auto simp: add_all_simps keys_add)

text \<open>Cases added with new, different numbers are all found, and no old case changes.\<close>

lemma target_add_all:
  assumes "distinct (keys t @ map fst cbs)"
  shows "target (add_all cbs t) c = (case map_of cbs c of Some b \<Rightarrow> Some b | None \<Rightarrow> target t c)"
  using assms
proof (induction cbs arbitrary: t)
  case (Cons cb cbs)
  obtain c' b where cb: "cb = (c', b)" by (cases cb)
  have "target (add_all cbs (add c' b t)) c =
      (case map_of cbs c of Some b \<Rightarrow> Some b | None \<Rightarrow> target (add c' b t) c)"
    using Cons.prems by (intro Cons.IH) (auto simp: cb keys_add)
  moreover have "map_of cbs c' = None"
    using Cons.prems by (simp add: cb map_of_eq_None_iff)
  ultimately show ?case
    using Cons.prems by (auto simp: cb add_all_simps target_add split: option.splits)
qed (simp add: add_all_simps)

lemma target_added:
  assumes "distinct (keys t @ map fst cbs)" and "(c, b) \<in> set cbs"
  shows "target (add_all cbs t) c = Some b"
proof -
  have "map_of cbs c = Some b" using assms by (intro map_of_is_SomeI) auto
  then show ?thesis using target_add_all[OF assms(1)] by simp
qed

end

section \<open>The cases of a switch instruction\<close>

type_synonym switch_cases = "(cint \<times> nat) list"

text \<open>\<open>addCase\<close> appends; \<open>findCaseValue\<close> finds the first case with the value.\<close>

definition add_case :: "cint \<Rightarrow> nat \<Rightarrow> switch_cases \<Rightarrow> switch_cases" where
  "add_case c b cs = cs @ [(c, b)]"

definition find_case :: "switch_cases \<Rightarrow> cint \<Rightarrow> nat option" where
  "find_case cs c = map_of cs c"

definition case_values :: "switch_cases \<Rightarrow> cint list" where
  "case_values cs = map fst cs"

text \<open>Where a switch goes for the value of its condition.\<close>

definition switch_target :: "nat \<Rightarrow> switch_cases \<Rightarrow> cint \<Rightarrow> nat" where
  "switch_target d cs c = (case find_case cs c of Some b \<Rightarrow> b | None \<Rightarrow> d)"

interpretation sw: dispatch_table add_case find_case case_values
proof
  fix c c' b t
  assume "c \<notin> set (case_values t)"
  then have "map_of t c = None" by (simp add: case_values_def map_of_eq_None_iff)
  then show "find_case (add_case c b t) c' = (if c' = c then Some b else find_case t c')"
    by (auto simp: find_case_def add_case_def map_add_def split: option.splits)
qed (simp_all add: find_case_def add_case_def case_values_def map_of_eq_None_iff)

lemma add_all_append: "sw.add_all cbs cs = cs @ cbs"
  by (induction cbs arbitrary: cs) (auto simp: sw.add_all_simps add_case_def)

text \<open>\<open>SwitchInst::addCase\<close> on an instruction.\<close>

fun add_switch_case :: "cint \<Rightarrow> nat \<Rightarrow> ir_value ikind \<Rightarrow> ir_value ikind" where
  "add_switch_case c b (Switch v d cs) = Switch v d (add_case c b cs)"
| "add_switch_case c b k = k"

lemma cint_get_inj:
  assumes "m < 2 ^ w" "n < 2 ^ w" "w \<le> 64"
  shows "cint_get w (of_nat m) = cint_get w (of_nat n) \<longleftrightarrow> m = n"
proof -
  have "(2::nat) ^ w \<le> 2 ^ 64" using assms(3) by (rule power_increasing) simp
  then have "unat (of_nat m :: 64 word) = m" "unat (of_nat n :: 64 word) = n"
    using assms(1,2) by (simp_all add: unat_of_nat)
  then show ?thesis using assms(1,2) by (simp add: cint_get_def)
qed

end
