(* ===== verification/Pachinko_Calls.thy ===== *)
theory Pachinko_Calls
  imports Switch_Table
begin

text \<open>
  \<open>lib/passes/pachinko-calls/pachinko-calls.cpp\<close>: a module pass that builds a function
  \<open>prize_exchange\<close> with a switch that maps a number to the address of a function, and turns direct
  calls into calls of what \<open>prize_exchange\<close> returns for the callee's number.
\<close>

section \<open>The prize exchange\<close>

definition void_ptr :: ir_type where
  "void_ptr = PtrTy (IntTy 8)"

definition px_type :: "ir_module \<Rightarrow> ir_type" where
  "px_type m = FuncTy void_ptr [IntTy (m_intptr_bits m)] False"

text \<open>The module with the new function, and the addresses of the function and of its switch.\<close>

definition create_px :: "ir_module \<Rightarrow> ir_module \<times> nat \<times> nat" where
  "create_px m =
     (let g = m_next m;
          f0 = mk_func g ''prize_exchange'' (px_type m) False [] 0;
          entryBlock = f_next f0; f1 = new_block '''' f0;
          defaultBlock = f_next f1; f2 = new_block '''' f1;
          f3 = new_at_end defaultBlock Unreachable VoidTy f2;
          switchInst = f_next f3;
          f4 = new_at_end entryBlock (Switch (ArgVal 0) defaultBlock []) VoidTy f3
      in (m\<lparr>m_funcs := m_funcs m @ [f4], m_next := Suc g\<rparr>, g, switchInst))"

text \<open>
  The operands of a named metadata node are \<open>MDNode\<close>s; the code asks whether the first is a
  \<open>ValueAsMetadata\<close>. The result is a null pointer where it is not.
\<close>

definition get_or_create_px :: "ir_module \<Rightarrow> (ir_module \<times> (nat \<times> nat) option) res" where
  "get_or_create_px m =
     (case map_of (m_named_md m) ''prize.exchange'' of
        None \<Rightarrow>
          (case create_px (m\<lparr>m_named_md := m_named_md m @ [(''prize.exchange'', [])]\<rparr>) of
             (m', g, s) \<Rightarrow>
               Inr (m'\<lparr>m_named_md := AList.update ''prize.exchange''
                        [MDTuple [ValueAsMD (FuncVal (Fn g) (px_type m))]] (m_named_md m')\<rparr>,
                    Some (g, s)))
      | Some [] \<Rightarrow> Inr (m, None)
      | Some (ValueAsMD (FuncVal (Fn g) ty) # ops) \<Rightarrow>
          (case find_func m g of
             None \<Rightarrow> Inl NullDeref
           | Some f \<Rightarrow>
               (case f_blocks f of
                  [] \<Rightarrow> Inl NullDeref
                | b # bs \<Rightarrow>
                    (case b_insts b of
                       [] \<Rightarrow> Inl NullDeref
                     | i # is \<Rightarrow>
                         (case i_kind i of
                            Switch v d cs \<Rightarrow> Inr (m, Some (g, i_id i))
                          | _ \<Rightarrow> Inl BadCast))))
      | Some (ValueAsMD v # ops) \<Rightarrow> Inl BadCast
      | Some (_ # ops) \<Rightarrow> Inr (m, None))"

section \<open>Handing out the prizes\<close>

text \<open>A call that is to be rewritten: its function and address, its number, the callee's type.\<close>

type_synonym prize = "(nat \<times> nat) \<times> cint \<times> ir_type"

record px_state =
  px_func :: ir_func
  mapped_funcs :: "nat list"
  call_prizes :: "prize list"

text \<open>A new block of \<open>prize_exchange\<close> that returns the address of the callee.\<close>

definition add_prize :: "nat \<Rightarrow> cint \<Rightarrow> nat \<Rightarrow> ir_type \<Rightarrow> ir_func \<Rightarrow> ir_func" where
  "add_prize switchInst prizeId callee calleeType f =
     (let funcBlock = f_next f; f1 = new_block '''' f;
          f2 = upd_inst switchInst
                 (\<lambda>i. i\<lparr>i_kind := add_switch_case prizeId funcBlock (i_kind i)\<rparr>) f1;
          funcPtrCast = f_next f2;
          f3 = new_at_end funcBlock (BitCast (FuncVal (Fn callee) calleeType)) void_ptr f2
      in new_at_end funcBlock (Ret (Some (InstVal funcPtrCast))) VoidTy f3)"

text \<open>The function called directly by an instruction, where the pass considers the call.\<close>

definition candidate_callee :: "nat \<Rightarrow> ir_value ikind \<Rightarrow> (nat \<times> ir_type) option" where
  "candidate_callee caller k =
     (case call_parts k of
        None \<Rightarrow> None
      | Some (t, as, c) \<Rightarrow>
          (case called_function k of
             Some (Fn g) \<Rightarrow> if g \<noteq> caller then Some (g, t) else None
           | _ \<Rightarrow> None))"

definition visit_call :: "nat \<Rightarrow> nat \<Rightarrow> nat \<Rightarrow> ir_inst \<Rightarrow> px_state \<Rightarrow> px_state" where
  "visit_call bits switchInst caller i s =
     (case candidate_callee caller (i_kind i) of
        None \<Rightarrow> s
      | Some (g, t) \<Rightarrow>
          if g \<in> set (mapped_funcs s) then s
          else
            let mapped = mapped_funcs s @ [g];
                prizeId = cint_get bits (of_nat (length mapped - 1))
            in \<lparr>px_func = add_prize switchInst prizeId g t (px_func s),
                mapped_funcs = mapped,
                call_prizes = call_prizes s @ [((caller, i_id i), prizeId, t)]\<rparr>)"

definition visit_func :: "nat \<Rightarrow> nat \<Rightarrow> nat \<Rightarrow> ir_func \<Rightarrow> px_state \<Rightarrow> px_state" where
  "visit_func bits px switchInst f s =
     (if is_declaration f \<or> f_optnone f then s
      else if f_id f = px then s
      else fold (visit_call bits switchInst (f_id f)) (func_insts f) s)"

section \<open>Rewriting the calls\<close>

definition rewrite_call :: "nat \<Rightarrow> ir_type \<Rightarrow> nat \<Rightarrow> cint \<Rightarrow> ir_type \<Rightarrow> ir_func \<Rightarrow> ir_func" where
  "rewrite_call px pxTy callInst prizeId calleeType f =
     (let prizeCall = f_next f;
          f1 = new_before callInst (Call pxTy [ConstInt prizeId] (FuncVal (Fn px) pxTy)) void_ptr f;
          funcPtrCast = f_next f1;
          f2 = new_before callInst (BitCast (InstVal prizeCall)) (PtrTy calleeType) f1
      in upd_inst callInst
           (\<lambda>i. i\<lparr>i_kind := set_called_operand (InstVal funcPtrCast) (i_kind i)\<rparr>) f2)"

definition rewrite_prize :: "nat \<Rightarrow> ir_type \<Rightarrow> prize \<Rightarrow> ir_module \<Rightarrow> ir_module" where
  "rewrite_prize px pxTy p m =
     (case p of ((caller, x), prizeId, t) \<Rightarrow> upd_func caller (rewrite_call px pxTy x prizeId t) m)"

text \<open>
  The pass. \<open>ord\<close> is the order in which the \<open>DenseMap\<close> of calls is traversed, which depends on
  pointer values. \<open>prize_exchange\<close> itself is not visited, so that it can be built aside and put back.
\<close>

definition pachinko_calls ::
  "(prize list \<Rightarrow> prize list) \<Rightarrow> ir_module \<Rightarrow> (ir_module \<times> preserved_analyses) res" where
  "pachinko_calls ord m0 =
     rbind (get_or_create_px m0) (\<lambda>(m, pxSwitch).
       case pxSwitch of
         None \<Rightarrow> Inl NullDeref
       | Some (px, switchInst) \<Rightarrow>
           (case find_func m px of
              None \<Rightarrow> Inl NullDeref
            | Some pxFunc \<Rightarrow>
                let s = fold (visit_func (m_intptr_bits m) px switchInst) (m_funcs m)
                          \<lparr>px_func = pxFunc, mapped_funcs = [], call_prizes = []\<rparr>;
                    m1 = upd_func px (\<lambda>_. px_func s) m
                in Inr (fold (rewrite_prize px (f_type pxFunc)) (ord (call_prizes s)) m1, PA_none)))"

section \<open>What the prize exchange returns\<close>

text \<open>
  Calling \<open>prize_exchange\<close> with a number: its switch, then the cast and return of the block it leads
  to. None where it runs into the default block.
\<close>

definition px_result :: "ir_func \<Rightarrow> cint \<Rightarrow> ir_value option" where
  "px_result f n =
     (case f_blocks f of
        b # bs \<Rightarrow>
          (case map i_kind (b_insts b) of
             [Switch (ArgVal 0) d cs] \<Rightarrow>
               (case find_block f (switch_target d cs n) of
                  Some tb \<Rightarrow>
                    (case b_insts tb of
                       [ci, ri] \<Rightarrow>
                         (case (i_kind ci, i_kind ri) of
                            (BitCast v, Ret (Some (InstVal c))) \<Rightarrow> if c = i_id ci then Some v else None
                          | _ \<Rightarrow> None)
                     | _ \<Rightarrow> None)
                | None \<Rightarrow> None)
           | _ \<Rightarrow> None)
      | [] \<Rightarrow> None)"

text \<open>The function as built from the list of callees and their types.\<close>

definition prize_block :: "nat \<Rightarrow> nat \<times> ir_type \<Rightarrow> ir_block" where
  "prize_block k p = mk_block (4 + 3 * k)
     [mk_inst (5 + 3 * k) (BitCast (FuncVal (Fn (fst p)) (snd p))) void_ptr '''',
      mk_inst (6 + 3 * k) (Ret (Some (InstVal (5 + 3 * k)))) VoidTy '''']"

definition prize_cases :: "nat \<Rightarrow> nat \<Rightarrow> switch_cases" where
  "prize_cases bits n = map (\<lambda>k. (cint_get bits (of_nat k), 4 + 3 * k)) [0..<n]"

definition px_built :: "nat \<Rightarrow> nat \<Rightarrow> ir_type \<Rightarrow> (nat \<times> ir_type) list \<Rightarrow> ir_func" where
  "px_built bits px ty ps = mk_func px ''prize_exchange'' ty False
     (mk_block 0 [mk_inst 3 (Switch (ArgVal 0) 1 (prize_cases bits (length ps))) VoidTy '''']
      # mk_block 1 [mk_inst 2 Unreachable VoidTy '''']
      # map (\<lambda>k. prize_block k (ps ! k)) [0..<length ps])
     (4 + 3 * length ps)"

lemma create_px_built:
  "create_px m = (m\<lparr>m_funcs := m_funcs m @ [px_built bits (m_next m) (px_type m) []],
                    m_next := Suc (m_next m)\<rparr>, m_next m, 3)"
  by (simp add: create_px_def px_built_def mk_func_def new_block_def new_at_end_def append_inst_def
      append_block_def on_insts_def mk_block_def prize_cases_def Let_def eval_nat_numeral)

lemma prize_block_id [simp]: "b_id (prize_block k p) = 4 + 3 * k"
  by (simp add: prize_block_def mk_block_def)

lemma add_prize_shape:
  assumes "\<forall>b \<in> set bs. b_id b < n \<and> 3 \<notin> i_id ` set (b_insts b)" and "3 < n"
  shows "add_prize 3 c g t
      (mk_func px nm ty False
         (mk_block 0 [mk_inst 3 (Switch v 1 cs) VoidTy ''''] # mk_block 1 [mk_inst 2 Unreachable VoidTy ''''] # bs) n) =
    mk_func px nm ty False
      (mk_block 0 [mk_inst 3 (Switch v 1 (add_case c n cs)) VoidTy '''']
       # mk_block 1 [mk_inst 2 Unreachable VoidTy '''']
       # bs @ [mk_block n [mk_inst (n + 1) (BitCast (FuncVal (Fn g) t)) void_ptr '''',
                           mk_inst (n + 2) (Ret (Some (InstVal (n + 1)))) VoidTy '''']]) (n + 3)"
proof -
  have fresh: "upd_at b_id n h bs = bs" for h
    by (rule upd_at_notin) (use assms(1) in auto)
  have keep: "map (on_insts (upd_at i_id 3 h)) bs = bs" for h
    by (rule map_idI) (use assms(1) in \<open>auto simp: on_insts_def upd_at_notin\<close>)
  show ?thesis
    using assms(2)
    by (simp add: add_prize_def mk_func_def new_block_def new_at_end_def append_inst_def
        append_block_def upd_inst_def map_blocks_def Let_def fresh keep)
      (simp add: on_insts_def mk_block_def mk_inst_def)
qed

lemma prize_cases_Suc:
  "prize_cases bits (Suc n) = add_case (cint_get bits (of_nat n)) (4 + 3 * n) (prize_cases bits n)"
  by (simp add: prize_cases_def add_case_def)

lemma add_prize_built:
  "add_prize 3 (cint_get bits (of_nat (length ps))) g t (px_built bits px ty ps) =
     px_built bits px ty (ps @ [(g, t)])"
proof -
  let ?old = "map (\<lambda>k. prize_block k (ps ! k)) [0..<length ps]"
  have old: "map (\<lambda>k. prize_block k ((ps @ [(g, t)]) ! k)) [0..<length ps] = ?old"
    by (simp add: nth_append)
  have new: "prize_block (length ps) (g, t) = mk_block (4 + 3 * length ps)
      [mk_inst (5 + 3 * length ps) (BitCast (FuncVal (Fn g) t)) void_ptr '''',
       mk_inst (6 + 3 * length ps) (Ret (Some (InstVal (5 + 3 * length ps)))) VoidTy '''']"
    by (simp add: prize_block_def)
  have "\<forall>b \<in> set ?old. b_id b < 4 + 3 * length ps \<and> 3 \<notin> i_id ` set (b_insts b)"
    by (auto simp: prize_block_def mk_block_def)
  then show ?thesis
    unfolding px_built_def
    by (subst add_prize_shape) (simp_all add: old new prize_cases_Suc)
qed

lemma px_result_built:
  assumes "k < length ps" "length ps \<le> 2 ^ bits" "bits \<le> 64"
  shows "px_result (px_built bits px ty ps) (cint_get bits (of_nat k)) =
    Some (FuncVal (Fn (fst (ps ! k))) (snd (ps ! k)))"
proof -
  have "distinct (map fst (prize_cases bits (length ps)))"
    using assms(2,3)
    by (auto simp: prize_cases_def comp_def distinct_map inj_on_def cint_get_inj)
  then have "distinct (case_values [] @ map fst (prize_cases bits (length ps)))"
    by (simp add: case_values_def)
  moreover have "(cint_get bits (of_nat k), 4 + 3 * k) \<in> set (prize_cases bits (length ps))"
    using assms(1) by (auto simp: prize_cases_def)
  ultimately have "find_case (prize_cases bits (length ps)) (cint_get bits (of_nat k)) = Some (4 + 3 * k)"
    using sw.target_added[of "[]" "prize_cases bits (length ps)"] by (simp add: add_all_append)
  then have target: "switch_target 1 (prize_cases bits (length ps)) (cint_get bits (of_nat k)) = 4 + 3 * k"
    by (simp add: switch_target_def)
  have "prize_block k (ps ! k) \<in> set (map (\<lambda>k. prize_block k (ps ! k)) [0..<length ps])"
    using assms(1) by auto
  moreover have "distinct (map b_id (map (\<lambda>k. prize_block k (ps ! k)) [0..<length ps]))"
    by (simp add: comp_def distinct_map inj_on_def)
  ultimately have "at_id b_id (4 + 3 * k) (map (\<lambda>k. prize_block k (ps ! k)) [0..<length ps])
      = Some (prize_block k (ps ! k))"
    by (metis at_id_distinct prize_block_id)
  then have "find_block (px_built bits px ty ps) (4 + 3 * k) = Some (prize_block k (ps ! k))"
    by (simp add: find_block_def px_built_def mk_func_def mk_block_def)
  with target show ?thesis
    by (simp add: px_result_def px_built_def mk_func_def mk_block_def prize_block_def)
qed

section \<open>The calls that are numbered\<close>

text \<open>A call the pass considers: its function and address, the callee and its type.\<close>

type_synonym call_site = "(nat \<times> nat) \<times> nat \<times> ir_type"

definition func_candidates :: "ir_func \<Rightarrow> call_site list" where
  "func_candidates f =
     (if is_declaration f \<or> f_optnone f then []
      else List.map_filter
             (\<lambda>i. map_option (Pair (f_id f, i_id i)) (candidate_callee (f_id f) (i_kind i)))
             (func_insts f))"

definition candidates :: "ir_module \<Rightarrow> call_site list" where
  "candidates m = concat (map func_candidates (m_funcs m))"

definition direct_callees :: "ir_module \<Rightarrow> nat list" where
  "direct_callees m = map (fst \<circ> snd) (candidates m)"

text \<open>The first call of each callee.\<close>

fun first_calls :: "nat set \<Rightarrow> call_site list \<Rightarrow> call_site list" where
  "first_calls seen [] = []"
| "first_calls seen ((x, g, t) # cs) =
     (if g \<in> seen then first_calls seen cs else (x, g, t) # first_calls (insert g seen) cs)"

lemma set_first_calls: "set (first_calls seen cs) \<subseteq> set cs"
  by (induction seen cs rule: first_calls.induct) auto

lemma first_calls_callees:
  "(fst \<circ> snd) ` set (first_calls seen cs) = (fst \<circ> snd) ` set cs - seen
   \<and> distinct (map (fst \<circ> snd) (first_calls seen cs))"
  by (induction seen cs rule: first_calls.induct) auto

lemma first_calls_distinct: "distinct (map fst cs) \<Longrightarrow> distinct (map fst (first_calls seen cs))"
  using set_first_calls by (induction seen cs rule: first_calls.induct) force+

definition numbered :: "nat \<Rightarrow> call_site list \<Rightarrow> prize list" where
  "numbered bits cs =
     map (\<lambda>k. (fst (cs ! k), cint_get bits (of_nat k), snd (snd (cs ! k)))) [0..<length cs]"

text \<open>The state of the pass after it has numbered the given calls.\<close>

definition px_after :: "nat \<Rightarrow> nat \<Rightarrow> ir_type \<Rightarrow> call_site list \<Rightarrow> px_state" where
  "px_after bits px ty cs =
     \<lparr>px_func = px_built bits px ty (map snd cs), mapped_funcs = map (fst \<circ> snd) cs,
      call_prizes = numbered bits cs\<rparr>"

definition visit_site :: "nat \<Rightarrow> nat \<Rightarrow> call_site \<Rightarrow> px_state \<Rightarrow> px_state" where
  "visit_site bits switchInst c s =
     (case c of (x, g, t) \<Rightarrow>
        if g \<in> set (mapped_funcs s) then s
        else
          let prizeId = cint_get bits (of_nat (length (mapped_funcs s)))
          in \<lparr>px_func = add_prize switchInst prizeId g t (px_func s),
              mapped_funcs = mapped_funcs s @ [g],
              call_prizes = call_prizes s @ [(x, prizeId, t)]\<rparr>)"

lemma visit_func_sites:
  "f_id f \<noteq> px \<Longrightarrow>
   visit_func bits px sw f s = fold (visit_site bits sw) (func_candidates f) s"
proof -
  assume px: "f_id f \<noteq> px"
  have "fold (visit_call bits sw (f_id f)) is s =
      fold (visit_site bits sw)
        (List.map_filter (\<lambda>i. map_option (Pair (f_id f, i_id i)) (candidate_callee (f_id f) (i_kind i))) is) s"
    for "is"
  proof (induction "is" arbitrary: s)
    case (Cons i "is")
    then show ?case
      by (cases "candidate_callee (f_id f) (i_kind i)")
        (auto simp: visit_call_def visit_site_def Let_def map_filter_simps)
  qed (simp add: map_filter_simps)
  then show ?thesis using px by (simp add: visit_func_def func_candidates_def)
qed

lemma numbered_snoc:
  "numbered bits (cs @ [c]) = numbered bits cs @ [(fst c, cint_get bits (of_nat (length cs)), snd (snd c))]"
  by (simp add: numbered_def nth_append)

lemma visit_site_after:
  "visit_site bits 3 (x, g, t) (px_after bits px ty cs) =
     px_after bits px ty (if g \<in> set (map (fst \<circ> snd) cs) then cs else cs @ [(x, g, t)])"
proof -
  have "add_prize 3 (cint_get bits (of_nat (length cs))) g t (px_built bits px ty (map snd cs)) =
      px_built bits px ty (map snd cs @ [(g, t)])"
    using add_prize_built[of bits "map snd cs"] by simp
  then show ?thesis by (simp add: visit_site_def px_after_def Let_def numbered_snoc)
qed

lemma fold_visit_site:
  "fold (visit_site bits 3) cs (px_after bits px ty done) =
     px_after bits px ty (done @ first_calls (set (map (fst \<circ> snd) done)) cs)"
proof (induction cs arbitrary: "done")
  case (Cons c cs)
  obtain x g t where c: "c = (x, g, t)" by (cases c) auto
  show ?case by (simp add: c visit_site_after Cons)
qed simp

lemma fold_visit_func:
  "\<forall>f \<in> set fs. f_id f \<noteq> px \<Longrightarrow>
   fold (visit_func bits px sw) fs s = fold (visit_site bits sw) (concat (map func_candidates fs)) s"
  by (induction fs arbitrary: s) (simp_all add: visit_func_sites)

section \<open>One rewritten call\<close>

lemma rewrite_call_next [simp]: "f_next (rewrite_call px ty x n t f) = f_next f + 2"
  and rewrite_call_frame [simp]: "f_id (rewrite_call px ty x n t f) = f_id f"
  by (simp_all add: rewrite_call_def Let_def)

lemma set_called_operand_id [simp]: "i_id (i\<lparr>i_kind := k\<rparr>) = i_id i"
  by simp

lemma wf_rewrite_call: "wf_func f \<Longrightarrow> wf_func (rewrite_call px ty x n t f)"
  unfolding rewrite_call_def Let_def by (intro wf_func_upd_inst wf_func_new_before) simp_all

text \<open>The call gets a new callee, two new instructions appear, no other instruction changes.\<close>

lemma find_inst_rewrite_call:
  assumes "wf_func f" and "find_inst f x = Some i"
  shows "find_inst (rewrite_call px ty x n t f) y =
    (if y = f_next f
     then Some (mk_inst (f_next f) (Call ty [ConstInt n] (FuncVal (Fn px) ty)) void_ptr '''')
     else if y = Suc (f_next f)
     then Some (mk_inst (Suc (f_next f)) (BitCast (InstVal (f_next f))) (PtrTy t) '''')
     else if y = x
     then Some (i\<lparr>i_kind := set_called_operand (InstVal (Suc (f_next f))) (i_kind i)\<rparr>)
     else find_inst f y)"
proof -
  let ?f1 = "new_before x (Call ty [ConstInt n] (FuncVal (Fn px) ty)) void_ptr f"
  let ?f2 = "new_before x (BitCast (InstVal (f_next f))) (PtrTy t) ?f1"
  have x: "x \<in> i_id ` set (func_insts f)" "x < f_next f"
    using find_inst_Some[OF assms(2)] find_inst_less[OF assms] by auto
  have wf1: "wf_func ?f1" by (rule wf_func_new_before[OF assms(1)])
  have x1: "x \<in> i_id ` set (func_insts ?f1)"
    using x by (auto simp: func_insts_new_before[OF assms(1)] set_ins_before)
  have "find_inst ?f2 y =
      (if y = Suc (f_next f) then Some (mk_inst (Suc (f_next f)) (BitCast (InstVal (f_next f))) (PtrTy t) '''')
       else if y = f_next f then Some (mk_inst (f_next f) (Call ty [ConstInt n] (FuncVal (Fn px) ty)) void_ptr '''')
       else find_inst f y)"
    using x x1 by (simp add: find_inst_new_before[OF wf1] find_inst_new_before[OF assms(1)])
  then show ?thesis
    using x(2) assms(2) by (auto simp: rewrite_call_def Let_def find_inst_upd_inst)
qed

text \<open>
  An instruction that was \<open>i\<close> and now calls a pointer that is cast from the result of a call of the
  prize exchange with the number \<open>n\<close>.
\<close>

definition linked :: "nat \<Rightarrow> ir_type \<Rightarrow> ir_func \<Rightarrow> ir_inst \<Rightarrow> cint \<Rightarrow> bool" where
  "linked px ty f i n \<longleftrightarrow>
     (\<exists>b c bi ci. find_inst f (i_id i) = Some (i\<lparr>i_kind := set_called_operand (InstVal b) (i_kind i)\<rparr>)
        \<and> find_inst f b = Some bi \<and> i_kind bi = BitCast (InstVal c)
        \<and> find_inst f c = Some ci \<and> i_kind ci = Call ty [ConstInt n] (FuncVal (Fn px) ty))"

abbreviation rewrite_one :: "nat \<Rightarrow> ir_type \<Rightarrow> prize \<Rightarrow> ir_func \<Rightarrow> ir_func" where
  "rewrite_one px ty p \<equiv> rewrite_call px ty (snd (fst p)) (fst (snd p)) (snd (snd p))"

abbreviation prize_inst :: "prize \<Rightarrow> nat" where
  "prize_inst p \<equiv> snd (fst p)"

lemma rewrite_fold_keep:
  assumes "wf_func f" and "\<forall>p \<in> set ps. \<exists>i. find_inst f (prize_inst p) = Some i"
    and "y < f_next f" and "y \<notin> prize_inst ` set ps"
  shows "wf_func (fold (rewrite_one px ty) ps f)
    \<and> f_next f \<le> f_next (fold (rewrite_one px ty) ps f)
    \<and> find_inst (fold (rewrite_one px ty) ps f) y = find_inst f y"
  using assms
proof (induction ps arbitrary: f)
  case (Cons p ps)
  obtain i where i: "find_inst f (prize_inst p) = Some i" using Cons.prems(2) by auto
  note find = find_inst_rewrite_call[OF Cons.prems(1) i]
  let ?f = "rewrite_one px ty p f"
  have "\<forall>q \<in> set ps. \<exists>i. find_inst ?f (prize_inst q) = Some i"
    using Cons.prems(2) by (auto simp: find)
  then have IH: "wf_func (fold (rewrite_one px ty) ps ?f)
      \<and> f_next ?f \<le> f_next (fold (rewrite_one px ty) ps ?f)
      \<and> find_inst (fold (rewrite_one px ty) ps ?f) y = find_inst ?f y"
    using Cons.prems by (intro Cons.IH wf_rewrite_call) auto
  moreover have "find_inst ?f y = find_inst f y"
    using Cons.prems(3,4) by (simp add: find)
  ultimately show ?case by simp
qed simp

lemma rewrite_fold_linked:
  assumes wf: "wf_func f" and ps: "\<forall>p \<in> set ps. \<exists>i. find_inst f (prize_inst p) = Some i"
    and dist: "distinct (map prize_inst ps)" and p: "p \<in> set ps" and i: "find_inst f (prize_inst p) = Some i"
  shows "linked px ty (fold (rewrite_one px ty) ps f) i (fst (snd p))"
proof -
  obtain qs rs where split: "ps = qs @ p # rs" using p by (meson split_list)
  let ?x = "prize_inst p"
  let ?g = "fold (rewrite_one px ty) qs f"
  let ?h = "rewrite_one px ty p ?g"
  let ?k = "fold (rewrite_one px ty) rs ?h"
  have less: "y < f_next f" if "find_inst f y = Some j" for y j by (rule find_inst_less[OF wf that])
  have keep: "wf_func ?g" "f_next f \<le> f_next ?g" "find_inst ?g y = find_inst f y"
    if "y < f_next f" "y \<notin> prize_inst ` set qs" for y
    using rewrite_fold_keep[OF wf _ that] ps by (auto simp: split)
  have x: "?x < f_next f" "?x \<notin> prize_inst ` set qs" "?x \<notin> prize_inst ` set rs"
    using less[OF i] dist by (auto simp: split)
  have g: "wf_func ?g" "f_next f \<le> f_next ?g" "find_inst ?g ?x = Some i" using keep[OF x(1,2)] i by auto
  note find = find_inst_rewrite_call[OF g(1,3)]
  have later: "\<forall>q \<in> set rs. \<exists>j. find_inst ?h (prize_inst q) = Some j"
  proof
    fix q assume q: "q \<in> set rs"
    obtain j where j: "find_inst f (prize_inst q) = Some j" using ps q by (auto simp: split)
    have "prize_inst q \<notin> prize_inst ` set qs" using dist q by (auto simp: split)
    then have "find_inst ?g (prize_inst q) = Some j" using keep(3)[OF less[OF j]] j by simp
    then show "\<exists>j. find_inst ?h (prize_inst q) = Some j" by (auto simp: find)
  qed
  have small: "y < f_next f" if "y \<in> prize_inst ` set rs" for y
    using that ps less by (force simp: split)
  have final: "find_inst ?k y = find_inst ?h y"
    if "y \<notin> prize_inst ` set rs" "y < f_next ?g + 2" for y
    using rewrite_fold_keep[OF wf_rewrite_call[OF g(1)] later, of y] that by simp
  have id: "i_id i = ?x" using find_inst_Some[OF i] by simp
  have "find_inst ?k ?x = find_inst ?h ?x" using x g(2) by (intro final) auto
  moreover have "find_inst ?k (f_next ?g) = find_inst ?h (f_next ?g)"
    using small[of "f_next ?g"] g(2) by (intro final) linarith+
  moreover have "find_inst ?k (Suc (f_next ?g)) = find_inst ?h (Suc (f_next ?g))"
    using small[of "Suc (f_next ?g)"] g(2) by (intro final) linarith+
  ultimately have "linked px ty ?k i (fst (snd p))"
    using x(1) g(2) unfolding linked_def id
    by (intro exI[of _ "Suc (f_next ?g)"] exI[of _ "f_next ?g"]) (simp add: find)
  then show ?thesis by (simp add: split)
qed

section \<open>The whole pass\<close>

definition prizes_of :: "ir_module \<Rightarrow> prize list" where
  "prizes_of m = numbered (m_intptr_bits m) (first_calls {} (candidates m))"

definition final_px :: "ir_module \<Rightarrow> ir_func" where
  "final_px m = px_built (m_intptr_bits m) (m_next m) (px_type m)
     (map snd (first_calls {} (candidates m)))"

lemma px_built_frame [simp]: "f_id (px_built bits px ty ps) = px" "f_type (px_built bits px ty ps) = ty"
  by (simp_all add: px_built_def mk_func_def)

lemma wf_module_px: "wf_module m \<Longrightarrow> f \<in> set (m_funcs m) \<Longrightarrow> f_id f \<noteq> m_next m"
  by (auto simp: wf_module_def)

lemma visit_px: "f_id f = px \<Longrightarrow> visit_func bits px sw f s = s"
  by (simp add: visit_func_def)

lemma numbered_Nil: "numbered bits [] = []"
  by (simp add: numbered_def)

text \<open>On a module without a prize exchange the pass succeeds, and its result is known.\<close>

lemma pachinko_fresh:
  assumes wf: "wf_module m" and new: "map_of (m_named_md m) ''prize.exchange'' = None"
  obtains m' where "pachinko_calls ord m = Inr (m', PA_none)"
    "\<And>g. find_func m' g = map_option
        (fold (rewrite_one (m_next m) (px_type m)) (filter (\<lambda>p. fst (fst p) = g) (ord (prizes_of m))))
        (if g = m_next m then Some (final_px m) else find_func m g)"
    "map_of (m_named_md m') ''prize.exchange'' =
       Some [MDTuple [ValueAsMD (FuncVal (Fn (m_next m)) (px_type m))]]"
proof -
  let ?px = "m_next m" and ?ty = "px_type m" and ?bits = "m_intptr_bits m"
  define md where "md = AList.update ''prize.exchange''
    [MDTuple [ValueAsMD (FuncVal (Fn ?px) ?ty)]] (m_named_md m @ [(''prize.exchange'', [])])"
  define m0 where "m0 = m\<lparr>m_funcs := m_funcs m @ [px_built ?bits ?px ?ty []], m_next := Suc ?px,
    m_named_md := md\<rparr>"
  let ?m1 = "upd_func ?px (\<lambda>_. final_px m) m0"
  let ?m' = "fold (rewrite_prize ?px ?ty) (ord (prizes_of m)) ?m1"
  have ty: "px_type (m\<lparr>m_named_md := xs\<rparr>) = ?ty" for xs by (simp add: px_type_def)
  have get: "get_or_create_px m = Inr (m0, Some (?px, 3))"
    by (simp add: get_or_create_px_def new create_px_built[of _ ?bits] ty m0_def md_def)
  have nopx: "\<forall>f \<in> set (m_funcs m). f_id f \<noteq> ?px" using wf by (auto simp: wf_module_def)
  then have notin: "?px \<notin> f_id ` set (m_funcs m)" by auto
  have find0: "find_func m0 g = (if g = ?px then Some (px_built ?bits ?px ?ty []) else find_func m g)" for g
    using notin at_id_None[of f_id ?px "m_funcs m"]
    by (auto simp: find_func_def m0_def at_id_append split: option.splits)
  have bits0: "m_intptr_bits m0 = ?bits" by (simp add: m0_def)
  have start: "\<lparr>px_func = px_built ?bits ?px ?ty [], mapped_funcs = [], call_prizes = []\<rparr>
      = px_after ?bits ?px ?ty []"
    by (simp add: px_after_def numbered_Nil)
  have fold0: "fold (visit_func ?bits ?px 3) (m_funcs m0)
      \<lparr>px_func = px_built ?bits ?px ?ty [], mapped_funcs = [], call_prizes = []\<rparr>
      = px_after ?bits ?px ?ty (first_calls {} (candidates m))"
    unfolding start using fold_visit_func[OF nopx] fold_visit_site[of ?bits "candidates m" ?px ?ty "[]"]
    by (simp add: m0_def visit_px candidates_def)
  have "pachinko_calls ord m = Inr (?m', PA_none)"
    unfolding pachinko_calls_def get
    by (simp add: find0 bits0 fold0 Let_def px_after_def prizes_of_def final_px_def)
  moreover have "find_func ?m' g = map_option
      (fold (rewrite_one ?px ?ty) (filter (\<lambda>p. fst (fst p) = g) (ord (prizes_of m)))) (find_func ?m1 g)" for g
  proof -
    have "rewrite_prize ?px ?ty = (\<lambda>p. upd_func (fst (fst p)) (rewrite_one ?px ?ty p))"
      by (auto simp: rewrite_prize_def fun_eq_iff)
    then show ?thesis by (simp add: find_func_fold)
  qed
  moreover have "find_func ?m1 g = (if g = ?px then Some (final_px m) else find_func m g)" for g
  proof -
    have "find_func ?m1 g = (if ?px = g then map_option (\<lambda>_. final_px m) (find_func m0 g) else find_func m0 g)"
      using notin at_id_None[of f_id ?px "m_funcs m"]
      by (auto simp: find_func_def m0_def upd_func_def upd_at_notin at_id_append final_px_def
          split: option.splits)
    then show ?thesis by (simp add: find0)
  qed
  moreover have "map_of (m_named_md ?m') ''prize.exchange'' = Some [MDTuple [ValueAsMD (FuncVal (Fn ?px) ?ty)]]"
  proof -
    have "m_named_md (fold (rewrite_prize ?px ?ty) ps x) = m_named_md x" for ps x
      by (induction ps arbitrary: x) (auto simp: rewrite_prize_def upd_func_def)
    then show ?thesis by (simp add: upd_func_def m0_def md_def update_conv')
  qed
  ultimately show ?thesis using that by simp
qed

text \<open>The numbered calls of a function of the module, where \<open>ord\<close> reorders them.\<close>

lemma candidate_site:
  assumes wf: "wf_module m" and f: "f \<in> set (m_funcs m)" and e: "((f_id f, x), g, t) \<in> set (candidates m)"
  shows "\<not> is_declaration f \<and> \<not> f_optnone f \<and>
    (\<exists>i \<in> set (func_insts f). i_id i = x \<and> candidate_callee (f_id f) (i_kind i) = Some (g, t))"
proof -
  obtain f' where f': "f' \<in> set (m_funcs m)" "((f_id f, x), g, t) \<in> set (func_candidates f')"
    using e by (auto simp: candidates_def)
  then have "f_id f' = f_id f" by (auto simp: func_candidates_def map_filter_def split: if_splits)
  then have "f' = f" using wf f f'(1) unfolding wf_module_def by (metis find_func_member option.inject)
  with f'(2) show ?thesis by (auto simp: func_candidates_def map_filter_def split: if_splits)
qed

lemma func_candidates_distinct:
  assumes "wf_func f"
  shows "distinct (map fst (func_candidates f))"
proof -
  let ?h = "\<lambda>i. map_option (Pair (f_id f, i_id i)) (candidate_callee (f_id f) (i_kind i))"
  have *: "fst ` set (List.map_filter ?h is) \<subseteq> Pair (f_id f) ` i_id ` set is" for "is"
    by (auto simp: map_filter_def)
  have "distinct (map i_id is) \<Longrightarrow> distinct (map fst (List.map_filter ?h is))" for "is"
  proof (induction "is")
    case (Cons i "is")
    then show ?case using *[of "is"] by (fastforce simp: map_filter_simps split: option.splits)
  qed (simp add: map_filter_simps)
  from this[OF wf_func_distinct[OF assms]] show ?thesis
    by (simp add: func_candidates_def map_filter_simps)
qed

lemma candidates_distinct:
  assumes "wf_module m"
  shows "distinct (map fst (candidates m))"
proof -
  have sub: "x \<in> fst ` set (func_candidates f) \<Longrightarrow> fst x = f_id f" for x f
    by (auto simp: func_candidates_def map_filter_def split: if_splits)
  have "distinct (map f_id fs) \<Longrightarrow> \<forall>f \<in> set fs. wf_func f \<Longrightarrow>
      distinct (map fst (concat (map func_candidates fs)))" for fs
  proof (induction fs)
    case (Cons f fs)
    have "fst ` set (func_candidates f) \<inter> fst ` set (concat (map func_candidates fs)) = {}"
    proof (rule ccontr)
      assume "\<not> ?thesis"
      then obtain x h where "x \<in> fst ` set (func_candidates f)" "h \<in> set fs" "x \<in> fst ` set (func_candidates h)"
        by auto
      then have "f_id f = f_id h" using sub by metis
      with \<open>h \<in> set fs\<close> Cons.prems(1) show False by auto
    qed
    with Cons func_candidates_distinct[of f] show ?case by simp
  qed simp
  then show ?thesis using assms by (simp add: wf_module_def candidates_def)
qed

lemma numbered_sites: "map fst (numbered bits cs) = map fst cs"
  by (rule nth_equalityI) (simp_all add: numbered_def)

lemma in_numbered:
  "p \<in> set (numbered bits cs) \<longleftrightarrow>
   (\<exists>k < length cs. p = (fst (cs ! k), cint_get bits (of_nat k), snd (snd (cs ! k))))"
  by (auto simp: numbered_def)

text \<open>
  What the operand of a call stands for: the value itself, or, where it is a cast of what the prize
  exchange returns for a number, the value the exchange returns.
\<close>

definition resolve :: "nat \<Rightarrow> ir_func \<Rightarrow> ir_func \<Rightarrow> ir_value \<Rightarrow> ir_value option" where
  "resolve px pxFunc f v =
     (case v of
        InstVal b \<Rightarrow>
          (case map_option i_kind (find_inst f b) of
             Some (BitCast (InstVal c)) \<Rightarrow>
               (case map_option i_kind (find_inst f c) of
                  Some (Call ty [ConstInt n] (FuncVal (Fn g) ty')) \<Rightarrow>
                    if g = px then px_result pxFunc n else None
                | _ \<Rightarrow> None)
           | _ \<Rightarrow> None)
      | _ \<Rightarrow> None)"

lemma linked_resolves:
  assumes "linked px ty f i n" and "call_parts (i_kind i) = Some (t, as, c)"
  shows "\<exists>i' c'. find_inst f (i_id i) = Some i' \<and> call_parts (i_kind i') = Some (t, as, c')
    \<and> resolve px pxFunc f c' = px_result pxFunc n"
proof -
  obtain b a bi ai where l: "find_inst f (i_id i) = Some (i\<lparr>i_kind := set_called_operand (InstVal b) (i_kind i)\<rparr>)"
    "find_inst f b = Some bi" "i_kind bi = BitCast (InstVal a)"
    "find_inst f a = Some ai" "i_kind ai = Call ty [ConstInt n] (FuncVal (Fn px) ty)"
    using assms(1) by (auto simp: linked_def)
  have "call_parts (set_called_operand (InstVal b) (i_kind i)) = Some (t, as, InstVal b)"
    using assms(2) by (cases "i_kind i") auto
  then show ?thesis using l by (intro exI[of _ "i\<lparr>i_kind := set_called_operand (InstVal b) (i_kind i)\<rparr>"]
      exI[of _ "InstVal b"]) (simp add: resolve_def)
qed

lemma candidate_calleeD:
  "candidate_callee h k = Some (g, t) \<Longrightarrow> \<exists>as. call_parts k = Some (t, as, FuncVal (Fn g) t)"
  by (auto simp: candidate_callee_def called_function_Some split: option.splits fn_id.splits if_splits)

text \<open>The result of the pass, call by call.\<close>

lemma pachinko_calls_inst:
  assumes wf: "wf_module m" and new: "map_of (m_named_md m) ''prize.exchange'' = None"
    and ord: "reordering ord"
  shows "\<exists>m'. pachinko_calls ord m = Inr (m', PA_none) \<and> find_func m' (m_next m) = Some (final_px m) \<and>
    (\<forall>f \<in> set (m_funcs m). \<exists>f'. find_func m' (f_id f) = Some f' \<and>
       (\<forall>i \<in> set (func_insts f).
          (\<forall>p \<in> set (prizes_of m). fst p = (f_id f, i_id i) \<longrightarrow> linked (m_next m) (px_type m) f' i (fst (snd p))) \<and>
          ((f_id f, i_id i) \<notin> fst ` set (prizes_of m) \<longrightarrow> find_inst f' (i_id i) = Some i)))"
proof -
  let ?px = "m_next m" and ?ty = "px_type m"
  let ?ps = "\<lambda>g. filter (\<lambda>p. fst (fst p) = g) (ord (prizes_of m))"
  obtain m' where run: "pachinko_calls ord m = Inr (m', PA_none)"
    and find: "\<And>g. find_func m' g = map_option (fold (rewrite_one ?px ?ty) (?ps g))
      (if g = ?px then Some (final_px m) else find_func m g)"
    using pachinko_fresh[OF wf new, of ord] by blast
  have sites: "fst ` set (prizes_of m) \<subseteq> fst ` set (candidates m)"
    using set_first_calls[of "{}" "candidates m"] numbered_sites[of "m_intptr_bits m" "first_calls {} (candidates m)"]
    unfolding prizes_of_def by (metis image_mono list.set_map)
  have set_ord: "set (ord (prizes_of m)) = set (prizes_of m)" by (rule reordering_set[OF ord])
  have "distinct (map fst (prizes_of m))"
    unfolding prizes_of_def numbered_sites using candidates_distinct[OF wf] by (rule first_calls_distinct)
  moreover have "mset (map fst (ord (prizes_of m))) = mset (map fst (prizes_of m))"
    using ord by (simp add: reordering_def)
  ultimately have dist: "distinct (map fst (ord (prizes_of m)))"
    using mset_eq_imp_distinct_iff by blast
  have "fst p \<noteq> ?px" if "p \<in> fst ` set (candidates m)" for p
    using that wf by (force simp: candidates_def func_candidates_def map_filter_def wf_module_def split: if_splits)
  then have "?ps ?px = []" using sites set_ord by (force simp: filter_empty_conv)
  then have 1: "find_func m' ?px = Some (final_px m)" using find by simp
  have 2: "\<exists>f'. find_func m' (f_id f) = Some f' \<and>
       (\<forall>i \<in> set (func_insts f).
          (\<forall>p \<in> set (prizes_of m). fst p = (f_id f, i_id i) \<longrightarrow> linked ?px ?ty f' i (fst (snd p))) \<and>
          ((f_id f, i_id i) \<notin> fst ` set (prizes_of m) \<longrightarrow> find_inst f' (i_id i) = Some i))"
    if f: "f \<in> set (m_funcs m)" for f
  proof -
    let ?rs = "?ps (f_id f)"
    have wff: "wf_func f" using wf f by (simp add: wf_module_def)
    have ff: "find_func m (f_id f) = Some f" using wf f by (simp add: wf_module_def find_func_member)
    have here: "\<forall>p \<in> set ?rs. \<exists>i. find_inst f (prize_inst p) = Some i"
    proof
      fix p assume "p \<in> set ?rs"
      then have "p \<in> set (prizes_of m)" "fst (fst p) = f_id f" using set_ord by auto
      then obtain g t where "((f_id f, prize_inst p), g, t) \<in> set (candidates m)" using sites by force
      from candidate_site[OF wf f this] show "\<exists>i. find_inst f (prize_inst p) = Some i"
        using find_inst_member[OF wff] by metis
    qed
    have drs: "distinct (map prize_inst ?rs)"
    proof -
      have "distinct (map fst ?rs)" using dist by (rule distinct_map_filter)
      then have "distinct (map snd (map fst ?rs))"
        by (subst distinct_map) (auto simp: inj_on_def)
      then show ?thesis by (simp add: comp_def)
    qed
    have "linked ?px ?ty (fold (rewrite_one ?px ?ty) ?rs f) i (fst (snd p))"
      if "i \<in> set (func_insts f)" "p \<in> set (prizes_of m)" "fst p = (f_id f, i_id i)" for i p
      using that set_ord find_inst_member[OF wff that(1)]
      by (intro rewrite_fold_linked[OF wff here drs]) auto
    moreover have "find_inst (fold (rewrite_one ?px ?ty) ?rs f) (i_id i) = Some i"
      if i: "i \<in> set (func_insts f)" and no: "(f_id f, i_id i) \<notin> fst ` set (prizes_of m)" for i
    proof -
      have "i_id i \<notin> prize_inst ` set ?rs" using no set_ord by force
      moreover have "find_inst f (i_id i) = Some i" by (rule find_inst_member[OF wff i])
      ultimately show ?thesis using rewrite_fold_keep[OF wff here find_inst_less[OF wff]] by simp
    qed
    ultimately show ?thesis using find[of "f_id f"] ff wf_module_px[OF wf f] by auto
  qed
  from run 1 2 show ?thesis by blast
qed

lemma prize_resolves:
  assumes p: "((h, x), n, t) \<in> set (prizes_of m)"
    and room: "card (set (direct_callees m)) \<le> 2 ^ m_intptr_bits m" "m_intptr_bits m \<le> 64"
  obtains g where "((h, x), g, t) \<in> set (candidates m)"
    "px_result (final_px m) n = Some (FuncVal (Fn g) t)"
proof -
  let ?cs = "first_calls {} (candidates m)"
  obtain k where k: "k < length ?cs" "((h, x), n, t) =
      (fst (?cs ! k), cint_get (m_intptr_bits m) (of_nat k), snd (snd (?cs ! k)))"
    using p by (auto simp: prizes_of_def in_numbered)
  have "length ?cs = card (set (direct_callees m))"
    using first_calls_callees[of "{}" "candidates m"]
    by (metis Diff_empty direct_callees_def distinct_card length_map list.set_map)
  then have "length ?cs \<le> 2 ^ m_intptr_bits m" using room(1) by simp
  then have "px_result (final_px m) n =
      Some (FuncVal (Fn (fst (map snd ?cs ! k))) (snd (map snd ?cs ! k)))"
    using k px_result_built[of k "map snd ?cs" "m_intptr_bits m"] room(2) by (simp add: final_px_def)
  moreover have "((h, x), fst (snd (?cs ! k)), t) \<in> set (candidates m)"
    using k nth_mem[OF k(1)] set_first_calls[of "{}" "candidates m"] by (metis fst_conv prod.collapse snd_conv subsetD)
  ultimately show ?thesis using that k by simp
qed

text \<open>A call after the pass: as it was, or through a pointer that resolves to the old callee.\<close>

lemma call_kept:
  assumes wf: "wf_module m" and small: "card (set (direct_callees m)) \<le> 2 ^ m_intptr_bits m" and bits: "m_intptr_bits m \<le> 64"
    and f: "f \<in> set (m_funcs m)" and i: "i \<in> set (func_insts f)" and c: "call_parts (i_kind i) = Some (t, as, c)"
    and l: "\<forall>p \<in> set (prizes_of m). fst p = (f_id f, i_id i) \<longrightarrow> linked (m_next m) (px_type m) f' i (fst (snd p))"
    and u: "(f_id f, i_id i) \<notin> fst ` set (prizes_of m) \<longrightarrow> find_inst f' (i_id i) = Some i"
  shows "\<exists>i' c'. find_inst f' (i_id i) = Some i' \<and> call_parts (i_kind i') = Some (t, as, c') \<and>
      (c' = c \<or> resolve (m_next m) (final_px m) f' c' = Some c)"
proof (cases "(f_id f, i_id i) \<in> fst ` set (prizes_of m)")
  case True
  then obtain n u where p: "((f_id f, i_id i), n, u) \<in> set (prizes_of m)" by force
  obtain g where g: "((f_id f, i_id i), g, u) \<in> set (candidates m)"
    "px_result (final_px m) n = Some (FuncVal (Fn g) u)"
    using prize_resolves[OF p small bits] .
  obtain j where j: "j \<in> set (func_insts f)" "i_id j = i_id i"
    "candidate_callee (f_id f) (i_kind j) = Some (g, u)"
    using candidate_site[OF wf f g(1)] by auto
  have "wf_func f" using wf f by (simp add: wf_module_def)
  then have "j = i" using inst_eq_by_id i j(1,2) by blast
  with j(3) c have "c = FuncVal (Fn g) u" by (auto dest: candidate_calleeD)
  with linked_resolves[OF _ c, of "m_next m" "px_type m" f' n "final_px m"] l p g(2) show ?thesis by fastforce
next
  case False
  with u c show ?thesis by auto
qed

text \<open>
  C8: Every call keeps its callee. After the pass ran on a module that has no prize exchange yet,
  whatever the traversal order of the call map: each call of each function is still a call with the
  same type and arguments, and its called operand is either unchanged or a pointer that the prize
  exchange returns and that is the old callee. The number of direct callees has to fit the pointer
  width.
\<close>

theorem pachinko_calls_keeps_callees:
  assumes "wf_module m" and "map_of (m_named_md m) ''prize.exchange'' = None" and "reordering ord"
    and "card (set (direct_callees m)) \<le> 2 ^ m_intptr_bits m" and "m_intptr_bits m \<le> 64"
  shows "\<exists>m' pxFunc. pachinko_calls ord m = Inr (m', PA_none) \<and> find_func m' (m_next m) = Some pxFunc \<and>
    (\<forall>f \<in> set (m_funcs m). \<exists>f'. find_func m' (f_id f) = Some f' \<and>
       (\<forall>i \<in> set (func_insts f). \<forall>t as c. call_parts (i_kind i) = Some (t, as, c) \<longrightarrow>
          (\<exists>i' c'. find_inst f' (i_id i) = Some i' \<and> call_parts (i_kind i') = Some (t, as, c') \<and>
             (c' = c \<or> resolve (m_next m) pxFunc f' c' = Some c))))"
proof -
  obtain m' where run: "pachinko_calls ord m = Inr (m', PA_none)" "find_func m' (m_next m) = Some (final_px m)"
    and insts: "\<forall>f \<in> set (m_funcs m). \<exists>f'. find_func m' (f_id f) = Some f' \<and>
       (\<forall>i \<in> set (func_insts f).
          (\<forall>p \<in> set (prizes_of m). fst p = (f_id f, i_id i) \<longrightarrow> linked (m_next m) (px_type m) f' i (fst (snd p))) \<and>
          ((f_id f, i_id i) \<notin> fst ` set (prizes_of m) \<longrightarrow> find_inst f' (i_id i) = Some i))"
    using pachinko_calls_inst[OF assms(1-3)] by blast
  have "\<exists>f'. find_func m' (f_id f) = Some f' \<and>
       (\<forall>i \<in> set (func_insts f). \<forall>t as c. call_parts (i_kind i) = Some (t, as, c) \<longrightarrow>
          (\<exists>i' c'. find_inst f' (i_id i) = Some i' \<and> call_parts (i_kind i') = Some (t, as, c') \<and>
             (c' = c \<or> resolve (m_next m) (final_px m) f' c' = Some c)))"
    if f: "f \<in> set (m_funcs m)" for f
  proof -
    from bspec[OF insts f] obtain f' where f': "find_func m' (f_id f) = Some f'"
      "\<forall>i \<in> set (func_insts f).
          (\<forall>p \<in> set (prizes_of m). fst p = (f_id f, i_id i) \<longrightarrow> linked (m_next m) (px_type m) f' i (fst (snd p))) \<and>
          ((f_id f, i_id i) \<notin> fst ` set (prizes_of m) \<longrightarrow> find_inst f' (i_id i) = Some i)"
      by (elim exE conjE)
    show ?thesis
      by (rule exI[of _ f'], rule conjI, rule f'(1), intro ballI allI impI, rule call_kept[OF assms(1,4,5) f], assumption+)
        (use f'(2) in blast)+
  qed
  with run show ?thesis by blast
qed

text \<open>A caller of the same function twice, in a module with a pointer width of 64 bits.\<close>

definition demo_module :: ir_module where
  "demo_module =
     (let t = FuncTy VoidTy [] False;
          call = Call t [] (FuncVal (Fn 1) t)
      in \<lparr>m_funcs = [mk_func 0 ''main'' t True
                      [mk_block 0 [mk_inst 1 call VoidTy '''', mk_inst 2 call VoidTy '''',
                                   mk_inst 3 (Ret None) VoidTy '''']] 4,
                     mk_func 1 ''g'' t True [] 0],
          m_globals = [], m_named_md = [], m_arch_bits = 64, m_intptr_bits = 64, m_next = 2\<rparr>)"

lemma demo_module_ok:
  "wf_module demo_module" "map_of (m_named_md demo_module) ''prize.exchange'' = None"
  "card (set (direct_callees demo_module)) \<le> 2 ^ m_intptr_bits demo_module" "m_intptr_bits demo_module \<le> 64"
  "candidates demo_module = [((0, 1), 1, FuncTy VoidTy [] False), ((0, 2), 1, FuncTy VoidTy [] False)]"
  by (simp_all add: demo_module_def wf_module_def wf_func_def fresh_ids_def func_insts_def mk_func_def
      mk_block_def Let_def direct_callees_def candidates_def func_candidates_def is_declaration_def
      func_empty_def map_filter_simps candidate_callee_def called_function_def)

theorem pachinko_calls_keeps_callees_witness:
  "\<exists>m' pxFunc. pachinko_calls rev demo_module = Inr (m', PA_none) \<and> find_func m' (m_next demo_module) = Some pxFunc \<and>
    (\<forall>f \<in> set (m_funcs demo_module). \<exists>f'. find_func m' (f_id f) = Some f' \<and>
       (\<forall>i \<in> set (func_insts f). \<forall>t as c. call_parts (i_kind i) = Some (t, as, c) \<longrightarrow>
          (\<exists>i' c'. find_inst f' (i_id i) = Some i' \<and> call_parts (i_kind i') = Some (t, as, c') \<and>
             (c' = c \<or> resolve (m_next demo_module) pxFunc f' c' = Some c))))"
  by (rule pachinko_calls_keeps_callees[OF demo_module_ok(1,2) reordering_rev demo_module_ok(3,4)])

lemma first_calls_nth:
  "distinct (map fst cs) \<Longrightarrow> k < length cs \<Longrightarrow>
   fst (cs ! k) \<in> fst ` set (first_calls seen cs) \<longleftrightarrow>
     fst (snd (cs ! k)) \<notin> seen \<and> fst (snd (cs ! k)) \<notin> set (map (fst \<circ> snd) (take k cs))"
proof (induction seen cs arbitrary: k rule: first_calls.induct)
  case (2 seen x g t cs)
  have later: "x \<notin> fst ` set (first_calls s cs)" for s
    using 2(3) set_first_calls[of s cs] by auto
  show ?case
  proof (cases k)
    case 0
    then show ?thesis using later by auto
  next
    case (Suc l)
    then have "fst (cs ! l) \<noteq> x" using 2(3,4) nth_mem by fastforce
    with Suc 2 show ?thesis by auto
  qed
qed simp

lemma linked_changes:
  assumes l: "linked px ty f' i n" and c: "call_parts (i_kind i) = Some (t, as, FuncVal (Fn g) t)"
  shows "find_inst f' (i_id i) \<noteq> Some i"
proof
  assume "find_inst f' (i_id i) = Some i"
  with l obtain b where "i = i\<lparr>i_kind := set_called_operand (InstVal b) (i_kind i)\<rparr>" by (auto simp: linked_def)
  then have "i_kind i = set_called_operand (InstVal b) (i_kind i)"
    by (metis ir_inst.select_convs(2) ir_inst.surjective ir_inst.update_convs(2))
  with c show False by (cases "i_kind i") auto
qed

lemma prize_iff_first:
  assumes "wf_module m" and "k < length (candidates m)" and "candidates m ! k = (s, g, t)"
  shows "s \<notin> fst ` set (prizes_of m) \<longleftrightarrow> g \<in> set (take k (direct_callees m))"
proof -
  have "fst ` set (prizes_of m) = fst ` set (first_calls {} (candidates m))"
    unfolding prizes_of_def by (metis list.set_map numbered_sites)
  then show ?thesis
    using first_calls_nth[OF candidates_distinct[OF assms(1)] assms(2), of "{}"] assms(3)
    by (simp add: direct_callees_def take_map)
qed

text \<open>
  C12: Only the first call of each callee is redirected. Among the calls the pass considers, in program
  order, a call is left as it is exactly where an earlier one has the same callee.
\<close>

theorem pachinko_calls_redirects_first_calls:
  assumes "wf_module m" and "map_of (m_named_md m) ''prize.exchange'' = None" and "reordering ord"
    and "k < length (candidates m)" and "candidates m ! k = ((h, x), g, t)"
  shows "\<exists>m' f f'. pachinko_calls ord m = Inr (m', PA_none) \<and> find_func m h = Some f \<and>
    find_func m' h = Some f' \<and>
    (find_inst f' x = find_inst f x \<longleftrightarrow> g \<in> set (take k (direct_callees m)))"
proof -
  have mem: "((h, x), g, t) \<in> set (candidates m)" using assms(4,5) by (metis nth_mem)
  then obtain f where f: "f \<in> set (m_funcs m)" "f_id f = h"
    by (fastforce simp: candidates_def func_candidates_def map_filter_def split: if_splits)
  obtain i where i: "i \<in> set (func_insts f)" "i_id i = x" "candidate_callee h (i_kind i) = Some (g, t)"
    using candidate_site[OF assms(1) f(1), of x g t] mem f(2) by auto
  have wff: "wf_func f" using assms(1) f(1) by (simp add: wf_module_def)
  have fx: "find_inst f x = Some i" using find_inst_member[OF wff i(1)] i(2) by simp
  obtain m' where run: "pachinko_calls ord m = Inr (m', PA_none)"
    and insts: "\<forall>f \<in> set (m_funcs m). \<exists>f'. find_func m' (f_id f) = Some f' \<and>
       (\<forall>i \<in> set (func_insts f).
          (\<forall>p \<in> set (prizes_of m). fst p = (f_id f, i_id i) \<longrightarrow> linked (m_next m) (px_type m) f' i (fst (snd p))) \<and>
          ((f_id f, i_id i) \<notin> fst ` set (prizes_of m) \<longrightarrow> find_inst f' (i_id i) = Some i))"
    using pachinko_calls_inst[OF assms(1-3)] by blast
  from bspec[OF insts f(1)] obtain f' where f': "find_func m' h = Some f'"
    and all: "\<forall>i \<in> set (func_insts f).
          (\<forall>p \<in> set (prizes_of m). fst p = (h, i_id i) \<longrightarrow> linked (m_next m) (px_type m) f' i (fst (snd p))) \<and>
          ((h, i_id i) \<notin> fst ` set (prizes_of m) \<longrightarrow> find_inst f' (i_id i) = Some i)"
    unfolding f(2) by (elim exE conjE)
  have at: "linked (m_next m) (px_type m) f' i (fst (snd p))" if "p \<in> set (prizes_of m)" "fst p = (h, x)" for p
    using bspec[OF all i(1)] that i(2) by simp
  have off: "find_inst f' x = Some i" if "(h, x) \<notin> fst ` set (prizes_of m)"
    using bspec[OF all i(1)] that i(2) by simp
  obtain as where c: "call_parts (i_kind i) = Some (t, as, FuncVal (Fn g) t)"
    using candidate_calleeD[OF i(3)] by blast
  have "find_inst f' x = find_inst f x \<longleftrightarrow> (h, x) \<notin> fst ` set (prizes_of m)"
    using linked_changes[OF at c] off fx i(2) by (metis imageE)
  also note prize_iff_first[OF assms(1,4,5)]
  finally show ?thesis using run f' find_func_member[of m f] assms(1) f by (auto simp: wf_module_def)
qed

theorem pachinko_calls_redirects_first_calls_witness:
  "\<exists>m' f f'. pachinko_calls rev demo_module = Inr (m', PA_none) \<and> find_func demo_module 0 = Some f \<and>
    find_func m' 0 = Some f' \<and>
    (find_inst f' 2 = find_inst f 2 \<longleftrightarrow> 1 \<in> set (take 1 (direct_callees demo_module)))"
  by (rule pachinko_calls_redirects_first_calls[OF demo_module_ok(1,2) reordering_rev])
    (simp_all add: demo_module_ok(5))

text \<open>
  C32: The pass cannot be run twice. The operand of the named metadata that the first run adds is an
  \<open>MDNode\<close>, which the second run does not recognise: it gets a null pointer for the prize exchange and
  reads its type through it.
\<close>

theorem pachinko_calls_second_run_fails:
  assumes "wf_module m" and "map_of (m_named_md m) ''prize.exchange'' = None"
  shows "\<exists>m'. pachinko_calls ord m = Inr (m', PA_none) \<and> pachinko_calls ord' m' = Inl NullDeref"
proof -
  obtain m' where "pachinko_calls ord m = Inr (m', PA_none)"
    "map_of (m_named_md m') ''prize.exchange'' = Some [MDTuple [ValueAsMD (FuncVal (Fn (m_next m)) (px_type m))]]"
    using pachinko_fresh[OF assms] by blast
  then show ?thesis by (auto simp: pachinko_calls_def get_or_create_px_def)
qed

theorem pachinko_calls_second_run_fails_witness:
  "\<exists>m'. pachinko_calls rev demo_module = Inr (m', PA_none) \<and> pachinko_calls rev m' = Inl NullDeref"
  by (rule pachinko_calls_second_run_fails[OF demo_module_ok(1,2)])

end
