(* ===== verification/Combined_Call_Site.thy ===== *)
theory Combined_Call_Site
  imports Metadata_Util Switch_Table
begin

text \<open>
  \<open>lib/passes/fuse-functions/combined-call-site.cpp\<close> and \<open>.h\<close>: the view of a call block that an
  earlier round of \<open>fuse-functions\<close> left in a function. Such a block loads the number of the block it
  was entered from and ends, after the inlined callee, in a switch on that number. The class finds
  these blocks again by their metadata, reads their tables, adds one more call to a block
  (\<open>combine_call\<close>) and merges one call block into another (\<open>combine\<close>).

  All operations work on the function that contains the block, which is the state here. \<open>ord\<close> is the
  order in which the use list of a value is traversed. \<open>BasicBlock::splitBasicBlock\<close> and
  \<open>DeleteDeadBlock\<close> are LLVM's: they are the parameters \<open>split\<close> and \<open>del_dead\<close>.
\<close>

section \<open>Names of the metadata\<close>

definition FuseFunctionName :: string where "FuseFunctionName = ''fuse.function''"
definition FuseFunctionStart :: string where "FuseFunctionStart = ''fuse.function.start''"
definition FuseFunctionEnd :: string where "FuseFunctionEnd = ''fuse.function.end''"
definition FuseFunctionArgIdx :: string where "FuseFunctionArgIdx = ''fuse.function.argidx''"
definition FuseFunctionRet :: string where "FuseFunctionRet = ''fuse.function.ret''"
definition FuseFunctionBlockId :: string where "FuseFunctionBlockId = ''fuse.function.blockid''"

text \<open>
  An argument index is attached as the bytes of a \<open>size_t\<close> and read back through a pointer into the
  string: eight bytes, the lowest first, on the 64-bit targets the passes are built for.
\<close>

definition argidx_bytes :: "64 word \<Rightarrow> string" where
  "argidx_bytes w = map (\<lambda>k. char_of (unat w div 256 ^ k mod 256)) [0..<8]"

fun le_value :: "string \<Rightarrow> nat" where
  "le_value [] = 0"
| "le_value (c # cs) = of_char c + 256 * le_value cs"

definition read_argidx :: "string \<Rightarrow> 64 word res" where
  "read_argidx s = (if length s < 8 then Inl BadIndex else Inr (of_nat (le_value (take 8 s))))"

section \<open>A combined call site\<close>

record combined_call_site =
  ccs_caller :: nat
  ccs_callee_name :: string
  ccs_switch :: nat    \<comment> \<open>\<open>return_switch_\<close>\<close>
  ccs_load :: nat      \<comment> \<open>\<open>parent_block_id_load_\<close>\<close>

type_synonym id_block_map = "(64 word \<times> nat) list"
type_synonym id_store_map = "(64 word \<times> nat) list"

text \<open>\<open>cast<LoadInst>\<close> and \<open>cast<AllocaInst>\<close> of a value.\<close>

definition cast_load :: "ir_func \<Rightarrow> ir_value \<Rightarrow> nat res" where
  "cast_load f v =
     (case v of
        InstVal x \<Rightarrow> rbind (get_inst f x) (\<lambda>i. case i_kind i of Load p \<Rightarrow> Inr x | _ \<Rightarrow> Inl BadCast)
      | _ \<Rightarrow> Inl BadCast)"

definition cast_alloca :: "ir_func \<Rightarrow> ir_value \<Rightarrow> nat res" where
  "cast_alloca f v =
     (case v of
        InstVal x \<Rightarrow> rbind (get_inst f x) (\<lambda>i. if is_alloca (i_kind i) then Inr x else Inl BadCast)
      | _ \<Rightarrow> Inl BadCast)"

definition is_switch :: "'v ikind \<Rightarrow> bool" where
  "is_switch k = (case k of Switch v d cs \<Rightarrow> True | _ \<Rightarrow> False)"

definition call_site_of_switch :: "ir_func \<Rightarrow> ir_inst \<Rightarrow> combined_call_site res" where
  "call_site_of_switch f i =
     rbind (rbind (get_metadata i FuseFunctionName) deref) (\<lambda>calleeName.
       case i_kind i of
         Switch v d cs \<Rightarrow>
           rmap (\<lambda>condLoad. \<lparr>ccs_caller = f_id f, ccs_callee_name = calleeName,
                              ccs_switch = i_id i, ccs_load = condLoad\<rparr>) (cast_load f v)
       | _ \<Rightarrow> Inl BadCast)"

definition find_combined_call_sites :: "ir_func \<Rightarrow> combined_call_site list res" where
  "find_combined_call_sites f =
     rconcat (\<lambda>i. rmap (\<lambda>s. [s]) (call_site_of_switch f i))
       (filter (\<lambda>i. is_switch (i_kind i)) (find_metadata_fn f FuseFunctionName))"

text \<open>\<open>results[name].push_back(site)\<close> on a \<open>DenseMap\<close> from names to vectors.\<close>

definition push_back :: "'k \<Rightarrow> 'v \<Rightarrow> ('k \<times> 'v list) list \<Rightarrow> ('k \<times> 'v list) list" where
  "push_back k v m = AList.update k ((case map_of m k of None \<Rightarrow> [] | Some vs \<Rightarrow> vs) @ [v]) m"

definition map_combined_call_sites :: "ir_func \<Rightarrow> (string \<times> combined_call_site list) list res" where
  "map_combined_call_sites f =
     rmap (\<lambda>sites. fold (\<lambda>s. push_back (ccs_callee_name s) s) (rev sites) [])
       (find_combined_call_sites f)"

section \<open>Reading a call site\<close>

definition switch_parts :: "ir_func \<Rightarrow> combined_call_site \<Rightarrow> (ir_value \<times> nat \<times> switch_cases) res" where
  "switch_parts f s =
     rbind (get_inst f (ccs_switch s)) (\<lambda>i.
       case i_kind i of Switch v d cs \<Rightarrow> Inr (v, d, cs) | _ \<Rightarrow> Inl BadCast)"

definition load_pointer :: "ir_func \<Rightarrow> combined_call_site \<Rightarrow> ir_value res" where
  "load_pointer f s =
     rbind (get_inst f (ccs_load s)) (\<lambda>i. case i_kind i of Load p \<Rightarrow> Inr p | _ \<Rightarrow> Inl BadCast)"

definition case_ids :: "switch_cases \<Rightarrow> 64 word list" where
  "case_ids cs = map (\<lambda>c. zext_value (fst c)) cs"

definition get_block_ids :: "ir_func \<Rightarrow> combined_call_site \<Rightarrow> 64 word list res" where
  "get_block_ids f s = rmap (\<lambda>(v, d, cs). case_ids cs) (switch_parts f s)"

text \<open>The largest number in use; all ones where there is none, so that the next one is 0.\<close>

fun max_id :: "64 word list \<Rightarrow> 64 word" where
  "max_id [] = - 1"
| "max_id (w # ws) = fold max ws w"

definition get_max_block_id :: "ir_func \<Rightarrow> combined_call_site \<Rightarrow> 64 word res" where
  "get_max_block_id f s = rmap max_id (get_block_ids f s)"

text \<open>
  The stores of a constant to the variable the number is loaded from, in the predecessors of the
  block that loads it: pairs of the constant, the store and its block.
\<close>

definition id_store :: "ir_func \<Rightarrow> nat \<Rightarrow> ir_inst \<Rightarrow> (64 word \<times> nat \<times> nat) option" where
  "id_store f loadBlock u =
     (case (i_kind u, parent_block f (i_id u)) of
        (Store (ConstInt c) p, Some storeBlock) \<Rightarrow>
          if b_id storeBlock \<in> set (predecessors f loadBlock)
          then Some (zext_value c, i_id u, b_id storeBlock) else None
      | _ \<Rightarrow> None)"

definition cond_users :: "(ir_inst list \<Rightarrow> ir_inst list) \<Rightarrow> ir_func \<Rightarrow> combined_call_site \<Rightarrow> (ir_inst list \<times> nat) res" where
  "cond_users ord f s =
     rbind (load_pointer f s) (\<lambda>p.
       case p of
         InstVal a \<Rightarrow> rmap (\<lambda>b. (ord (users f (InstVal a)), b_id b)) (get_parent f (ccs_load s))
       | _ \<Rightarrow> Inl BadCast)"

definition get_block_id_stores ::
  "(ir_inst list \<Rightarrow> ir_inst list) \<Rightarrow> ir_func \<Rightarrow> combined_call_site \<Rightarrow> id_store_map res" where
  "get_block_id_stores ord f s =
     rmap (\<lambda>(us, loadBlock).
       fold (\<lambda>u m. case id_store f loadBlock u of
                     None \<Rightarrow> m
                   | Some (w, st, b) \<Rightarrow> omap_emplace w st m) us [])
       (cond_users ord f s)"

definition get_block_id_pointer :: "ir_func \<Rightarrow> combined_call_site \<Rightarrow> nat option res" where
  "get_block_id_pointer f s =
     rmap (\<lambda>p. case cast_alloca f p of Inl e \<Rightarrow> None | Inr a \<Rightarrow> Some a) (load_pointer f s)"

definition get_branching_blocks ::
  "(ir_inst list \<Rightarrow> ir_inst list) \<Rightarrow> ir_func \<Rightarrow> combined_call_site \<Rightarrow> id_block_map res" where
  "get_branching_blocks ord f s =
     rmap (\<lambda>(us, loadBlock).
       fold (\<lambda>u m. case id_store f loadBlock u of
                     None \<Rightarrow> m
                   | Some (w, st, b) \<Rightarrow> omap_emplace w b m) us [])
       (cond_users ord f s)"

definition get_branching_block ::
  "(ir_inst list \<Rightarrow> ir_inst list) \<Rightarrow> ir_func \<Rightarrow> combined_call_site \<Rightarrow> 64 word \<Rightarrow> nat option res" where
  "get_branching_block ord f s blockId = rmap (\<lambda>m. map_of m blockId) (get_branching_blocks ord f s)"

definition get_return_blocks :: "ir_func \<Rightarrow> combined_call_site \<Rightarrow> id_block_map res" where
  "get_return_blocks f s =
     rmap (\<lambda>(v, d, cs). fold (\<lambda>c. omap_emplace (zext_value (fst c)) (snd c)) cs []) (switch_parts f s)"

definition get_return_block :: "ir_func \<Rightarrow> combined_call_site \<Rightarrow> 64 word \<Rightarrow> nat option res" where
  "get_return_block f s blockId = rmap (\<lambda>m. map_of m blockId) (get_return_blocks f s)"

section \<open>Arguments and return value\<close>

definition get_argument_pointers :: "ir_func \<Rightarrow> combined_call_site \<Rightarrow> (64 word \<times> nat) list res" where
  "get_argument_pointers f s =
     rfold (\<lambda>i m.
       rbind (get_metadata i FuseFunctionName) (\<lambda>nm.
         if nm = Some (ccs_callee_name s) then
           rbind (rbind (get_metadata i FuseFunctionArgIdx) deref) (\<lambda>argIdxStr.
             rbind (read_argidx argIdxStr) (\<lambda>argIdx.
               case i_kind i of
                 Load p \<Rightarrow> rmap (\<lambda>a. omap_assign argIdx a m) (cast_alloca f p)
               | _ \<Rightarrow> Inl BadCast))
         else Inr m))
       (find_metadata_fn f FuseFunctionArgIdx) []"

definition get_argument_pointer :: "ir_func \<Rightarrow> combined_call_site \<Rightarrow> 64 word \<Rightarrow> nat option res" where
  "get_argument_pointer f s argIdx = rmap (\<lambda>m. map_of m argIdx) (get_argument_pointers f s)"

text \<open>Is an instruction a store to a variable that holds the return value of the callee?\<close>

definition is_return_store :: "ir_func \<Rightarrow> string \<Rightarrow> ir_inst \<Rightarrow> bool res" where
  "is_return_store f calleeName i =
     (case i_kind i of
        Store v p \<Rightarrow>
          (case p of
             InstVal a \<Rightarrow>
               rbind (get_inst f a) (\<lambda>ai.
                 rmap (\<lambda>nm. nm = Some calleeName) (get_metadata ai FuseFunctionRet))
           | _ \<Rightarrow> Inl BadCast)
      | _ \<Rightarrow> Inr False)"

text \<open>The walk back from the switch, over \<open>getPrevNode\<close>, which stops at the front of the block.\<close>

fun walk_back :: "ir_func \<Rightarrow> string \<Rightarrow> nat \<Rightarrow> ir_inst list \<Rightarrow> nat option res" where
  "walk_back f calleeName front [] = Inr None"
| "walk_back f calleeName front (i # is) =
     (if i_id i = front then Inr None
      else rbind (is_return_store f calleeName i) (\<lambda>found.
             if found then Inr (Some (i_id i)) else walk_back f calleeName front is))"

definition get_return_store :: "ir_func \<Rightarrow> combined_call_site \<Rightarrow> nat option res" where
  "get_return_store f s =
     rbind (get_parent f (ccs_switch s)) (\<lambda>b.
       case b_insts b of
         [] \<Rightarrow> Inl NullDeref
       | blockFront # _ \<Rightarrow>
           walk_back f (ccs_callee_name s) (i_id blockFront)
             (rev (takeWhile (\<lambda>i. i_id i \<noteq> ccs_switch s) (b_insts b))))"

definition get_return_pointer :: "ir_func \<Rightarrow> combined_call_site \<Rightarrow> nat option res" where
  "get_return_pointer f s =
     rbind (get_return_store f s) (\<lambda>st.
       case st of
         None \<Rightarrow> Inr None
       | Some x \<Rightarrow>
           rbind (get_inst f x) (\<lambda>i.
             case i_kind i of Store v p \<Rightarrow> rmap Some (cast_alloca f p) | _ \<Rightarrow> Inl BadCast))"

section \<open>Adding a call to a call block\<close>

definition new_store :: "nat \<Rightarrow> ir_value \<Rightarrow> ir_value \<Rightarrow> ir_func \<Rightarrow> ir_func" where
  "new_store x v p f = new_before x (Store v p) VoidTy f"

definition new_load :: "nat \<Rightarrow> nat \<Rightarrow> ir_type \<Rightarrow> ir_func \<Rightarrow> ir_func" where
  "new_load x a t f = new_before x (Load (InstVal a)) t f"

fun set_successor0 :: "nat \<Rightarrow> ir_value ikind \<Rightarrow> ir_value ikind res" where
  "set_successor0 b (Br t) = Inr (Br b)"
| "set_successor0 b (CondBr c t e) = Inr (CondBr c b e)"
| "set_successor0 b k = Inl BadCast"

text \<open>
  The incoming values of a \<open>phi\<close>: those that are the call become a load at the end of the incoming
  block, one load for each block. The result is the list of the incoming values.
\<close>

fun load_incoming :: "nat \<Rightarrow> ir_type \<Rightarrow> nat option \<Rightarrow> (ir_value \<times> nat) list \<Rightarrow> (nat \<times> ir_value) list
    \<Rightarrow> ir_func \<Rightarrow> ((ir_value \<times> nat) list \<times> ir_func) res" where
  "load_incoming call t buf [] loads f = Inr ([], f)"
| "load_incoming call t buf ((v, b) # ins) loads f =
     (if v = InstVal call then
        (case map_of loads b of
           Some w \<Rightarrow> rmap (\<lambda>(ins', f'). ((w, b) # ins', f')) (load_incoming call t buf ins loads f)
         | None \<Rightarrow>
             rbind (get_terminator f b) (\<lambda>term.
               rbind (deref buf) (\<lambda>a.
                 let w = InstVal (f_next f)
                 in rmap (\<lambda>(ins', f'). ((w, b) # ins', f'))
                      (load_incoming call t buf ins ((b, w) # loads) (new_load (i_id term) a t f)))))
      else rmap (\<lambda>(ins', f'). ((v, b) # ins', f')) (load_incoming call t buf ins loads f))"

definition redirect_user :: "nat \<Rightarrow> ir_type \<Rightarrow> nat option \<Rightarrow> ir_inst \<Rightarrow> ir_func \<Rightarrow> ir_func res" where
  "redirect_user call t buf u f =
     (case i_kind u of
        Store v p \<Rightarrow> Inr (erase_inst (i_id u) f)
      | PHI ins \<Rightarrow>
          rmap (\<lambda>(ins', f'). set_kind (i_id u) (PHI ins') f') (load_incoming call t buf ins [] f)
      | k \<Rightarrow>
          rbind (deref buf) (\<lambda>a.
            Inr (set_kind (i_id u) (replace_uses (InstVal call) (InstVal (f_next f)) k)
                   (new_load (i_id u) a t f))))"

text \<open>
  \<open>while (!callInst.user_empty())\<close>: the fuel is the number of uses, of which each round removes at
  least one.
\<close>

fun redirect_users :: "(ir_inst list \<Rightarrow> ir_inst list) \<Rightarrow> nat \<Rightarrow> ir_type \<Rightarrow> nat option \<Rightarrow> nat \<Rightarrow> ir_func \<Rightarrow> ir_func res" where
  "redirect_users ord call t buf n f =
     (case ord (users f (InstVal call)) of
        [] \<Rightarrow> Inr f
      | u # us \<Rightarrow>
          (case n of
             0 \<Rightarrow> Inl OutOfFuel
           | Suc n' \<Rightarrow> rbind (redirect_user call t buf u f) (redirect_users ord call t buf n')))"

declare redirect_users.simps [simp del]

fun return_type :: "ir_type \<Rightarrow> ir_type" where
  "return_type (FuncTy r ps v) = r"
| "return_type t = t"

text \<open>The arguments are stored where the call block loads them; \<open>at\<close> throws where there is no entry.\<close>

definition store_arguments :: "(64 word \<times> nat) list \<Rightarrow> nat \<Rightarrow> ir_value list \<Rightarrow> ir_func \<Rightarrow> ir_func res" where
  "store_arguments argPtrMap call args f =
     (if argPtrMap = [] then Inr f
      else rfold (\<lambda>k g. case map_of argPtrMap (of_nat k) of
                          None \<Rightarrow> Inl Terminated
                        | Some a \<Rightarrow> Inr (new_store call (args ! k) (InstVal a) g))
             [0..<length args] f)"

text \<open>The part of \<open>combine_call\<close> after its guards.\<close>

type_synonym block_split = "nat \<Rightarrow> nat \<Rightarrow> string \<Rightarrow> ir_func \<Rightarrow> ir_func \<times> nat"

definition split_after :: "block_split \<Rightarrow> nat \<Rightarrow> ir_func \<Rightarrow> (ir_func \<times> nat) res" where
  "split_after split call f =
     rbind (get_parent f call) (\<lambda>parentBlock.
       rbind (next_inst parentBlock call) (\<lambda>nextInst.
         let (f1, retBlock) = split (b_id parentBlock) nextInst '''' f
         in rbind (get_terminator f1 (b_id parentBlock)) (\<lambda>callBranch.
              rmap (\<lambda>k. (set_kind (i_id callBranch) k f1, retBlock))
                (set_successor0 retBlock (i_kind callBranch)))))"

definition add_return_case :: "combined_call_site \<Rightarrow> cint \<Rightarrow> nat \<Rightarrow> ir_func \<Rightarrow> ir_func" where
  "add_return_case s c b f =
     upd_inst (ccs_switch s) (\<lambda>i. i\<lparr>i_kind := add_switch_case c b (i_kind i)\<rparr>) f"

definition combine_call_body ::
  "block_split \<Rightarrow> (ir_inst list \<Rightarrow> ir_inst list) \<Rightarrow> combined_call_site \<Rightarrow> (64 word \<times> nat) list
     \<Rightarrow> ir_inst \<Rightarrow> ir_type \<Rightarrow> ir_value list \<Rightarrow> ir_func \<Rightarrow> ir_func res" where
  "combine_call_body split ord s argPtrMap callInst calleeType args f =
     rbind (get_max_block_id f s) (\<lambda>maxId.
       let call = i_id callInst; blockIdConst = cint_get 32 (maxId + 1) in
       rbind (load_pointer f s) (\<lambda>p.
         rbind (store_arguments argPtrMap call args (new_store call (ConstInt blockIdConst) p f)) (\<lambda>f1.
           rbind (if users f1 (InstVal call) \<noteq> [] \<and> return_type calleeType \<noteq> VoidTy
                  then rbind (get_return_pointer f1 s) (\<lambda>returnBuffer.
                         redirect_users ord call (i_type callInst) returnBuffer
                           (length (users f1 (InstVal call))) f1)
                  else Inr f1) (\<lambda>f2.
             rbind (split_after split call f2) (\<lambda>(f3, retBlock).
               Inr (add_return_case s blockIdConst retBlock (erase_inst call f3)))))))"

text \<open>\<open>fname\<close> gives the names of the module's functions; the call is given by its function and address.\<close>

definition combine_call ::
  "block_split \<Rightarrow> (ir_inst list \<Rightarrow> ir_inst list) \<Rightarrow> (fn_id \<Rightarrow> string) \<Rightarrow> combined_call_site
     \<Rightarrow> nat \<times> nat \<Rightarrow> ir_func \<Rightarrow> (bool \<times> ir_func) res" where
  "combine_call split ord fname s callInst f =
     (if fst callInst \<noteq> ccs_caller s then Inr (False, f)
      else rbind (get_inst f (snd callInst)) (\<lambda>ci.
        case (called_function (i_kind ci), call_parts (i_kind ci)) of
          (Some callee, Some (t, args, c)) \<Rightarrow>
            if fname callee \<noteq> ccs_callee_name s then Inr (False, f)
            else rbind (get_argument_pointers f s) (\<lambda>argPtrMap.
              if length argPtrMap \<noteq> length args then Inr (False, f)
              else rmap (Pair True) (combine_call_body split ord s argPtrMap ci t args f))
        | _ \<Rightarrow> Inr (False, f)))"

section \<open>Merging a call block into another\<close>

text \<open>One branching block of the other site: its number, and where it goes, change.\<close>

definition merge_block_id :: "combined_call_site \<Rightarrow> combined_call_site \<Rightarrow> 64 word \<Rightarrow> 64 word \<times> nat \<Rightarrow> ir_func \<Rightarrow> ir_func res" where
  "merge_block_id s other startBlockId idStore f =
     (case idStore of (blockId, blockIdStore) \<Rightarrow>
       let oldIdConstant = cint_get 32 blockId;
           idConstant = cint_get 32 (blockId + startBlockId)
       in rbind (get_inst f blockIdStore) (\<lambda>st.
            case i_kind st of
              Store v p \<Rightarrow>
                let f1 = new_store blockIdStore (ConstInt idConstant) p f in
                rbind (get_parent f1 blockIdStore) (\<lambda>storeBlock.
                  rbind (deref (terminator storeBlock)) (\<lambda>blockBranch.
                    rbind (get_parent f1 (ccs_load s)) (\<lambda>callBlock.
                      rbind (set_successor0 (b_id callBlock) (i_kind blockBranch)) (\<lambda>k.
                        let f2 = erase_inst blockIdStore (set_kind (i_id blockBranch) k f1) in
                        rbind (switch_parts f2 other) (\<lambda>(v', d, cs).
                          Inr (add_return_case s idConstant (switch_target d cs oldIdConstant) f2))))))
            | _ \<Rightarrow> Inl BadCast))"

fun set_default_dest :: "nat \<Rightarrow> ir_value ikind \<Rightarrow> ir_value ikind" where
  "set_default_dest b (Switch v d cs) = Switch v b cs"
| "set_default_dest b k = k"

definition retire_call_block :: "(nat \<Rightarrow> ir_func \<Rightarrow> ir_func) \<Rightarrow> combined_call_site \<Rightarrow> combined_call_site \<Rightarrow> ir_func \<Rightarrow> ir_func res" where
  "retire_call_block del_dead s other f =
     rbind (get_parent f (ccs_switch other)) (\<lambda>otherBlock.
       let f1 = new_at_end (b_id otherBlock) Unreachable VoidTy f in
       rbind (switch_parts f1 other) (\<lambda>(v, oldDefaultBlock, cs).
         rbind (switch_parts f1 s) (\<lambda>(v', d, cs').
           let f2 = upd_inst (ccs_switch other) (\<lambda>i. i\<lparr>i_kind := set_default_dest d (i_kind i)\<rparr>) f1;
               f3 = erase_inst (ccs_switch other) f2;
               f4 = (if pred_empty f3 oldDefaultBlock then del_dead oldDefaultBlock f3 else f3)
           in rbind (get_parent f4 (ccs_load other)) (\<lambda>loadBlock.
                Inr (if pred_empty f4 (b_id loadBlock) then del_dead (b_id loadBlock) f4 else f4)))))"

definition combine ::
  "(nat \<Rightarrow> ir_func \<Rightarrow> ir_func) \<Rightarrow> (ir_inst list \<Rightarrow> ir_inst list) \<Rightarrow> combined_call_site
     \<Rightarrow> combined_call_site \<Rightarrow> ir_func \<Rightarrow> (bool \<times> ir_func) res" where
  "combine del_dead ord s other f =
     (if ccs_callee_name other \<noteq> ccs_callee_name s then Inr (False, f)
      else if ccs_caller other \<noteq> ccs_caller s then Inr (False, f)
      else rbind (get_max_block_id f s) (\<lambda>maxId.
        rbind (get_block_id_stores ord f other) (\<lambda>stores.
          rbind (rfold (merge_block_id s other (maxId + 1)) stores f) (\<lambda>f1.
            rmap (Pair True) (retire_call_block del_dead s other f1)))))"

lemma switch_parts_Inr:
  "switch_parts f s = Inr (v, d, cs) \<longleftrightarrow> (\<exists>i. find_inst f (ccs_switch s) = Some i \<and> i_kind i = Switch v d cs)"
proof (cases "find_inst f (ccs_switch s)")
  case (Some i)
  then show ?thesis by (cases "i_kind i") (auto simp: switch_parts_def get_inst_def)
qed (simp add: switch_parts_def get_inst_def)

section \<open>Argument indexes\<close>

lemma le_value_append: "le_value (xs @ [c]) = le_value xs + 256 ^ length xs * of_char c"
  by (induction xs) (simp_all add: algebra_simps)

lemma le_value_bytes:
  "le_value (map (\<lambda>k. char_of (n div 256 ^ k mod 256)) [0..<m]) = n mod 256 ^ m" for n :: nat
proof (induction m)
  case (Suc m)
  have "n mod 256 ^ Suc m = 256 ^ m * (n div 256 ^ m mod 256) + n mod 256 ^ m"
    by (metis mod_mult2_eq power_Suc2)
  with Suc show ?case by (simp add: le_value_append del: power_Suc)
qed simp

text \<open>
  The index of an argument that is attached to an instruction as the bytes of a \<open>size_t\<close> is the
  index that is read back from the instruction.
\<close>

lemma argument_index_roundtrip:
  "rbind (rbind (get_metadata (fst (attach_metadata i FuseFunctionArgIdx (argidx_bytes w))) FuseFunctionArgIdx)
     deref) read_argidx = Inr w"
proof -
  have "unat w < 256 ^ 8" using unsigned_less[of w] by simp
  then have "le_value (argidx_bytes w) = unat w"
    unfolding argidx_bytes_def le_value_bytes by simp
  moreover have "length (argidx_bytes w) = 8" by (simp add: argidx_bytes_def)
  ultimately show ?thesis by (simp add: get_metadata_attach deref_def read_argidx_def)
qed

section \<open>The tables of a call site\<close>

lemma omap_emplace_map:
  "omap_emplace k (g v) (map (\<lambda>(a, b). (a, g b)) m) = map (\<lambda>(a, b). (a, g b)) (omap_emplace k v m)"
  by (induction k v m rule: omap_emplace.induct) auto

text \<open>The stores that are considered for a number, in the order of the use list.\<close>

definition stores_id :: "ir_func \<Rightarrow> nat \<Rightarrow> 64 word \<Rightarrow> ir_inst \<Rightarrow> bool" where
  "stores_id f loadBlock w u \<longleftrightarrow>
     (\<exists>c p b. i_kind u = Store (ConstInt c) p \<and> zext_value c = w \<and> parent_block f (i_id u) = Some b
        \<and> b_id b \<in> set (predecessors f loadBlock))"

lemma id_store_Some:
  "id_store f lb u = Some (w, st, b) \<longleftrightarrow>
     stores_id f lb w u \<and> st = i_id u \<and> map_option b_id (parent_block f (i_id u)) = Some b"
  unfolding id_store_def stores_id_def
  by (auto split: ikind.splits ir_value.splits option.splits)

lemma id_store_None: "id_store f lb u = None \<longleftrightarrow> (\<forall>w. \<not> stores_id f lb w u)"
  unfolding id_store_def stores_id_def
  by (auto split: ikind.splits ir_value.splits option.splits)

lemma stores_id_unique: "stores_id f lb w u \<Longrightarrow> stores_id f lb w' u \<Longrightarrow> w = w'"
  by (auto simp: stores_id_def)

lemma fold_id_stores:
  assumes "omap_sorted m"
  shows "omap_sorted (fold (\<lambda>u m. case id_store f lb u of None \<Rightarrow> m | Some (w, st, b) \<Rightarrow> omap_emplace w st m) us m)
    \<and> map_of (fold (\<lambda>u m. case id_store f lb u of None \<Rightarrow> m | Some (w, st, b) \<Rightarrow> omap_emplace w st m) us m) k
      = (case map_of m k of Some st \<Rightarrow> Some st | None \<Rightarrow> map_option i_id (List.find (stores_id f lb k) us))"
  using assms
proof (induction us arbitrary: m)
  case (Cons u us)
  show ?case
  proof (cases "id_store f lb u")
    case None
    with Cons id_store_None[of f lb u] show ?thesis by (simp split: option.splits)
  next
    case (Some e)
    obtain w st b where e: "e = (w, st, b)" by (cases e) auto
    with Some have s: "stores_id f lb w u" "st = i_id u" by (auto simp: id_store_Some)
    then have "stores_id f lb k u \<longleftrightarrow> k = w" using stores_id_unique by blast
    with Some e s Cons show ?thesis
      by (auto simp: omap_find_emplace omap_emplace_sorted split: option.splits)
  qed
qed (simp split: option.splits)

lemma fold_branching:
  "fold (\<lambda>u m. case id_store f lb u of None \<Rightarrow> m | Some (w, st, b) \<Rightarrow> omap_emplace w b m) us
       (map (\<lambda>(w, st). (w, b_id (the (parent_block f st)))) m) =
   map (\<lambda>(w, st). (w, b_id (the (parent_block f st))))
     (fold (\<lambda>u m. case id_store f lb u of None \<Rightarrow> m | Some (w, st, b) \<Rightarrow> omap_emplace w st m) us m)"
proof (induction us arbitrary: m)
  case (Cons u us)
  show ?case
  proof (cases "id_store f lb u")
    case (Some e)
    obtain w st b where e: "e = (w, st, b)" by (cases e) auto
    with Some have "b = b_id (the (parent_block f st))" by (auto simp: id_store_Some)
    with Some e Cons show ?thesis
      by (simp add: omap_emplace_map[of w "\<lambda>st. b_id (the (parent_block f st))"])
  qed (simp add: Cons)
qed simp

lemma get_block_id_stores_facts:
  assumes "load_pointer f s = Inr (InstVal a)" and "parent_block f (ccs_load s) = Some lb"
  shows "\<exists>stores. get_block_id_stores ord f s = Inr stores \<and> omap_sorted stores \<and>
    (\<forall>w. map_of stores w = map_option i_id (List.find (stores_id f (b_id lb) w) (ord (users f (InstVal a))))) \<and>
    get_branching_blocks ord f s = Inr (map (\<lambda>(w, st). (w, b_id (the (parent_block f st)))) stores)"
proof -
  have us: "cond_users ord f s = Inr (ord (users f (InstVal a)), b_id lb)"
    by (simp add: cond_users_def assms get_parent_def)
  show ?thesis
    using fold_id_stores[of "[]" f "b_id lb"] fold_branching[of f "b_id lb" _ "[]"]
    by (simp add: get_block_id_stores_def get_branching_blocks_def us)
qed

text \<open>
  C26: \<open>get_block_id_stores\<close> maps a number to the first store of that number, in the order of the use
  list, among the stores to the variable the call block loads that are in a predecessor of its block,
  and \<open>get_branching_blocks\<close> maps the number to the block of that store.
\<close>

theorem get_block_id_stores_correct:
  assumes "load_pointer f s = Inr (InstVal a)" and "parent_block f (ccs_load s) = Some lb"
  shows "\<exists>stores. get_block_id_stores ord f s = Inr stores \<and> omap_sorted stores \<and>
    (\<forall>w. map_of stores w = map_option i_id (List.find (stores_id f (b_id lb) w) (ord (users f (InstVal a))))) \<and>
    get_branching_blocks ord f s = Inr (map (\<lambda>(w, st). (w, b_id (the (parent_block f st)))) stores)"
  by (rule get_block_id_stores_facts[OF assms])

text \<open>The cases of a switch on a 32-bit number.\<close>

definition cases32 :: "switch_cases \<Rightarrow> bool" where
  "cases32 cs \<longleftrightarrow> (\<forall>c \<in> set cs. cbits (fst c) = 32 \<and> cval (fst c) < 2 ^ 32)"

lemma cint_get_32: "unat w < 2 ^ 32 \<Longrightarrow> cint_get 32 w = CInt 32 (unat w)"
  by (simp add: cint_get_def)

lemma zext_32:
  "cval c < 2 ^ 32 \<Longrightarrow> unat (zext_value c) = cval c"
  by (simp add: zext_value_def unat_of_nat)

lemma cint_eq_zext:
  assumes "cbits c = 32" "cval c < 2 ^ 32" "unat w < 2 ^ 32"
  shows "c = cint_get 32 w \<longleftrightarrow> zext_value c = w"
proof -
  have "zext_value c = w \<longleftrightarrow> cval c = unat w"
    using zext_32[OF assms(2)] by (auto simp: zext_value_def)
  then show ?thesis using assms by (cases c) (simp add: cint_get_32)
qed

lemma fold_return_blocks:
  "omap_sorted m \<Longrightarrow>
   map_of (fold (\<lambda>c. omap_emplace (zext_value (fst c)) (snd c)) cs m) w
     = (case map_of m w of Some b \<Rightarrow> Some b | None \<Rightarrow> map_of (map (\<lambda>c. (zext_value (fst c), snd c)) cs) w)"
proof (induction cs arbitrary: m)
  case (Cons c cs)
  then show ?case by (auto simp: omap_find_emplace omap_emplace_sorted split: option.splits)
qed (simp split: option.splits)

text \<open>
  For a number of 32 bits, the return block that a call site reports is the block the switch of the
  site goes to for that number; a null pointer where only the default destination is left.
\<close>

lemma get_return_block_is_switch_target:
  assumes "switch_parts f s = Inr (v, d, cs)" and "cases32 cs" and "unat w < 2 ^ 32"
  shows "get_return_block f s w = Inr (find_case cs (cint_get 32 w))"
proof -
  have "map_of (map (\<lambda>c. (zext_value (fst c), snd c)) cs) w = map_of cs (cint_get 32 w)"
    using assms(2)
  proof (induction cs)
    case (Cons c cs)
    have "fst c = cint_get 32 w \<longleftrightarrow> zext_value (fst c) = w"
      using Cons.prems by (intro cint_eq_zext[OF _ _ assms(3)]) (simp_all add: cases32_def)
    with Cons show ?case by (cases c) (auto simp: cases32_def)
  qed simp
  then show ?thesis
    using fold_return_blocks[of "[]" cs w]
    by (simp add: get_return_block_def get_return_blocks_def assms(1) find_case_def)
qed

text \<open>A switch on the loaded number, with two cases, in a function that holds a call block.\<close>

lemma max_id_Max: "ws \<noteq> [] \<Longrightarrow> max_id ws = Max (set ws)"
  by (cases ws) (simp_all only: max_id.simps Max.set_eq_fold, simp)

lemma max_id_in: "ws \<noteq> [] \<Longrightarrow> max_id ws \<in> set ws"
  using Max_in[of "set ws"] by (simp add: max_id_Max)

lemma max_id_upper: "w \<in> set ws \<Longrightarrow> w \<le> max_id ws"
  by (cases "ws = []") (simp_all add: max_id_Max)

lemma case_ids_bound: "cases32 cs \<Longrightarrow> w \<in> set (case_ids cs) \<Longrightarrow> unat w < 2 ^ 32"
  by (auto simp: cases32_def case_ids_def zext_32)

lemma case_value_in:
  assumes "cases32 cs" and "unat w < 2 ^ 32"
  shows "cint_get 32 w \<in> set (case_values cs) \<longleftrightarrow> w \<in> set (case_ids cs)"
proof -
  have "cint_get 32 w = fst c \<longleftrightarrow> w = zext_value (fst c)" if "c \<in> set cs" for c
    using cint_eq_zext[of "fst c" w] assms that by (auto simp: cases32_def)
  then show ?thesis by (auto simp: case_values_def case_ids_def image_iff)
qed

text \<open>The number after the largest one is new unless it wraps at the width of the constants.\<close>

lemma next_id_fresh:
  assumes "cases32 cs"
  shows "cint_get 32 (max_id (case_ids cs) + 1) \<in> set (case_values cs) \<longleftrightarrow>
    max_id (case_ids cs) = 2 ^ 32 - 1 \<and> 0 \<in> set (case_ids cs)"
proof (cases "cs = []")
  case True
  then show ?thesis by (simp add: case_ids_def case_values_def)
next
  case False
  let ?M = "max_id (case_ids cs)"
  have ne: "case_ids cs \<noteq> []" using False by (simp add: case_ids_def)
  have M: "unat ?M < 2 ^ 32" using case_ids_bound[OF assms] max_id_in[OF ne] .
  then have suc: "unat (?M + 1) = unat ?M + 1"
    by (simp add: unat_word_ariths)
  show ?thesis
  proof (cases "unat ?M = 2 ^ 32 - 1")
    case True
    then have "unat ?M = unat (2 ^ 32 - 1 :: 64 word)" by simp
    then have "?M = 2 ^ 32 - 1" by (simp only: unsigned_word_eqI)
    then have "cint_get 32 (?M + 1) = cint_get 32 0" by (simp add: cint_get_def)
    with \<open>?M = 2 ^ 32 - 1\<close> case_value_in[OF assms, of 0] show ?thesis by simp
  next
    case ne_top: False
    then have "unat (?M + 1) < 2 ^ 32" using M suc by simp
    moreover have "?M + 1 \<notin> set (case_ids cs)"
    proof
      assume "?M + 1 \<in> set (case_ids cs)"
      from max_id_upper[OF this] show False using suc by (simp add: word_le_nat_alt)
    qed
    moreover have "?M \<noteq> 2 ^ 32 - 1" using ne_top by auto
    ultimately show ?thesis using case_value_in[OF assms] by simp
  qed
qed

text \<open>
  C28: The number a new call gets is one more than the largest in use, and the 32-bit constant that is
  made of it is not yet a case of the switch, except where the largest number is the largest of 32 bits
  and 0 is in use: there the number wraps to 0.
\<close>

theorem new_block_id_fresh:
  assumes "switch_parts f s = Inr (v, d, cs)" and "cases32 cs"
  shows "\<exists>maxId. get_max_block_id f s = Inr maxId \<and>
    (cint_get 32 (maxId + 1) \<in> set (case_values cs) \<longleftrightarrow> maxId = 2 ^ 32 - 1 \<and> 0 \<in> set (case_ids cs))"
  using next_id_fresh[OF assms(2)] by (simp add: get_max_block_id_def get_block_ids_def assms(1))

section \<open>Finding the call sites\<close>

lemma map_of_push_back:
  "map_of (push_back k v m) k' =
     (if k' = k then Some ((case map_of m k of None \<Rightarrow> [] | Some vs \<Rightarrow> vs) @ [v]) else map_of m k')"
  by (simp add: push_back_def update_conv')

lemma map_of_push_back_all:
  "map_of (fold (\<lambda>s. push_back (key s) s) ss m) k =
     (let new = filter (\<lambda>s. key s = k) ss
      in if new = [] then map_of m k else Some ((case map_of m k of None \<Rightarrow> [] | Some vs \<Rightarrow> vs) @ new))"
proof (induction ss arbitrary: m)
  case (Cons s ss)
  then show ?case by (auto simp: Let_def map_of_push_back)
qed (simp add: Let_def)

lemma push_back_distinct: "distinct (map fst m) \<Longrightarrow> distinct (map fst (push_back k v m))"
  by (simp add: push_back_def distinct_update)

lemma find_sites_loop:
  "rconcat (\<lambda>i. rmap (\<lambda>s. [s]) (g i)) is = Inr ss \<longleftrightarrow> list_all2 (\<lambda>i s. g i = Inr s) is ss"
proof (induction "is" arbitrary: ss)
  case (Cons i "is")
  let ?h = "\<lambda>i. rmap (\<lambda>s. [s]) (g i)"
  have "rconcat ?h (i # is) = Inr ss \<longleftrightarrow> (\<exists>s zs. g i = Inr s \<and> rconcat ?h is = Inr zs \<and> ss = s # zs)"
    by (cases "g i"; cases "rconcat ?h is") auto
  with Cons show ?case by (simp add: list_all2_Cons1) blast
qed auto

lemma cast_load_Inr:
  assumes "cast_load f v = Inr x"
  shows "v = InstVal x"
proof -
  obtain y where y: "v = InstVal y" using assms by (auto simp: cast_load_def split: ir_value.splits)
  obtain i where "get_inst f y = Inr i" using assms y by (auto simp: cast_load_def)
  with assms y have "y = x" by (cases "i_kind i") (auto simp: cast_load_def)
  with y show ?thesis by simp
qed

lemma call_site_of_switch_Inr:
  assumes "call_site_of_switch f i = Inr s"
  shows "ccs_switch s = i_id i \<and> ccs_caller s = f_id f \<and>
    get_metadata i FuseFunctionName = Inr (Some (ccs_callee_name s)) \<and>
    (\<exists>d cs. i_kind i = Switch (InstVal (ccs_load s)) d cs)"
proof -
  obtain nm where nm: "get_metadata i FuseFunctionName = Inr (Some nm)"
    using assms by (auto simp: call_site_of_switch_def deref_def split: option.splits)
  with assms show ?thesis
    by (cases "i_kind i") (auto simp: call_site_of_switch_def deref_def dest: cast_load_Inr)
qed

text \<open>
  C27: The call sites of a function are its switches that carry the name of a fused callee, in program
  order, each with that name and with the load of its condition; and \<open>map_combined_call_sites\<close>
  groups them by the name, the last one of the function first.
\<close>

theorem combined_call_sites_grouped:
  assumes "find_combined_call_sites f = Inr sites"
  shows "list_all2 (\<lambda>i s. ccs_switch s = i_id i \<and> ccs_caller s = f_id f \<and>
             get_metadata i FuseFunctionName = Inr (Some (ccs_callee_name s)) \<and>
             (\<exists>d cs. i_kind i = Switch (InstVal (ccs_load s)) d cs))
           (filter (\<lambda>i. is_switch (i_kind i) \<and> tagged FuseFunctionName i) (func_insts f)) sites \<and>
         (\<exists>m. map_combined_call_sites f = Inr m \<and> distinct (map fst m) \<and>
            (\<forall>n. map_of m n = (let group = filter (\<lambda>s. ccs_callee_name s = n) (rev sites)
                                in if group = [] then None else Some group)))"
proof
  have sel: "filter (\<lambda>i. is_switch (i_kind i)) (find_metadata_fn f FuseFunctionName) =
      filter (\<lambda>i. is_switch (i_kind i) \<and> tagged FuseFunctionName i) (func_insts f)"
    using by_name.fn_sound[of f FuseFunctionName] by (simp add: conj_commute)
  have "list_all2 (\<lambda>i s. call_site_of_switch f i = Inr s)
      (filter (\<lambda>i. is_switch (i_kind i) \<and> tagged FuseFunctionName i) (func_insts f)) sites"
    using assms unfolding find_combined_call_sites_def sel find_sites_loop .
  then show "list_all2 (\<lambda>i s. ccs_switch s = i_id i \<and> ccs_caller s = f_id f \<and>
             get_metadata i FuseFunctionName = Inr (Some (ccs_callee_name s)) \<and>
             (\<exists>d cs. i_kind i = Switch (InstVal (ccs_load s)) d cs))
           (filter (\<lambda>i. is_switch (i_kind i) \<and> tagged FuseFunctionName i) (func_insts f)) sites"
    by (rule list_all2_mono) (rule call_site_of_switch_Inr)
  have "distinct (map fst (fold (\<lambda>s. push_back (ccs_callee_name s) s) ss m))"
    if "distinct (map fst m)" for ss and m :: "(string \<times> combined_call_site list) list"
    using that by (induction ss arbitrary: m) (simp_all add: push_back_distinct)
  then show "\<exists>m. map_combined_call_sites f = Inr m \<and> distinct (map fst m) \<and>
      (\<forall>n. map_of m n = (let group = filter (\<lambda>s. ccs_callee_name s = n) (rev sites)
                          in if group = [] then None else Some group))"
    by (simp add: map_combined_call_sites_def assms map_of_push_back_all Let_def)
qed

text \<open>A function with two call blocks, 10 and 40, of the same callee.\<close>

definition demo_sites :: ir_func where
  "demo_sites = mk_func 7 ''f'' (FuncTy VoidTy [] False) True
     [mk_block 0 [demo_inst 1 (Alloca (IntTy 32)), demo_inst 2 (Alloca (IntTy 32)),
                  demo_inst 3 (Store (ConstInt (CInt 32 0)) (InstVal 1)), demo_inst 4 (Br 10)],
      mk_block 10 [demo_inst 11 (Load (InstVal 1)), demo_inst 12 (Switch (InstVal 11) 30 [(CInt 32 0, 20)])],
      mk_block 20 [demo_inst 21 (Store (ConstInt (CInt 32 0)) (InstVal 2)), demo_inst 22 (Br 40)],
      mk_block 30 [demo_inst 31 Unreachable],
      mk_block 40 [demo_inst 41 (Load (InstVal 2)), demo_inst 42 (Switch (InstVal 41) 30 [(CInt 32 0, 50)])],
      mk_block 50 [demo_inst 51 (Ret None)]] 60"

definition demo_first :: combined_call_site where
  "demo_first = \<lparr>ccs_caller = 7, ccs_callee_name = ''g'', ccs_switch = 12, ccs_load = 11\<rparr>"

definition demo_second :: combined_call_site where
  "demo_second = \<lparr>ccs_caller = 7, ccs_callee_name = ''g'', ccs_switch = 42, ccs_load = 41\<rparr>"

lemmas demo_eval = demo_sites_def mk_func_def mk_block_def demo_inst_def mk_inst_def find_inst_def func_insts_def
  parent_block_def switch_parts_def load_pointer_def get_inst_def get_parent_def

lemma demo_first_parts: "switch_parts demo_sites demo_first = Inr (InstVal 11, 30, [(CInt 32 0, 20)])"
  by (simp add: demo_eval demo_first_def)

section \<open>Instances of the properties of the tables\<close>

lemma demo_second_load:
  "load_pointer demo_sites demo_second = Inr (InstVal 2)"
  "parent_block demo_sites (ccs_load demo_second) =
     Some (mk_block 40 [demo_inst 41 (Load (InstVal 2)), demo_inst 42 (Switch (InstVal 41) 30 [(CInt 32 0, 50)])])"
  by (simp_all add: demo_eval demo_second_def)

theorem get_block_id_stores_correct_witness:
  "\<exists>stores. get_block_id_stores rev demo_sites demo_second = Inr stores \<and> omap_sorted stores \<and>
    (\<forall>w. map_of stores w = map_option i_id (List.find (stores_id demo_sites 40 w) (rev (users demo_sites (InstVal 2))))) \<and>
    get_branching_blocks rev demo_sites demo_second =
      Inr (map (\<lambda>(w, st). (w, b_id (the (parent_block demo_sites st)))) stores)"
  using get_block_id_stores_correct[OF demo_second_load, of rev] by (simp add: mk_block_def)

theorem new_block_id_fresh_witness:
  "\<exists>maxId. get_max_block_id demo_sites demo_first = Inr maxId \<and>
    (cint_get 32 (maxId + 1) \<in> set (case_values [(CInt 32 0, 20)]) \<longleftrightarrow>
       maxId = 2 ^ 32 - 1 \<and> 0 \<in> set (case_ids [(CInt 32 0, 20)]))"
  by (rule new_block_id_fresh[OF demo_first_parts]) (simp add: cases32_def)

text \<open>A function with a tagged switch.\<close>

definition demo_tagged_switch :: ir_inst where
  "demo_tagged_switch = fst (attach_metadata (demo_inst 12 (Switch (InstVal 11) 30 [])) FuseFunctionName ''g'')"

definition demo_tagged :: ir_func where
  "demo_tagged = mk_func 7 ''f'' (FuncTy VoidTy [] False) True
     [mk_block 0 [demo_inst 1 (Alloca (IntTy 32)), demo_inst 11 (Load (InstVal 1)), demo_tagged_switch],
      mk_block 30 [demo_inst 31 Unreachable]] 40"

lemma demo_tagged_sites: "find_combined_call_sites demo_tagged = Inr [demo_first]"
proof -
  have sw: "i_kind demo_tagged_switch = Switch (InstVal 11) 30 []" "i_id demo_tagged_switch = 12"
    "get_metadata demo_tagged_switch FuseFunctionName = Inr (Some ''g'')"
    by (simp_all add: demo_tagged_switch_def get_metadata_attach)
      (simp_all add: attach_metadata_def Let_def demo_inst_def)
  have "find_metadata_fn demo_tagged FuseFunctionName = [demo_tagged_switch]"
    by (simp add: find_metadata_fn_def find_metadata_bb_def has_md_other_def demo_tagged_def demo_tagged_switch_def
        attach_metadata_def Let_def set_md_def get_md_def demo_inst_def mk_func_def mk_block_def FuseFunctionName_def)
  moreover have "cast_load demo_tagged (InstVal 11) = Inr 11"
    by (simp add: cast_load_def demo_tagged_def demo_eval)
  ultimately show ?thesis
    by (simp add: find_combined_call_sites_def is_switch_def sw call_site_of_switch_def deref_def demo_first_def)
      (simp add: demo_tagged_def mk_func_def)
qed

theorem combined_call_sites_grouped_witness:
  "list_all2 (\<lambda>i s. ccs_switch s = i_id i \<and> ccs_caller s = f_id demo_tagged \<and>
             get_metadata i FuseFunctionName = Inr (Some (ccs_callee_name s)) \<and>
             (\<exists>d cs. i_kind i = Switch (InstVal (ccs_load s)) d cs))
           (filter (\<lambda>i. is_switch (i_kind i) \<and> tagged FuseFunctionName i) (func_insts demo_tagged)) [demo_first] \<and>
   (\<exists>m. map_combined_call_sites demo_tagged = Inr m \<and> distinct (map fst m) \<and>
      (\<forall>n. map_of m n = (let group = filter (\<lambda>s. ccs_callee_name s = n) (rev [demo_first])
                          in if group = [] then None else Some group)))"
  by (rule combined_call_sites_grouped[OF demo_tagged_sites])

end
