(* ===== verification/Combined_Merge.thy ===== *)
theory Combined_Merge
  imports Combined_Call_Site
begin

text \<open>
  What \<open>combine\<close> of \<open>combined-call-site.cpp\<close> does: the effect of merging one number as a rewriting of single
  instructions, the loop over all numbers of the other site, and the whole operation, with the
  interface of \<open>DeleteDeadBlock\<close> as the hypothesis \<open>del_dead_ok\<close>.
\<close>

section \<open>One number merged\<close>

text \<open>
  The effect of \<open>merge_block_id\<close> on the instructions: the store is replaced by one of the new number,
  the branch gets a new target, the switch of the remaining site a new case.
\<close>

definition merged_inst :: "nat \<Rightarrow> ir_inst \<Rightarrow> nat \<Rightarrow> ir_value ikind \<Rightarrow> nat \<Rightarrow> cint \<Rightarrow> nat \<Rightarrow> ir_inst \<Rightarrow> ir_inst" where
  "merged_inst st n t k sw c b j =
     (if i_id j = st then n
      else if i_id j = sw then j\<lparr>i_kind := add_switch_case c b (i_kind j)\<rparr>
      else if i_id j = t then j\<lparr>i_kind := k\<rparr> else j)"

definition new_id_store :: "ir_func \<Rightarrow> 64 word \<Rightarrow> 64 word \<Rightarrow> ir_value \<Rightarrow> ir_inst" where
  "new_id_store f startBlockId w p = mk_inst (f_next f) (Store (ConstInt (cint_get 32 (w + startBlockId))) p) VoidTy ''''"

lemma set_successor0_shape:
  assumes "set_successor0 b k = Inr k'"
  shows "is_terminator k \<and> is_terminator k' \<and> (\<forall>v d cs. k \<noteq> Switch v d cs) \<and> set_successor0 b k' = Inr k'
    \<and> first_of (successors k') = Some b"
  using assms by (cases k) auto

lemma upd_at_as_map: "upd_at key x g = map (\<lambda>a. if key a = x then g a else a)"
  by (simp add: fun_eq_iff upd_at_def)

lemma merge_block_id_step:
  assumes wf: "wf_func f"
    and st: "find_inst f st = Some sti" "i_kind sti = Store v p"
    and blk: "parent_block f st = Some blk" "terminator blk = Some t"
    and call: "parent_block f (ccs_load s) = Some cb"
    and k: "set_successor0 (b_id cb) (i_kind t) = Inr k"
    and other: "switch_parts f other = Inr (vo, d, cs)"
    and sw: "find_inst f (ccs_switch s) = Some swi" "i_kind swi = Switch vs ds css" "ccs_switch s \<noteq> ccs_switch other"
  shows "merge_block_id s other start (w, st) f = Inr
    (map_blocks (on_insts (map (merged_inst st (new_id_store f start w p) (i_id t) k (ccs_switch s)
       (cint_get 32 (w + start)) (switch_target d cs (cint_get 32 w))))) (f\<lparr>f_next := Suc (f_next f)\<rparr>))"
proof -
  let ?n = "new_id_store f start w p"
  let ?R = "merged_inst st ?n (i_id t) k (ccs_switch s) (cint_get 32 (w + start)) (switch_target d cs (cint_get 32 w))"
  let ?c = "cint_get 32 (w + start)"
  define f1 where "f1 = new_store st (ConstInt ?c) p f"
  define f2 where "f2 = erase_inst st (set_kind (i_id t) k f1)"
  have n: "i_id ?n = f_next f" by (simp add: new_id_store_def)
  have f1: "f1 = map_blocks (on_insts (ins_before i_id st ?n)) (f\<lparr>f_next := Suc (f_next f)\<rparr>)"
    by (simp add: f1_def new_store_def new_before_def insert_before_def new_id_store_def map_blocks_next)
  have ids: "y \<in> i_id ` set (ins_before i_id st ?n (b_insts b)) \<longleftrightarrow> y \<in> i_id ` set (b_insts b)"
    if "y \<noteq> f_next f" for y b using that n by (auto simp: set_ins_before)
  have st_old: "st \<noteq> f_next f" using find_inst_less[OF wf st(1)] by simp
  have load_old: "ccs_load s \<noteq> f_next f"
    using parent_block_Some[OF call] wf by (force simp: wf_func_def fresh_ids_def func_insts_def)
  have par: "parent_block f1 y = map_option (on_insts (ins_before i_id st ?n)) (parent_block f y)"
    if "y \<noteq> f_next f" for y
    unfolding f1 by (subst parent_block_map) (simp_all only: ids[OF that] parent_block_next)
  have t: "t \<in> set (b_insts blk)" "is_terminator (i_kind t)" using terminator_in[OF blk(2)] by auto
  have find_t: "find_inst f (i_id t) = Some t" by (rule find_inst_parent[OF wf blk(1) t(1)])
  have t_st: "i_id t \<noteq> st" using find_t st t(2) by auto
  have t_sw: "i_id t \<noteq> ccs_switch s" "i_id t \<noteq> ccs_switch other"
    using find_t sw(1,2) other set_successor0_shape[OF k]
    by (auto simp: switch_parts_Inr)
  have st_sw: "st \<noteq> ccs_switch s" "st \<noteq> ccs_switch other"
    using st sw(1,2) other by (auto simp: switch_parts_Inr)
  have insts: "(upd_at i_id (ccs_switch s) (\<lambda>i. i\<lparr>i_kind := add_switch_case ?c (switch_target d cs (cint_get 32 w)) (i_kind i)\<rparr>)
      \<circ> del_at i_id st \<circ> upd_at i_id (i_id t) (\<lambda>i. i\<lparr>i_kind := k\<rparr>) \<circ> ins_before i_id st ?n) (b_insts b) = map ?R (b_insts b)"
    if "b \<in> set (f_blocks f)" for b
  proof -
    have old: "i_id i < f_next f" if "i \<in> set (b_insts b)" for i
      using wf that block_inst_func[OF \<open>b \<in> set (f_blocks f)\<close>] by (auto simp: wf_func_def fresh_ids_def)
    have swap: "del_at i_id st (upd_at i_id (i_id t) (\<lambda>i. i\<lparr>i_kind := k\<rparr>) xs) =
        upd_at i_id (i_id t) (\<lambda>i. i\<lparr>i_kind := k\<rparr>) (del_at i_id st xs)" for xs
      by (induction xs) auto
    have del: "del_at i_id st (ins_before i_id st ?n (b_insts b)) = map (\<lambda>a. if i_id a = st then ?n else a) (b_insts b)"
      by (rule del_ins_before[OF block_insts_distinct[OF wf that]]) (use n st_old in simp)
    have "f_next f \<noteq> ccs_switch s" "f_next f \<noteq> i_id t"
      using find_inst_less[OF wf sw(1)] find_inst_less[OF wf find_t] by auto
    then show ?thesis
      unfolding comp_apply swap del unfolding upd_at_as_map
      using t_st t_sw(1) st_sw(1) n by (auto simp: merged_inst_def)
  qed
  have "get_inst f st = Inr sti" using st by (simp add: get_inst_def)
  moreover have "get_parent f1 st = Inr (on_insts (ins_before i_id st ?n) blk)"
    using par[OF st_old] blk(1) by (simp add: get_parent_def)
  moreover have "get_parent f1 (ccs_load s) = Inr (on_insts (ins_before i_id st ?n) cb)"
    using par[OF load_old] call by (simp add: get_parent_def)
  moreover have "switch_parts f2 other = Inr (vo, d, cs)"
  proof -
    have "find_inst f2 (ccs_switch other) = find_inst f (ccs_switch other)"
    proof -
      have "find_inst f2 y = find_inst (set_kind (i_id t) k f1) y" if "y \<noteq> st" for y
        using that at_id_del_at[of st y] by (simp add: f2_def find_inst_def func_insts_erase_inst)
      moreover have "find_inst (set_kind (i_id t) k f1) y = find_inst f1 y" if "y \<noteq> i_id t" for y
        using that by (simp add: set_kind_def find_inst_upd_inst)
      moreover have "find_inst f1 y = find_inst f y" if "y \<noteq> f_next f" for y
        using that find_inst_new_before[OF wf] by (simp add: f1_def new_store_def)
      moreover have "ccs_switch other \<noteq> f_next f"
        using other by (auto simp: switch_parts_Inr dest: find_inst_less[OF wf])
      ultimately show ?thesis using t_sw(2) st_sw(2) by simp
    qed
    then show ?thesis using other by (simp add: switch_parts_def get_inst_def)
  qed
  ultimately have "merge_block_id s other start (w, st) f =
      Inr (add_return_case s ?c (switch_target d cs (cint_get 32 w)) f2)"
    using st(2) blk(2) k
    by (simp add: merge_block_id_def Let_def f1_def[symmetric] f2_def deref_def terminator_ins_before)
  also have "add_return_case s ?c (switch_target d cs (cint_get 32 w)) f2 =
      map_blocks (on_insts (map ?R)) (f\<lparr>f_next := Suc (f_next f)\<rparr>)"
    unfolding f2_def f1 add_return_case_def upd_inst_def set_kind_def erase_inst_def map_blocks_comp on_insts_comp
    by (rule map_blocks_cong, rule on_insts_cong) (use insts in \<open>auto simp: comp_def\<close>)
  finally show ?thesis .
qed

text \<open>The conditions under which a number can be merged, and what is true of it afterwards.\<close>

definition mergeable :: "ir_func \<Rightarrow> nat \<Rightarrow> ir_value \<Rightarrow> nat \<Rightarrow> bool" where
  "mergeable f callBlock p st \<longleftrightarrow>
     (\<exists>sti v blk t k. find_inst f st = Some sti \<and> i_kind sti = Store v p \<and> parent_block f st = Some blk
        \<and> terminator blk = Some t \<and> set_successor0 callBlock (i_kind t) = Inr k)"

definition merged_at :: "ir_func \<Rightarrow> nat \<Rightarrow> nat \<Rightarrow> nat \<Rightarrow> cint \<Rightarrow> ir_value \<Rightarrow> bool" where
  "merged_at f n b callBlock c p \<longleftrightarrow>
     (\<exists>blk ni t. find_block f b = Some blk \<and> ni \<in> set (b_insts blk) \<and> n \<le> i_id ni
        \<and> i_kind ni = Store (ConstInt c) p \<and> terminator blk = Some t
        \<and> first_of (successors (i_kind t)) = Some callBlock)"

lemma merged_atI:
  "find_block f b = Some blk \<Longrightarrow> ni \<in> set (b_insts blk) \<Longrightarrow> n \<le> i_id ni \<Longrightarrow> i_kind ni = Store (ConstInt c) p \<Longrightarrow>
   terminator blk = Some t \<Longrightarrow> first_of (successors (i_kind t)) = Some callBlock \<Longrightarrow> merged_at f n b callBlock c p"
  unfolding merged_at_def by blast

lemma add_switch_case_terminator: "is_terminator (add_switch_case c b k) = is_terminator k"
  and add_switch_case_first: "first_of (successors (add_switch_case c b k)) = first_of (successors k)"
  by (cases k; simp)+

text \<open>What the parts of a merge are in the function it is made in.\<close>

definition merge_parts :: "ir_func \<Rightarrow> nat \<Rightarrow> ir_inst \<Rightarrow> ir_inst \<Rightarrow> ir_value ikind \<Rightarrow> nat \<Rightarrow> nat \<Rightarrow> bool" where
  "merge_parts f st n t k sw callBlock \<longleftrightarrow>
     (\<exists>sti v p. find_inst f st = Some sti \<and> i_kind sti = Store v p) \<and>
     i_id n = f_next f \<and> find_inst f (i_id t) = Some t \<and> set_successor0 callBlock (i_kind t) = Inr k \<and>
     (\<exists>i v d cs. find_inst f sw = Some i \<and> i_kind i = Switch v d cs)"

lemma merged_inst_readdresses:
  "merge_parts f st n t k sw callBlock \<Longrightarrow> readdresses (merged_inst st n (i_id t) k sw c b) st (f_next f)"
  by (simp add: readdresses_def merged_inst_def merge_parts_def)

text \<open>Stores, branches and switches keep what the later merges read of them.\<close>

lemma merged_inst_kinds:
  assumes "merge_parts f st n t k sw callBlock" and "find_inst f (i_id j) = Some j"
  shows "i_kind j = Store v p \<Longrightarrow> i_id j \<noteq> st \<Longrightarrow> merged_inst st n (i_id t) k sw c b j = j"
    and "set_successor0 callBlock (i_kind j) = Inr k' \<Longrightarrow>
         \<exists>k''. set_successor0 callBlock (i_kind (merged_inst st n (i_id t) k sw c b j)) = Inr k''"
    and "is_terminator (i_kind j) \<Longrightarrow> is_terminator (i_kind (merged_inst st n (i_id t) k sw c b j))"
    and "is_terminator (i_kind j) \<Longrightarrow> first_of (successors (i_kind j)) = Some callBlock \<Longrightarrow>
         first_of (successors (i_kind (merged_inst st n (i_id t) k sw c b j))) = Some callBlock"
    and "i_kind j = Switch v d cs \<Longrightarrow> i_id j \<noteq> sw \<Longrightarrow> merged_inst st n (i_id t) k sw c b j = j"
    and "j = t \<Longrightarrow> i_kind (merged_inst st n (i_id t) k sw c b j) = k"
proof -
  obtain sti v' p' swi vs ds css where
    m: "find_inst f st = Some sti" "i_kind sti = Store v' p'" "find_inst f (i_id t) = Some t"
       "find_inst f sw = Some swi" "i_kind swi = Switch vs ds css" "set_successor0 callBlock (i_kind t) = Inr k"
    using assms(1) by (auto simp: merge_parts_def)
  note t = set_successor0_shape[OF m(6)]
  have tsw: "i_id t \<noteq> sw" "i_id t \<noteq> st" "sw \<noteq> st" using m t by auto
  show "i_kind j = Store v p \<Longrightarrow> i_id j \<noteq> st \<Longrightarrow> merged_inst st n (i_id t) k sw c b j = j"
    using m t assms(2) by (auto simp: merged_inst_def)
  show "i_kind j = Switch v d cs \<Longrightarrow> i_id j \<noteq> sw \<Longrightarrow> merged_inst st n (i_id t) k sw c b j = j"
    using m t assms(2) by (auto simp: merged_inst_def)
  show "j = t \<Longrightarrow> i_kind (merged_inst st n (i_id t) k sw c b j) = k"
    using tsw by (auto simp: merged_inst_def)
  have st: "i_id j \<noteq> st" if "is_terminator (i_kind j)" using that m assms(2) by auto
  show "is_terminator (i_kind (merged_inst st n (i_id t) k sw c b j))" if "is_terminator (i_kind j)"
    using that st[OF that] t by (simp add: merged_inst_def add_switch_case_terminator)
  show "first_of (successors (i_kind (merged_inst st n (i_id t) k sw c b j))) = Some callBlock"
    if "is_terminator (i_kind j)" "first_of (successors (i_kind j)) = Some callBlock"
    using that st t by (simp add: merged_inst_def add_switch_case_first)
  show "\<exists>k''. set_successor0 callBlock (i_kind (merged_inst st n (i_id t) k sw c b j)) = Inr k''"
    if u: "set_successor0 callBlock (i_kind j) = Inr k'"
  proof -
    note j = set_successor0_shape[OF u]
    then have "i_id j \<noteq> sw" using m assms(2) by auto
    then show ?thesis using st j t u by (simp add: merged_inst_def)
  qed
qed

text \<open>The new cases, and the whole loop over the numbers of the other site.\<close>

definition new_cases :: "64 word \<Rightarrow> nat \<Rightarrow> switch_cases \<Rightarrow> id_store_map \<Rightarrow> switch_cases" where
  "new_cases start d cs stores =
     map (\<lambda>e. (cint_get 32 (fst e + start), switch_target d cs (cint_get 32 (fst e)))) stores"

definition only_stores_to :: "ir_value \<Rightarrow> ir_func \<Rightarrow> ir_func \<Rightarrow> bool" where
  "only_stores_to p f g \<longleftrightarrow>
     (\<forall>i \<in> set (func_insts g). \<forall>v q. i_kind i = Store v q \<longrightarrow> i \<in> set (func_insts f) \<or> q = p)"

text \<open>Addresses below \<open>n\<close> outside \<open>X\<close> keep their block, and loads there are unchanged.\<close>

definition keeps_old :: "nat \<Rightarrow> nat set \<Rightarrow> ir_func \<Rightarrow> ir_func \<Rightarrow> bool" where
  "keeps_old n X f g \<longleftrightarrow>
     (\<forall>y < n. y \<notin> X \<longrightarrow> map_option b_id (parent_block g y) = map_option b_id (parent_block f y) \<and>
        (\<forall>i q. find_inst f y = Some i \<longrightarrow> i_kind i = Load q \<longrightarrow> find_inst g y = Some i))"

lemma keeps_old_trans: "keeps_old n X f g \<Longrightarrow> keeps_old n Y g h \<Longrightarrow> keeps_old n (X \<union> Y) f h"
  unfolding keeps_old_def by auto

text \<open>What one merge, a replacement of instructions, keeps and adds.\<close>

lemma merged_terminator:
  assumes wf: "wf_func f" and parts: "merge_parts f st n t k sw callBlock" and b: "blk \<in> set (f_blocks f)" "terminator blk = Some u"
  shows "terminator (on_insts (map (merged_inst st n (i_id t) k sw c b)) blk) = Some (merged_inst st n (i_id t) k sw c b u)"
proof -
  have "find_inst f (i_id u) = Some u"
    using find_inst_member[OF wf block_inst_func[OF b(1)]] terminator_in[OF b(2)] by simp
  then show ?thesis using terminator_in[OF b(2)] by (intro terminator_map[OF b(2)] merged_inst_kinds(3)[OF parts]) auto
qed

lemma merged_mergeable:
  assumes wf: "wf_func f" and parts: "merge_parts f st n t k sw callBlock" and o: "mergeable f callBlock p st'"
    and st': "st' \<noteq> st" "st' < f_next f"
  shows "mergeable (replace_insts (merged_inst st n (i_id t) k sw c b) f) callBlock p st' \<and>
    map_option b_id (parent_block (replace_insts (merged_inst st n (i_id t) k sw c b) f) st') = map_option b_id (parent_block f st')"
proof -
  obtain sti v blk u k' where o: "find_inst f st' = Some sti" "i_kind sti = Store v p"
    "parent_block f st' = Some blk" "terminator blk = Some u" "set_successor0 callBlock (i_kind u) = Inr k'"
    using o by (auto simp: mergeable_def)
  note readdr = merged_inst_readdresses[OF parts, where c = c and b = b]
  note s' = find_inst_replace_insts[OF readdr st'] parent_block_replace_insts[OF readdr st']
  have blk: "blk \<in> set (f_blocks f)" using parent_block_Some[OF o(3)] by simp
  have "find_inst f (i_id u) = Some u" using find_inst_member[OF wf block_inst_func[OF blk]] terminator_in[OF o(4)] by simp
  then obtain k'' where "set_successor0 callBlock (i_kind (merged_inst st n (i_id t) k sw c b u)) = Inr k''"
    using merged_inst_kinds(2)[OF parts _ o(5)] by blast
  moreover have "merged_inst st n (i_id t) k sw c b sti = sti"
    using merged_inst_kinds(1)[OF parts _ o(2)] o(1) st'(1) find_inst_Some[OF o(1)] by simp
  ultimately show ?thesis
    using s' o merged_terminator[OF wf parts blk o(4)] by (auto simp: mergeable_def)
qed

lemma merged_at_kept:
  assumes wf: "wf_func f" and parts: "merge_parts f st n t k sw callBlock" and old: "merged_at f n0 b' callBlock c' p"
    and n0: "st < n0"
  shows "merged_at (replace_insts (merged_inst st n (i_id t) k sw c b) f) n0 b' callBlock c' p"
proof -
  obtain bl ni u where u: "find_block f b' = Some bl" "ni \<in> set (b_insts bl)" "n0 \<le> i_id ni"
    "i_kind ni = Store (ConstInt c') p" "terminator bl = Some u" "first_of (successors (i_kind u)) = Some callBlock"
    using old by (auto simp: merged_at_def)
  have bl: "bl \<in> set (f_blocks f)" using find_block_Some[OF u(1)] by simp
  have member: "find_inst f (i_id j) = Some j" if "j \<in> set (b_insts bl)" for j
    using find_inst_member[OF wf block_inst_func[OF bl that]] .
  have "merged_inst st n (i_id t) k sw c b ni = ni" using merged_inst_kinds(1)[OF parts member[OF u(2)] u(4)] u(3) n0 by simp
  then have "ni \<in> set (b_insts (on_insts (map (merged_inst st n (i_id t) k sw c b)) bl))" using u(2) by force
  moreover have "first_of (successors (i_kind (merged_inst st n (i_id t) k sw c b u))) = Some callBlock"
    using merged_inst_kinds(4)[OF parts member] terminator_in[OF u(5)] u(6) by simp
  moreover have "find_block (replace_insts (merged_inst st n (i_id t) k sw c b) f) b' = Some (on_insts (map (merged_inst st n (i_id t) k sw c b)) bl)" by (simp add: find_block_replace_insts u(1))
  ultimately show ?thesis using merged_atI u(3,4) merged_terminator[OF wf parts bl u(5)] by blast
qed

lemma merged_at_new:
  assumes wf: "wf_func f" and parts: "merge_parts f st n t k sw callBlock"
    and blk: "parent_block f st = Some blk" "terminator blk = Some t" and n: "n0 \<le> i_id n" "i_kind n = Store (ConstInt c') p"
  shows "merged_at (replace_insts (merged_inst st n (i_id t) k sw c b) f) n0 (b_id blk) callBlock c' p"
proof -
  obtain sti where st: "find_inst f st = Some sti" using parts by (auto simp: merge_parts_def)
  have bl: "blk \<in> set (f_blocks f)" using parent_block_Some[OF blk(1)] by simp
  have "sti \<in> set (b_insts blk)"
    using parent_block_Some[OF blk(1)] find_inst_parent[OF wf blk(1)] st by force
  then have "n \<in> set (b_insts (on_insts (map (merged_inst st n (i_id t) k sw c b)) blk))"
    using find_inst_Some[OF st] by (force simp: merged_inst_def)
  moreover have "first_of (successors (i_kind (merged_inst st n (i_id t) k sw c b t))) = Some callBlock"
    using merged_inst_kinds(6)[OF parts] parts set_successor0_shape by (auto simp: merge_parts_def)
  moreover have "find_block (replace_insts (merged_inst st n (i_id t) k sw c b) f) (b_id blk) = Some (on_insts (map (merged_inst st n (i_id t) k sw c b)) blk)"
    by (simp add: find_block_replace_insts find_block_member[OF wf bl])
  ultimately show ?thesis using merged_atI n merged_terminator[OF wf parts bl blk(2)] by blast
qed

lemma merged_only_stores:
  assumes wf: "wf_func f" and parts: "merge_parts f st n t k sw callBlock" and t: "is_terminator (i_kind t)"
    and n: "i_kind n = Store v p"
  shows "only_stores_to p f (replace_insts (merged_inst st n (i_id t) k sw c b) f)"
  unfolding only_stores_to_def func_insts_replace_insts
proof (intro ballI allI impI)
  fix i v' q assume i: "i \<in> set (map (merged_inst st n (i_id t) k sw c b) (func_insts f))" "i_kind i = Store v' q"
  then obtain j where j: "j \<in> set (func_insts f)" "i = merged_inst st n (i_id t) k sw c b j" by auto
  note jf = find_inst_member[OF wf j(1)]
  show "i \<in> set (func_insts f) \<or> q = p"
  proof (cases "i_id j = st")
    case True
    then show ?thesis using i(2) j(2) n by (simp add: merged_inst_def)
  next
    case False
    have no: "\<not> is_terminator (i_kind j)"
    proof
      assume "is_terminator (i_kind j)"
      from merged_inst_kinds(3)[OF parts jf this, of c b] show False using i(2) unfolding j(2) by simp
    qed
    obtain swi v0 d0 cs0 where m: "find_inst f (i_id t) = Some t" "find_inst f sw = Some swi" "i_kind swi = Switch v0 d0 cs0"
      using parts by (auto simp: merge_parts_def)
    have "i_id j \<noteq> i_id t" using jf m(1) no t by (metis option.inject)
    moreover have "i_id j \<noteq> sw" using jf m(2,3) no by (metis is_terminator.simps(3) option.inject)
    ultimately show ?thesis using False j by (simp add: merged_inst_def)
  qed
qed

lemma merged_keeps_old:
  assumes wf: "wf_func f" and parts: "merge_parts f st n t k sw callBlock" and t: "is_terminator (i_kind t)" and n0: "n0 \<le> f_next f"
  shows "keeps_old n0 {st} f (replace_insts (merged_inst st n (i_id t) k sw c b) f)"
  unfolding keeps_old_def
proof (intro allI impI conjI)
  note readdr = merged_inst_readdresses[OF parts, where c = c and b = b]
  fix y assume y: "y < n0" "y \<notin> {st}"
  then have y': "y \<noteq> st" "y < f_next f" using n0 by auto
  show "map_option b_id (parent_block (replace_insts (merged_inst st n (i_id t) k sw c b) f) y) = map_option b_id (parent_block f y)"
    using parent_block_replace_insts[OF readdr y'] by (simp add: option.map_comp comp_def)
  fix i q assume i: "find_inst f y = Some i" "i_kind i = Load q"
  then have iy: "i_id i = y" using find_inst_Some by blast
  have "y \<noteq> i_id t" "y \<noteq> sw" using i t parts by (auto simp: merge_parts_def)
  then have "merged_inst st n (i_id t) k sw c b i = i" using y'(1) iy by (simp add: merged_inst_def)
  then show "find_inst (replace_insts (merged_inst st n (i_id t) k sw c b) f) y = Some i"
    using find_inst_replace_insts[OF readdr y'] i(1) by simp
qed

lemma merge_step_effect:
  assumes wf: "wf_func f" and load: "map_option b_id (parent_block f (ccs_load s)) = Some callBlock"
    and other: "switch_parts f other = Inr (vo, d, cs)" and own: "switch_parts f s = Inr (vs, ds, css)"
    and diff: "ccs_switch s \<noteq> ccs_switch other" and load_st: "ccs_load s \<noteq> st"
    and m: "mergeable f callBlock p st" and n0: "n0 \<le> f_next f" "st < n0"
  shows "\<exists>g. merge_block_id s other start (w, st) f = Inr g \<and> wf_func g \<and> n0 \<le> f_next g
    \<and> map_option b_id (parent_block g (ccs_load s)) = Some callBlock
    \<and> switch_parts g other = Inr (vo, d, cs)
    \<and> switch_parts g s = Inr (vs, ds, css @ new_cases start d cs [(w, st)])
    \<and> (\<forall>st'. st' \<noteq> st \<longrightarrow> st' < n0 \<longrightarrow> mergeable f callBlock p st' \<longrightarrow>
         mergeable g callBlock p st' \<and> map_option b_id (parent_block g st') = map_option b_id (parent_block f st'))
    \<and> (\<forall>b c. merged_at f n0 b callBlock c p \<longrightarrow> merged_at g n0 b callBlock c p)
    \<and> (\<forall>b. map_option b_id (parent_block f st) = Some b \<longrightarrow>
         merged_at g n0 b callBlock (cint_get 32 (w + start)) p)
    \<and> only_stores_to p f g \<and> keeps_old n0 {st} f g"
proof -
  obtain sti v blk t k where st: "find_inst f st = Some sti" "i_kind sti = Store v p"
    and blk: "parent_block f st = Some blk" "terminator blk = Some t"
    and k: "set_successor0 callBlock (i_kind t) = Inr k"
    using m by (auto simp: mergeable_def)
  obtain cb where cb: "parent_block f (ccs_load s) = Some cb" "b_id cb = callBlock" using load by auto
  obtain swi where sw: "find_inst f (ccs_switch s) = Some swi" "i_kind swi = Switch vs ds css"
    using own by (auto simp: switch_parts_Inr)
  obtain oi where oi: "find_inst f (ccs_switch other) = Some oi" "i_kind oi = Switch vo d cs"
    using other by (auto simp: switch_parts_Inr)
  let ?c = "cint_get 32 (w + start)" and ?b = "switch_target d cs (cint_get 32 w)"
  let ?n = "new_id_store f start w p"
  let ?R = "merged_inst st ?n (i_id t) k (ccs_switch s) ?c ?b"
  let ?g = "replace_insts ?R f"
  have run: "merge_block_id s other start (w, st) f = Inr ?g"
    unfolding replace_insts_def using k cb
    by (intro merge_block_id_step[OF wf st blk cb(1) _ other sw diff]) simp
  have blk_in: "blk \<in> set (f_blocks f)" using parent_block_Some[OF blk(1)] by simp
  have t: "t \<in> set (b_insts blk)" "find_inst f (i_id t) = Some t"
    using terminator_in[OF blk(2)] find_inst_parent[OF wf blk(1)] by auto
  have parts: "merge_parts f st ?n t k (ccs_switch s) callBlock"
    using st t(2) k sw by (auto simp: merge_parts_def new_id_store_def)
  note kinds = merged_inst_kinds[OF parts, where c = ?c and b = ?b]
  note readdr = merged_inst_readdresses[OF parts, where c = ?c and b = ?b]
  have fresh: "ccs_switch s < f_next f" "ccs_switch other < f_next f" "ccs_load s < f_next f"
    using find_inst_less[OF wf] sw oi parent_block_Some[OF cb(1)] wf
    by (auto simp: wf_func_def fresh_ids_def func_insts_def)
  have sts: "ccs_switch s \<noteq> st" "ccs_switch other \<noteq> st" using st sw oi by auto
  have 1: "wf_func ?g" by (rule wf_replace_insts[OF wf readdr])
  have 2: "map_option b_id (parent_block ?g (ccs_load s)) = Some callBlock"
    using parent_block_replace_insts[OF readdr load_st fresh(3)] cb by simp
  have 3: "switch_parts ?g other = Inr (vo, d, cs)"
    using find_inst_replace_insts[OF readdr sts(2) fresh(2)] oi diff find_inst_Some[OF oi(1)]
      kinds(5)[of oi, OF _ oi(2)]
    by (auto simp: switch_parts_Inr)
  have 4: "switch_parts ?g s = Inr (vs, ds, css @ new_cases start d cs [(w, st)])"
    using find_inst_replace_insts[OF readdr sts(1) fresh(1)] sw sts(1) find_inst_Some[OF sw(1)]
    by (auto simp: switch_parts_Inr merged_inst_def new_cases_def add_case_def)
  have small: "st' < f_next f" if "st' < n0" for st' using that n0 by simp
  have n: "i_kind ?n = Store (ConstInt ?c) p" "n0 \<le> i_id ?n" using n0(1) by (simp_all add: new_id_store_def)
  have ter: "is_terminator (i_kind t)" using terminator_in[OF blk(2)] by simp
  have 5: "mergeable ?g callBlock p st' \<and> map_option b_id (parent_block ?g st') = map_option b_id (parent_block f st')"
    if "st' \<noteq> st" "st' < n0" "mergeable f callBlock p st'" for st'
    by (rule merged_mergeable[OF wf parts that(3,1) small[OF that(2)]])
  have 6: "merged_at ?g n0 b callBlock c p" if "merged_at f n0 b callBlock c p" for b c
    by (rule merged_at_kept[OF wf parts that n0(2)])
  have 7: "merged_at ?g n0 b callBlock ?c p" if "map_option b_id (parent_block f st) = Some b" for b
    using merged_at_new[OF wf parts blk n(2,1)] blk(1) that by simp
  have 8: "only_stores_to p f ?g" by (rule merged_only_stores[OF wf parts ter n(1)])
  have 9: "n0 \<le> f_next ?g" using n0(1) by simp
  have keeps: "keeps_old n0 {st} f ?g" by (rule merged_keeps_old[OF wf parts ter n0(1)])
  show ?thesis
    by (rule exI[of _ ?g], intro conjI allI impI run 1 2 3 4 8 9 keeps)
      (erule (2) 5[THEN conjunct1], erule (2) 5[THEN conjunct2], erule 6, erule 7)
qed

lemma only_stores_to_trans: "only_stores_to p f g \<Longrightarrow> only_stores_to p g h \<Longrightarrow> only_stores_to p f h"
  unfolding only_stores_to_def by blast

lemma merge_loop:
  assumes "wf_func f" and "map_option b_id (parent_block f (ccs_load s)) = Some callBlock"
    and "switch_parts f other = Inr (vo, d, cs)" and "switch_parts f s = Inr (vs, ds, css)"
    and diff: "ccs_switch s \<noteq> ccs_switch other"
    and "\<forall>e \<in> set stores. mergeable f callBlock p (snd e) \<and> snd e < n0 \<and> snd e \<noteq> ccs_load s"
    and "distinct (map snd stores)" and "n0 \<le> f_next f"
  shows "\<exists>g. rfold (merge_block_id s other start) stores f = Inr g \<and> wf_func g
    \<and> map_option b_id (parent_block g (ccs_load s)) = Some callBlock
    \<and> switch_parts g other = Inr (vo, d, cs)
    \<and> switch_parts g s = Inr (vs, ds, css @ new_cases start d cs stores)
    \<and> (\<forall>b c. merged_at f n0 b callBlock c p \<longrightarrow> merged_at g n0 b callBlock c p)
    \<and> (\<forall>w st b. (w, st) \<in> set stores \<longrightarrow> map_option b_id (parent_block f st) = Some b \<longrightarrow>
         merged_at g n0 b callBlock (cint_get 32 (w + start)) p)
    \<and> only_stores_to p f g \<and> keeps_old n0 (snd ` set stores) f g"
  using assms(1-4,6-8)
proof (induction stores arbitrary: f css)
  case Nil
  then show ?case by (auto simp: new_cases_def only_stores_to_def keeps_old_def)
next
  case (Cons e stores)
  obtain w st where e: "e = (w, st)" by (cases e)
  have "ccs_load s \<noteq> st" "mergeable f callBlock p st" "st < n0" using Cons.prems(5) by (auto simp: e)
  from merge_step_effect[OF Cons.prems(1-4) diff this(1,2) Cons.prems(7) this(3), of start w]
  obtain g where g: "merge_block_id s other start (w, st) f = Inr g" "wf_func g" "n0 \<le> f_next g"
    "map_option b_id (parent_block g (ccs_load s)) = Some callBlock" "switch_parts g other = Inr (vo, d, cs)"
    "switch_parts g s = Inr (vs, ds, css @ new_cases start d cs [(w, st)])"
    and keep: "\<And>st'. st' \<noteq> st \<Longrightarrow> st' < n0 \<Longrightarrow> mergeable f callBlock p st' \<Longrightarrow>
         mergeable g callBlock p st' \<and> map_option b_id (parent_block g st') = map_option b_id (parent_block f st')"
    and old: "\<And>b c. merged_at f n0 b callBlock c p \<Longrightarrow> merged_at g n0 b callBlock c p"
    and new: "\<And>b. map_option b_id (parent_block f st) = Some b \<Longrightarrow> merged_at g n0 b callBlock (cint_get 32 (w + start)) p"
    and only: "only_stores_to p f g" and keeps: "keeps_old n0 {st} f g"
    by blast
  have st: "snd e' \<noteq> st" if "e' \<in> set stores" for e' using Cons.prems(6) that by (auto simp: e)
  have rest: "\<forall>e' \<in> set stores. mergeable g callBlock p (snd e') \<and> snd e' < n0 \<and> snd e' \<noteq> ccs_load s"
    using Cons.prems(5) keep st by auto
  have par: "map_option b_id (parent_block g st') = map_option b_id (parent_block f st')" if "(w', st') \<in> set stores" for w' st'
    using keep[of st'] st[OF that] Cons.prems(5) that by auto
  have "distinct (map snd stores)" using Cons.prems(6) by simp
  from Cons.IH[OF g(2,4,5,6) rest this g(3)]
  obtain h where h: "rfold (merge_block_id s other start) stores g = Inr h" "wf_func h"
    "map_option b_id (parent_block h (ccs_load s)) = Some callBlock" "switch_parts h other = Inr (vo, d, cs)"
    "switch_parts h s = Inr (vs, ds, (css @ new_cases start d cs [(w, st)]) @ new_cases start d cs stores)"
    and old': "\<And>b c. merged_at g n0 b callBlock c p \<Longrightarrow> merged_at h n0 b callBlock c p"
    and new': "\<And>w st b. (w, st) \<in> set stores \<Longrightarrow> map_option b_id (parent_block g st) = Some b \<Longrightarrow>
         merged_at h n0 b callBlock (cint_get 32 (w + start)) p"
    and only': "only_stores_to p g h" and keeps': "keeps_old n0 (snd ` set stores) g h"
    by blast
  have a1: "merged_at h n0 b callBlock (cint_get 32 (w' + start)) p"
    if "(w', st') \<in> set (e # stores)" "map_option b_id (parent_block f st') = Some b" for w' st' b
    using that new old' new'[of w' st' b] par[of w' st'] by (auto simp: e)
  have a2: "switch_parts h s = Inr (vs, ds, css @ new_cases start d cs (e # stores))"
    using h(5) by (simp add: e new_cases_def)
  have a3: "rfold (merge_block_id s other start) (e # stores) f = Inr h" using g(1) h(1) by (simp add: e)
  have a4: "keeps_old n0 (snd ` set (e # stores)) f h"
    using keeps_old_trans[OF keeps keeps'] by (simp add: e)
  show ?case
    by (rule exI[of _ h], intro conjI allI impI a3 h(2-4) a2 only_stores_to_trans[OF only only'] a4)
      (erule old'[OF old], erule (1) a1)
qed

text \<open>The tables of numbers read from the function.\<close>

lemma id_stores_entry:
  assumes ord: "reordering ord" and wf: "wf_func f"
    and a: "load_pointer f s = Inr (InstVal a)" and lb: "parent_block f (ccs_load s) = Some lb"
    and stores: "get_block_id_stores ord f s = Inr stores" and e: "(w, st) \<in> set stores"
  shows "\<exists>u c. u \<in> set (func_insts f) \<and> i_id u = st \<and> i_kind u = Store (ConstInt c) (InstVal a)
    \<and> zext_value c = w \<and> stores_id f (b_id lb) w u"
proof -
  obtain stores' where s': "get_block_id_stores ord f s = Inr stores'" "omap_sorted stores'"
    "map_of stores' w = map_option i_id (List.find (stores_id f (b_id lb) w) (ord (users f (InstVal a))))"
    using get_block_id_stores_facts[OF a lb] by blast
  then have "map_of stores w = Some st"
    using stores e omap.entries_iff[of stores w st] by simp
  then obtain u where u: "List.find (stores_id f (b_id lb) w) (ord (users f (InstVal a))) = Some u" "i_id u = st"
    using s' stores by auto
  then have "u \<in> set (ord (users f (InstVal a)))" "stores_id f (b_id lb) w u"
    by (auto simp: find_Some_iff)
  then have "u \<in> set (users f (InstVal a))" "stores_id f (b_id lb) w u"
    by (simp_all add: reordering_set[OF ord])
  then show ?thesis using u(2) by (auto simp: set_users uses_def stores_id_def)
qed

lemma id_stores_distinct:
  assumes "reordering ord" and "wf_func f" and "load_pointer f s = Inr (InstVal a)"
    and "parent_block f (ccs_load s) = Some lb" and "get_block_id_stores ord f s = Inr stores"
  shows "distinct (map fst stores) \<and> distinct (map snd stores)"
proof
  have sorted: "omap_sorted stores" using get_block_id_stores_facts[OF assms(3,4), of ord] assms(5) by auto
  then show "distinct (map fst stores)" by (rule omap.entries_distinct)
  then have d: "distinct stores" by (simp add: distinct_map)
  moreover have "inj_on snd (set stores)"
  proof (rule inj_onI)
    fix x y assume xy: "x \<in> set stores" "y \<in> set stores" "snd x = snd y"
    obtain w st where x: "x = (w, st)" by (cases x)
    obtain w' where y: "y = (w', st)" using xy(3) x by (cases y) auto
    obtain u where u: "u \<in> set (func_insts f)" "i_id u = st" "stores_id f (b_id lb) w u"
      using id_stores_entry[OF assms] xy(1) x by blast
    obtain u' where u': "u' \<in> set (func_insts f)" "i_id u' = st" "stores_id f (b_id lb) w' u'"
      using id_stores_entry[OF assms] xy(2) y by blast
    have "u = u'" using inst_eq_by_id[OF assms(2) u(1) u'(1)] u(2) u'(2) by simp
    then show "x = y" using stores_id_unique u(3) u'(3) x y by blast
  qed
  ultimately show "distinct (map snd stores)" by (simp add: distinct_map)
qed

section \<open>The whole merge\<close>

text \<open>
  What the code relies on of \<open>DeleteDeadBlock\<close>, for a block without predecessors: an instruction of
  another block that is not a \<open>phi\<close> stays, in its block and with its kind; its operands may change, where
  they are results of instructions of the deleted block.
\<close>

definition del_dead_ok :: "(nat \<Rightarrow> ir_func \<Rightarrow> ir_func) \<Rightarrow> bool" where
  "del_dead_ok del_dead \<longleftrightarrow>
     (\<forall>f b x i pb. pred_empty f b \<longrightarrow> find_inst f x = Some i \<longrightarrow> parent_block f x = Some pb \<longrightarrow>
        b_id pb \<noteq> b \<longrightarrow> \<not> is_phi (i_kind i) \<longrightarrow>
        (\<exists>h i'. find_inst (del_dead b f) x = Some i' \<and> i_kind i' = map_ikind h (i_kind i)
           \<and> map_option b_id (parent_block (del_dead b f) x) = Some (b_id pb)))"

lemma del_dead_switch:
  assumes "del_dead_ok del_dead" and "pred_empty f b" and "switch_parts f s = Inr (v, d, cs)"
    and "map_option b_id (parent_block f (ccs_switch s)) = Some c" and "c \<noteq> b"
  shows "\<exists>v'. switch_parts (del_dead b f) s = Inr (v', d, cs)
    \<and> map_option b_id (parent_block (del_dead b f) (ccs_switch s)) = Some c"
proof -
  obtain i pb where i: "find_inst f (ccs_switch s) = Some i" "i_kind i = Switch v d cs"
    "parent_block f (ccs_switch s) = Some pb" "b_id pb = c"
    using assms(3,4) by (auto simp: switch_parts_Inr)
  then obtain h i' where "find_inst (del_dead b f) (ccs_switch s) = Some i'" "i_kind i' = map_ikind h (i_kind i)"
    "map_option b_id (parent_block (del_dead b f) (ccs_switch s)) = Some c"
    using assms(1,2,5) unfolding del_dead_ok_def by fastforce
  with i(2) show ?thesis by (auto simp: switch_parts_Inr)
qed

lemma retire_call_block_switch:
  assumes wf: "wf_func f" and del: "del_dead_ok del_dead"
    and other: "switch_parts f other = Inr (vo, d, cs)" and own: "switch_parts f s = Inr (vs, ds, css)"
    and diff: "ccs_switch s \<noteq> ccs_switch other"
    and ob: "parent_block f (ccs_switch other) = Some ob"
    and lo: "find_inst f (ccs_load other) = Some li" "i_kind li = Load p"
      "map_option b_id (parent_block f (ccs_load other)) = Some lob"
    and sb: "map_option b_id (parent_block f (ccs_switch s)) = Some sb" "sb \<noteq> d" "sb \<noteq> lob" "lob \<noteq> d"
  shows "\<exists>g v'. retire_call_block del_dead s other f = Inr g \<and> switch_parts g s = Inr (v', ds, css)"
proof -
  obtain oi where oi: "find_inst f (ccs_switch other) = Some oi" "i_kind oi = Switch vo d cs"
    using other by (auto simp: switch_parts_Inr)
  obtain si where si: "find_inst f (ccs_switch s) = Some si" "i_kind si = Switch vs ds css"
    using own by (auto simp: switch_parts_Inr)
  have old: "ccs_switch other \<noteq> f_next f" "ccs_switch s \<noteq> f_next f" "ccs_load other \<noteq> f_next f"
    using find_inst_less[OF wf oi(1)] find_inst_less[OF wf si(1)] find_inst_less[OF wf lo(1)] by auto
  have load: "ccs_load other \<noteq> ccs_switch other" using lo oi by auto
  define f1 where "f1 = new_at_end (b_id ob) Unreachable VoidTy f"
  define f3 where "f3 = erase_inst (ccs_switch other)
    (upd_inst (ccs_switch other) (\<lambda>i. i\<lparr>i_kind := set_default_dest ds (i_kind i)\<rparr>) f1)"
  have parts1: "switch_parts f1 other = Inr (vo, d, cs)" "switch_parts f1 s = Inr (vs, ds, css)"
    using oi si by (simp_all add: switch_parts_Inr f1_def new_at_end_other old)
  have find3: "find_inst f3 x = find_inst f x" if "x \<noteq> ccs_switch other" "x \<noteq> f_next f" for x
    using that by (simp add: f3_def f1_def find_inst_erase_inst find_inst_upd_inst new_at_end_other)
  have par3: "map_option b_id (parent_block f3 x) = map_option b_id (parent_block f x)"
    if "x \<noteq> ccs_switch other" "x \<noteq> f_next f" for x
    using that by (simp add: f3_def f1_def parent_block_erase_inst parent_block_upd_inst new_at_end_other)
  have s3: "switch_parts f3 s = Inr (vs, ds, css)" "map_option b_id (parent_block f3 (ccs_switch s)) = Some sb"
    using si sb(1) find3[OF diff old(2)] par3[OF diff old(2)] by (auto simp: switch_parts_Inr)
  define f4 where "f4 = (if pred_empty f3 d then del_dead d f3 else f3)"
  obtain v4 where s4: "switch_parts f4 s = Inr (v4, ds, css)" "map_option b_id (parent_block f4 (ccs_switch s)) = Some sb"
    using del_dead_switch[OF del _ s3 sb(2)] s3 by (cases "pred_empty f3 d") (auto simp: f4_def)
  obtain lb where lb: "parent_block f3 (ccs_load other) = Some lb" "b_id lb = lob"
    using par3[OF load old(3)] lo(3) by auto
  have "map_option b_id (parent_block f4 (ccs_load other)) = Some lob"
  proof (cases "pred_empty f3 d")
    case True
    with del lb sb(4) lo(2) find3[OF load old(3)] lo(1) show ?thesis
      unfolding del_dead_ok_def f4_def by fastforce
  qed (simp add: f4_def lb)
  then obtain lb4 where lb4: "parent_block f4 (ccs_load other) = Some lb4" "b_id lb4 = lob" by auto
  let ?g = "if pred_empty f4 lob then del_dead lob f4 else f4"
  have "retire_call_block del_dead s other f = Inr ?g"
    by (simp only: retire_call_block_def get_parent_def Let_def ob option.case rbind.simps prod.case parts1
        lb4 f1_def[symmetric] f3_def[symmetric] f4_def[symmetric])
  moreover obtain v' where "switch_parts ?g s = Inr (v', ds, css)"
    using del_dead_switch[OF del _ s4 sb(3)] s4(1) by (cases "pred_empty f4 lob") auto
  ultimately show ?thesis by blast
qed

text \<open>
  A call site as the pass leaves it: its switch is on a 32-bit number with different cases, and every
  block that stores a number for it ends in a branch.
\<close>

definition branches_back :: "ir_func \<Rightarrow> ir_inst \<Rightarrow> bool" where
  "branches_back f u \<longleftrightarrow>
     (case parent_block f (i_id u) of
        None \<Rightarrow> False
      | Some b \<Rightarrow> (case terminator b of
                    Some t \<Rightarrow> (case i_kind t of Br x \<Rightarrow> True | CondBr v x y \<Rightarrow> True | _ \<Rightarrow> False)
                  | None \<Rightarrow> False))"

definition wf_call_site :: "ir_func \<Rightarrow> combined_call_site \<Rightarrow> nat \<Rightarrow> bool" where
  "wf_call_site f s a \<longleftrightarrow> ccs_caller s = f_id f \<and>
     (\<exists>v d cs. switch_parts f s = Inr (v, d, cs) \<and> cases32 cs \<and> distinct (case_values cs)) \<and>
     load_pointer f s = Inr (InstVal a) \<and>
     (\<exists>lb. parent_block f (ccs_load s) = Some lb \<and>
        (\<forall>u \<in> set (users f (InstVal a)). \<forall>w. stores_id f (b_id lb) w u \<longrightarrow> branches_back f u))"

lemma branches_back_successor:
  "branches_back f u \<Longrightarrow> \<exists>blk t k. parent_block f (i_id u) = Some blk \<and> terminator blk = Some t
     \<and> set_successor0 b (i_kind t) = Inr k"
  by (auto simp: branches_back_def split: option.splits ikind.splits)

lemma load_pointer_Inr: "load_pointer f s = Inr p \<longleftrightarrow> (\<exists>i. find_inst f (ccs_load s) = Some i \<and> i_kind i = Load p)"
proof (cases "find_inst f (ccs_load s)")
  case (Some i)
  then show ?thesis by (cases "i_kind i") (auto simp: load_pointer_def get_inst_def)
qed (simp add: load_pointer_def get_inst_def)

text \<open>The merge loop on the numbers of a well-formed site.\<close>

lemma merge_loop_site:
  assumes wf: "wf_func f" and ord: "reordering ord" and s: "wf_call_site f s a" and other: "wf_call_site f other ao"
    and diff: "ccs_switch s \<noteq> ccs_switch other"
    and own: "switch_parts f s = Inr (vs, ds, css)" and parts: "switch_parts f other = Inr (vo, d, cs)"
    and stores: "get_block_id_stores ord f other = Inr stores"
  shows "\<exists>g callBlock. rfold (merge_block_id s other start) stores f = Inr g \<and> wf_func g
    \<and> map_option b_id (parent_block f (ccs_load s)) = Some callBlock
    \<and> switch_parts g other = Inr (vo, d, cs)
    \<and> switch_parts g s = Inr (vs, ds, css @ new_cases start d cs stores)
    \<and> (\<forall>w st b. (w, st) \<in> set stores \<longrightarrow> map_option b_id (parent_block f st) = Some b \<longrightarrow>
         merged_at g (f_next f) b callBlock (cint_get 32 (w + start)) (InstVal ao))
    \<and> only_stores_to (InstVal ao) f g \<and> keeps_old (f_next f) (snd ` set stores) f g"
proof -
  obtain lbo where lbo: "parent_block f (ccs_load other) = Some lbo"
    "\<forall>u \<in> set (users f (InstVal ao)). \<forall>w. stores_id f (b_id lbo) w u \<longrightarrow> branches_back f u"
    "load_pointer f other = Inr (InstVal ao)"
    using other by (auto simp: wf_call_site_def)
  obtain lb where lb: "parent_block f (ccs_load s) = Some lb" "load_pointer f s = Inr (InstVal a)"
    using s by (auto simp: wf_call_site_def)
  obtain li where li: "find_inst f (ccs_load s) = Some li" "i_kind li = Load (InstVal a)"
    using lb(2) by (auto simp: load_pointer_Inr)
  have "mergeable f (b_id lb) (InstVal ao) (snd e) \<and> snd e < f_next f \<and> snd e \<noteq> ccs_load s" if e: "e \<in> set stores" for e
  proof -
    obtain u c where u: "u \<in> set (func_insts f)" "i_id u = snd e" "i_kind u = Store (ConstInt c) (InstVal ao)"
      "stores_id f (b_id lbo) (fst e) u"
      using id_stores_entry[OF ord wf lbo(3,1) stores, of "fst e" "snd e"] e by auto
    have find: "find_inst f (snd e) = Some u" using find_inst_member[OF wf u(1)] u(2) by simp
    have "u \<in> set (users f (InstVal ao))" using u(1,3) by (simp add: set_users uses_def)
    then have "branches_back f u" using lbo(2) u(4) by blast
    then show ?thesis
      using branches_back_successor[of f u "b_id lb"] u find li find_inst_less[OF wf find]
      by (auto simp: mergeable_def)
  qed
  then show ?thesis
    using merge_loop[OF wf _ parts own diff, of "b_id lb" stores "InstVal ao" "f_next f" start] lb(1)
      id_stores_distinct[OF ord wf lbo(3,1) stores] by auto
qed

lemma new_cases_keys:
  assumes "cases32 css" and "distinct (case_values css)"
    and "distinct (map fst stores)" and "start = max_id (case_ids css) + 1"
    and small: "\<forall>e \<in> set stores. unat (fst e) + unat start < 2 ^ 32"
  shows "distinct (case_values css @ map fst (new_cases start d cs stores))"
proof -
  have key: "unat (fst e + start) = unat (fst e) + unat start" if "e \<in> set stores" for e
  proof -
    have "unat (fst e) + unat start < 2 ^ 64" using bspec[OF small that] by simp
    then show ?thesis by (simp add: unat_word_ariths)
  qed
  have keys: "map fst (new_cases start d cs stores) = map (\<lambda>e. cint_get 32 (fst e + start)) stores"
    by (simp add: new_cases_def comp_def)
  have "inj_on (\<lambda>e. cint_get 32 (fst e + start)) (set stores)"
  proof (rule inj_onI)
    fix x y assume xy: "x \<in> set stores" "y \<in> set stores" "cint_get 32 (fst x + start) = cint_get 32 (fst y + start)"
    then have "unat (fst x + start) = unat (fst y + start)"
      using small key[OF xy(1)] key[OF xy(2)] by (simp add: cint_get_32)
    then have "unat (fst x) = unat (fst y)" using key[OF xy(1)] key[OF xy(2)] by simp
    then have "fst x = fst y" by (simp only: unsigned_word_eqI)
    then show "x = y" using assms(3) xy(1,2) by (meson distinct_map inj_onD)
  qed
  then have "distinct (map fst (new_cases start d cs stores))"
    using assms(3) unfolding keys by (simp add: distinct_map)
  moreover have "cint_get 32 (fst e + start) \<notin> set (case_values css)" if e: "e \<in> set stores" for e
  proof
    assume "cint_get 32 (fst e + start) \<in> set (case_values css)"
    moreover have "unat (fst e + start) < 2 ^ 32" using small key[OF e] e by simp
    ultimately have old: "fst e + start \<in> set (case_ids css)" using case_value_in[OF assms(1)] by simp
    then have "unat (fst e + start) \<le> unat (max_id (case_ids css))"
      using max_id_upper by (simp add: word_le_nat_alt)
    moreover have "unat start = unat (max_id (case_ids css)) + 1"
    proof -
      have "case_ids css \<noteq> []" using old by auto
      then have "unat (max_id (case_ids css)) < 2 ^ 32" using case_ids_bound[OF assms(1)] max_id_in by blast
      then show ?thesis unfolding assms(4) by (simp add: unat_word_ariths)
    qed
    ultimately show False using key[OF e] by simp
  qed
  ultimately show ?thesis using assms(2) keys by auto
qed

text \<open>The run of \<open>combine\<close>, and the cases the switch has afterwards.\<close>

lemma combine_run:
  assumes "wf_func f"
    and "reordering ord"
    and "del_dead_ok del_dead"
    and "wf_call_site f s a"
    and "wf_call_site f other ao"
    and "ccs_callee_name other = ccs_callee_name s"
    and "ccs_switch s \<noteq> ccs_switch other"
    and "switch_parts f s = Inr (vs, ds, css)"
    and "switch_parts f other = Inr (vo, d, cs)"
    and "get_max_block_id f s = Inr maxId"
    and "get_block_id_stores ord f other = Inr stores"
    and "map_option b_id (parent_block f (ccs_switch s)) = Some sb"
    and "map_option b_id (parent_block f (ccs_load other)) = Some lob"
    and "sb \<noteq> d"
    and "sb \<noteq> lob"
    and "lob \<noteq> d"
  shows "\<exists>h v'. combine del_dead ord s other f = Inr (True, h) \<and>
    switch_parts h s = Inr (v', ds, css @ new_cases (maxId + 1) d cs stores)"
proof -
  have caller: "ccs_caller other = ccs_caller s" using assms(4,5) by (auto simp: wf_call_site_def)
  obtain g where g: "rfold (merge_block_id s other (maxId + 1)) stores f = Inr g" "wf_func g"
    "switch_parts g other = Inr (vo, d, cs)" "switch_parts g s = Inr (vs, ds, css @ new_cases (maxId + 1) d cs stores)"
    "keeps_old (f_next f) (snd ` set stores) f g"
    using merge_loop_site[OF assms(1,2,4,5,7,8,9,11), of "maxId + 1"] by blast
  obtain li where li: "find_inst f (ccs_load other) = Some li" "i_kind li = Load (InstVal ao)"
    and lbo: "load_pointer f other = Inr (InstVal ao)"
    using assms(5) by (auto simp: wf_call_site_def load_pointer_Inr)
  obtain lb where lb: "parent_block f (ccs_load other) = Some lb" using assms(13) by auto
  have not_store: "y \<notin> snd ` set stores" if "find_inst f y = Some i" "\<not> is_store (i_kind i)" for y i
  proof
    assume "y \<in> snd ` set stores"
    then obtain w where "(w, y) \<in> set stores" by force
    then obtain u c where "u \<in> set (func_insts f)" "i_id u = y" "i_kind u = Store (ConstInt c) (InstVal ao)"
      using id_stores_entry[OF assms(2,1) lbo lb assms(11)] by blast
    with find_inst_member[OF assms(1)] that show False by fastforce
  qed
  obtain oi where oi: "find_inst f (ccs_switch other) = Some oi" "i_kind oi = Switch vo d cs"
    using assms(9) by (auto simp: switch_parts_Inr)
  obtain si where si: "find_inst f (ccs_switch s) = Some si" "i_kind si = Switch vs ds css"
    using assms(8) by (auto simp: switch_parts_Inr)
  have keep: "map_option b_id (parent_block g y) = map_option b_id (parent_block f y) \<and>
      (\<forall>q. i_kind i = Load q \<longrightarrow> find_inst g y = Some i)"
    if "find_inst f y = Some i" "\<not> is_store (i_kind i)" for y i
    using g(5) not_store[OF that] find_inst_less[OF assms(1) that(1)] that(1) unfolding keeps_old_def by blast
  have "find_inst g (ccs_load other) = Some li" using keep[OF li(1)] li(2) by simp
  moreover have "map_option b_id (parent_block g (ccs_load other)) = Some lob" using keep[OF li(1)] li(2) assms(13) by simp
  moreover have "map_option b_id (parent_block g (ccs_switch s)) = Some sb" using keep[OF si(1)] si(2) assms(12) by simp
  moreover obtain ob where "parent_block g (ccs_switch other) = Some ob"
  proof -
    obtain i where "find_inst g (ccs_switch other) = Some i" using g(3) by (auto simp: switch_parts_Inr)
    then show ?thesis using that find_inst_has_parent by blast
  qed
  ultimately obtain h v' where h: "retire_call_block del_dead s other g = Inr h"
    "switch_parts h s = Inr (v', ds, css @ new_cases (maxId + 1) d cs stores)"
    using retire_call_block_switch[OF g(2) assms(3) g(3,4) assms(7) _ _ li(2)] assms(14-16) by blast
  have run: "combine del_dead ord s other f = Inr (True, h)"
    by (simp add: combine_def assms(6) caller assms(10,11) g(1) h(1))
  with h(2) show ?thesis by blast
qed

lemma find_new_case:
  assumes "distinct (case_values css @ map fst (new_cases n d cs stores))"
  shows "c \<in> set (case_values css) \<Longrightarrow> find_case (css @ new_cases n d cs stores) c = find_case css c"
    and "e \<in> set stores \<Longrightarrow>
      find_case (css @ new_cases n d cs stores) (cint_get 32 (fst e + n)) = Some (switch_target d cs (cint_get 32 (fst e)))"
proof -
  show "find_case (css @ new_cases n d cs stores) c = find_case css c" if c: "c \<in> set (case_values css)"
  proof -
    have "map_of (new_cases n d cs stores) c = None" using assms c by (auto simp: map_of_eq_None_iff)
    then show ?thesis using sw.target_add_all[OF assms] by (simp add: add_all_append)
  qed
  show "find_case (css @ new_cases n d cs stores) (cint_get 32 (fst e + n)) = Some (switch_target d cs (cint_get 32 (fst e)))"
    if e: "e \<in> set stores"
  proof -
    have "(cint_get 32 (fst e + n), switch_target d cs (cint_get 32 (fst e))) \<in> set (new_cases n d cs stores)"
      using e by (simp add: new_cases_def)
    from sw.target_added[OF assms this] show ?thesis by (simp add: add_all_append)
  qed
qed

text \<open>
  C5: Merging two well-formed sites of the same callee succeeds, and extends the switch of the first:
  it keeps its default and its cases, and has for every number of the other site, moved up behind the
  largest number of the first, a case that leads where the switch of the other site led. The numbers
  have to stay below $2^{32}$.
\<close>

theorem combine_extends_switch:
  assumes "wf_func f" and "reordering ord" and "del_dead_ok del_dead"
    and "wf_call_site f s a" and "wf_call_site f other ao"
    and "ccs_callee_name other = ccs_callee_name s" and "ccs_switch s \<noteq> ccs_switch other"
    and "switch_parts f s = Inr (vs, ds, css)" and "switch_parts f other = Inr (vo, d, cs)"
    and "get_max_block_id f s = Inr maxId" and "get_block_id_stores ord f other = Inr stores"
    and "\<forall>e \<in> set stores. unat (fst e) + unat (maxId + 1) < 2 ^ 32"
    and "map_option b_id (parent_block f (ccs_switch s)) = Some sb"
    and "map_option b_id (parent_block f (ccs_load other)) = Some lob"
    and "sb \<noteq> d" and "sb \<noteq> lob" and "lob \<noteq> d"
  shows "\<exists>g v' css'. combine del_dead ord s other f = Inr (True, g) \<and> switch_parts g s = Inr (v', ds, css') \<and>
    (\<forall>c \<in> set (case_values css). find_case css' c = find_case css c) \<and>
    (\<forall>e \<in> set stores. find_case css' (cint_get 32 (fst e + (maxId + 1))) = Some (switch_target d cs (cint_get 32 (fst e))))"
proof -
  have css: "cases32 css" "distinct (case_values css)" using assms(4,8) by (auto simp: wf_call_site_def)
  have maxId: "maxId = max_id (case_ids css)"
    using assms(10) by (simp add: get_max_block_id_def get_block_ids_def assms(8))
  have lbo: "load_pointer f other = Inr (InstVal ao)"
    using assms(5) by (auto simp: wf_call_site_def load_pointer_Inr)
  obtain lb where lb: "parent_block f (ccs_load other) = Some lb" using assms(14) by auto
  have "distinct (case_values css @ map fst (new_cases (maxId + 1) d cs stores))"
    using id_stores_distinct[OF assms(2,1) lbo lb assms(11)] assms(12) maxId
    by (intro new_cases_keys[OF css]) simp_all
  with find_new_case[OF this] combine_run[OF assms(1-11) assms(13-17)] show ?thesis by blast
qed

text \<open>
  C6: The merged numbers do not reach the call block. Every branching block of the other site now
  stores its new number and branches to the call block of the first site, but the store is still to the
  other site's variable: where the two sites have different variables, no store to the one that the call
  block loads is added or changed.
\<close>

theorem combine_numbers_miss_variable:
  assumes "wf_func f" and "reordering ord"
    and "wf_call_site f s a" and "wf_call_site f other ao" and "ao \<noteq> a"
    and "ccs_switch s \<noteq> ccs_switch other" and "get_block_id_stores ord f other = Inr stores"
  shows "\<exists>g callBlock. rfold (merge_block_id s other start) stores f = Inr g \<and>
    map_option b_id (parent_block f (ccs_load s)) = Some callBlock \<and>
    (\<forall>e \<in> set stores. \<exists>b blk t ni. map_option b_id (parent_block f (snd e)) = Some b \<and>
       find_block g b = Some blk \<and> terminator blk = Some t \<and> first_of (successors (i_kind t)) = Some callBlock \<and>
       ni \<in> set (b_insts blk) \<and> i_kind ni = Store (ConstInt (cint_get 32 (fst e + start))) (InstVal ao)) \<and>
    (\<forall>i \<in> set (func_insts g). \<forall>v. i_kind i = Store v (InstVal a) \<longrightarrow> i \<in> set (func_insts f))"
proof -
  obtain vs ds css vo d cs where parts: "switch_parts f s = Inr (vs, ds, css)" "switch_parts f other = Inr (vo, d, cs)"
    using assms(3,4) by (auto simp: wf_call_site_def)
  obtain lbo where lbo: "load_pointer f other = Inr (InstVal ao)" "parent_block f (ccs_load other) = Some lbo"
    using assms(4) by (auto simp: wf_call_site_def)
  obtain g callBlock where g: "rfold (merge_block_id s other start) stores f = Inr g"
    "map_option b_id (parent_block f (ccs_load s)) = Some callBlock"
    "\<forall>w st b. (w, st) \<in> set stores \<longrightarrow> map_option b_id (parent_block f st) = Some b \<longrightarrow>
         merged_at g (f_next f) b callBlock (cint_get 32 (w + start)) (InstVal ao)"
    "only_stores_to (InstVal ao) f g"
    using merge_loop_site[OF assms(1,2,3,4,6) parts assms(7), of start] by blast
  have "\<exists>b blk t ni. map_option b_id (parent_block f (snd e)) = Some b \<and>
       find_block g b = Some blk \<and> terminator blk = Some t \<and> first_of (successors (i_kind t)) = Some callBlock \<and>
       ni \<in> set (b_insts blk) \<and> i_kind ni = Store (ConstInt (cint_get 32 (fst e + start))) (InstVal ao)"
    if e: "e \<in> set stores" for e
  proof -
    obtain u where "stores_id f (b_id lbo) (fst e) u" "i_id u = snd e"
      using id_stores_entry[OF assms(2,1) lbo assms(7), of "fst e" "snd e"] e by auto
    then obtain b where b: "map_option b_id (parent_block f (snd e)) = Some b" by (auto simp: stores_id_def)
    then have "merged_at g (f_next f) b callBlock (cint_get 32 (fst e + start)) (InstVal ao)"
      using g(3)[rule_format, of "fst e" "snd e" b] e by simp
    with b show ?thesis unfolding merged_at_def by blast
  qed
  moreover have "i \<in> set (func_insts f)" if "i \<in> set (func_insts g)" "i_kind i = Store v (InstVal a)" for i v
    using g(4) that assms(5) unfolding only_stores_to_def by blast
  ultimately show ?thesis using g(1,2) by blast
qed

definition drop_block :: "nat \<Rightarrow> ir_func \<Rightarrow> ir_func" where
  "drop_block b f = f\<lparr>f_blocks := filter (\<lambda>c. b_id c \<noteq> b) (f_blocks f)\<rparr>"

lemma drop_block_ok: "del_dead_ok drop_block"
proof -
  have keep: "at_id i_id x (concat (map b_insts (filter (\<lambda>c. b_id c \<noteq> b) bs))) = Some i \<and>
      List.find (\<lambda>b. x \<in> set (map i_id (b_insts b))) (filter (\<lambda>c. b_id c \<noteq> b) bs) = Some pb"
    if "at_id i_id x (concat (map b_insts bs)) = Some i"
      "List.find (\<lambda>b. x \<in> set (map i_id (b_insts b))) bs = Some pb" "b_id pb \<noteq> b" for x b i pb bs
    using that
  proof (induction bs)
    case (Cons c bs)
    show ?case
    proof (cases "x \<in> set (map i_id (b_insts c))")
      case True
      with Cons.prems show ?thesis
        using at_id_None[of i_id x "b_insts c"] by (auto simp: at_id_append split: option.splits)
    next
      case False
      then have "at_id i_id x (b_insts c) = None" by (simp add: at_id_None)
      with False Cons show ?thesis by (auto simp: at_id_append)
    qed
  qed simp
  show ?thesis
    unfolding del_dead_ok_def
  proof (intro allI impI)
    fix f b x i pb assume "find_inst f x = Some i" "parent_block f x = Some pb" "b_id pb \<noteq> b"
    moreover have blocks: "f_blocks (drop_block b f) = filter (\<lambda>c. b_id c \<noteq> b) (f_blocks f)"
      by (simp add: drop_block_def)
    ultimately have "find_inst (drop_block b f) x = Some i \<and> parent_block (drop_block b f) x = Some pb"
      unfolding find_inst_def func_insts_def parent_block_def blocks by (intro keep)
    then show "\<exists>h i'. find_inst (drop_block b f) x = Some i' \<and> i_kind i' = map_ikind h (i_kind i)
        \<and> map_option b_id (parent_block (drop_block b f) x) = Some (b_id pb)"
      by (intro exI[of _ "\<lambda>v. v"] exI[of _ i]) (simp add: ikind.map_ident)
  qed
qed

lemma demo_sites_ok:
  "wf_func demo_sites" "wf_call_site demo_sites demo_first 1" "wf_call_site demo_sites demo_second 2"
  "switch_parts demo_sites demo_first = Inr (InstVal 11, 30, [(CInt 32 0, 20)])"
  "switch_parts demo_sites demo_second = Inr (InstVal 41, 30, [(CInt 32 0, 50)])"
  "get_max_block_id demo_sites demo_first = Inr 0"
  "get_block_id_stores rev demo_sites demo_second = Inr [(0, 21)]"
  "map_option b_id (parent_block demo_sites (ccs_switch demo_first)) = Some 10"
  "map_option b_id (parent_block demo_sites (ccs_load demo_second)) = Some 40"
proof -
  show "wf_func demo_sites"
    by (simp add: wf_func_def fresh_ids_def demo_eval)
  show first: "switch_parts demo_sites demo_first = Inr (InstVal 11, 30, [(CInt 32 0, 20)])"
    and "switch_parts demo_sites demo_second = Inr (InstVal 41, 30, [(CInt 32 0, 50)])"
    and "map_option b_id (parent_block demo_sites (ccs_switch demo_first)) = Some 10"
    and "map_option b_id (parent_block demo_sites (ccs_load demo_second)) = Some 40"
    by (simp_all add: demo_eval demo_first_def demo_second_def)
  show "get_max_block_id demo_sites demo_first = Inr 0"
    by (simp add: get_max_block_id_def get_block_ids_def first case_ids_def zext_value_def)
  show "get_block_id_stores rev demo_sites demo_second = Inr [(0, 21)]"
    by (simp add: get_block_id_stores_def cond_users_def demo_eval demo_second_def users_def id_store_def
        predecessors_def block_succs_def zext_value_def)
  show "wf_call_site demo_sites demo_first 1"
    by (simp add: wf_call_site_def demo_eval demo_first_def cases32_def case_values_def users_def stores_id_def
        predecessors_def block_succs_def branches_back_def terminator_def)
  show "wf_call_site demo_sites demo_second 2"
    by (simp add: wf_call_site_def demo_eval demo_second_def cases32_def case_values_def users_def stores_id_def
        predecessors_def block_succs_def branches_back_def terminator_def)
qed

theorem combine_extends_switch_witness:
  "\<exists>g v' css'. combine drop_block rev demo_first demo_second demo_sites = Inr (True, g) \<and>
    switch_parts g demo_first = Inr (v', 30, css') \<and>
    (\<forall>c \<in> set (case_values [(CInt 32 0, 20)]). find_case css' c = find_case [(CInt 32 0, 20)] c) \<and>
    (\<forall>e \<in> set [(0 :: 64 word, 21 :: nat)]. find_case css' (cint_get 32 (fst e + (0 + 1))) =
       Some (switch_target 30 [(CInt 32 0, 50)] (cint_get 32 (fst e))))"
  by (rule combine_extends_switch[OF demo_sites_ok(1) reordering_rev drop_block_ok demo_sites_ok(2,3) _ _
        demo_sites_ok(4-7) _ demo_sites_ok(8,9)])
    (simp_all add: demo_first_def demo_second_def)

theorem combine_numbers_miss_variable_witness:
  "\<exists>g callBlock. rfold (merge_block_id demo_first demo_second 1) [(0, 21)] demo_sites = Inr g \<and>
    map_option b_id (parent_block demo_sites (ccs_load demo_first)) = Some callBlock \<and>
    (\<forall>e \<in> set [(0 :: 64 word, 21 :: nat)]. \<exists>b blk t ni. map_option b_id (parent_block demo_sites (snd e)) = Some b \<and>
       find_block g b = Some blk \<and> terminator blk = Some t \<and> first_of (successors (i_kind t)) = Some callBlock \<and>
       ni \<in> set (b_insts blk) \<and> i_kind ni = Store (ConstInt (cint_get 32 (fst e + 1))) (InstVal 2)) \<and>
    (\<forall>i \<in> set (func_insts g). \<forall>v. i_kind i = Store v (InstVal 1) \<longrightarrow> i \<in> set (func_insts demo_sites))"
  by (rule combine_numbers_miss_variable[OF demo_sites_ok(1) reordering_rev demo_sites_ok(2,3) _ _ demo_sites_ok(7)])
    (simp_all add: demo_first_def demo_second_def)

end
