(* ===== verification/Combined_Call.thy ===== *)
theory Combined_Call
  imports Combined_Call_Site
begin

text \<open>
  What \<open>combine_call\<close> of \<open>combined-call-site.cpp\<close> does: the stores it puts before the call, the split of the
  block, with the interface of \<open>splitBasicBlock\<close> as the hypothesis \<open>split_ok\<close>, and the loop over the
  users of the call's result.
\<close>

section \<open>Adding a call\<close>

text \<open>
  What the code relies on of \<open>splitBasicBlock\<close>, for an instruction of a block of the function: the
  instructions from there on move to a new block right behind, the block ends in a new branch to it, new
  addresses are taken, and no instruction changes except for \<open>phi\<close>s, whose incoming blocks may be renamed.
\<close>

definition renames_phis :: "(ir_inst \<Rightarrow> ir_inst) \<Rightarrow> bool" where
  "renames_phis h \<longleftrightarrow>
     (\<forall>i. i_id (h i) = i_id i \<and> (\<not> is_phi (i_kind i) \<longrightarrow> h i = i) \<and>
        is_phi (i_kind (h i)) = is_phi (i_kind i) \<and> operands (i_kind (h i)) = operands (i_kind i))"

definition split_ok :: "block_split \<Rightarrow> bool" where
  "split_ok split \<longleftrightarrow>
     (\<forall>f ys blk zs pre i post nm. wf_func f \<longrightarrow> f_blocks f = ys @ blk # zs \<longrightarrow> b_insts blk = pre @ i # post \<longrightarrow>
        (\<exists>g r br h nm'. split (b_id blk) (i_id i) nm f = (g, r) \<and> renames_phis h \<and> i_kind br = Br r
           \<and> wf_func g \<and> f_id g = f_id f \<and> f_next f \<le> f_next g \<and> f_next f \<le> r \<and> f_next f \<le> i_id br
           \<and> f_blocks g = map (on_insts (map h)) ys @ blk\<lparr>b_insts := map h pre @ [br]\<rparr>
               # \<lparr>b_id = r, b_name = nm', b_insts = map h (i # post)\<rparr> # map (on_insts (map h)) zs))"

lemma renames_phis_simps:
  assumes "renames_phis h"
  shows "i_id (h i) = i_id i" "\<not> is_phi (i_kind i) \<Longrightarrow> h i = i" "is_phi (i_kind (h i)) = is_phi (i_kind i)"
    "operands (i_kind (h i)) = operands (i_kind i)"
  using assms by (simp_all add: renames_phis_def)

lemma renames_phis_comp: "renames_phis h \<Longrightarrow> renames_phis k \<Longrightarrow> renames_phis (h \<circ> k)"
  by (auto simp: renames_phis_def)

text \<open>The same, read off the addresses.\<close>

lemma split_ok_find:
  assumes split: "split_ok split" and wf: "wf_func f" and blk: "find_block f b = Some blk"
    and insts: "b_insts blk = pre @ i # post"
  shows "\<exists>g r br h. split b (i_id i) nm f = (g, r) \<and> wf_func g \<and> renames_phis h \<and> f_next f \<le> r
     \<and> find_block g b = Some (blk\<lparr>b_insts := map h pre @ [br]\<rparr>) \<and> i_kind br = Br r \<and> f_next f \<le> i_id br
     \<and> (\<forall>y j. find_inst f y = Some j \<longrightarrow> find_inst g y = Some (h j))"
proof -
  obtain ys zs where blocks: "f_blocks f = ys @ blk # zs" "b \<notin> b_id ` set ys" "b_id blk = b"
    using split_at_id blk unfolding find_block_def by metis
  obtain g r br h nm' where g: "split b (i_id i) nm f = (g, r)" "renames_phis h" "i_kind br = Br r" "wf_func g"
    "f_next f \<le> r" "f_next f \<le> i_id br"
    "f_blocks g = map (on_insts (map h)) ys @ blk\<lparr>b_insts := map h pre @ [br]\<rparr>
               # \<lparr>b_id = r, b_name = nm', b_insts = map h (i # post)\<rparr> # map (on_insts (map h)) zs"
    using split[unfolded split_ok_def, rule_format, OF wf blocks(1) insts] blocks(3) by metis
  have "b_id ` set (map (on_insts (map h)) ys) = b_id ` set ys" by (simp add: image_image)
  then have fb: "find_block g b = Some (blk\<lparr>b_insts := map h pre @ [br]\<rparr>)"
    using blocks(2,3) at_id_None[of b_id b "map (on_insts (map h)) ys"]
    by (simp add: find_block_def g(7) at_id_append)
  have hid: "i_id (h j) = i_id j" for j using g(2) by (simp add: renames_phis_def)
  have at: "at_id i_id y (map h is) = map_option h (at_id i_id y is)" for y "is"
    by (induction "is") (simp_all add: hid)
  have conc: "concat (map (b_insts \<circ> on_insts (map h)) bs) = map h (concat (map b_insts bs))" for bs
    by (simp add: map_concat comp_def)
  have old: "func_insts f = concat (map b_insts ys) @ pre @ (i # post) @ concat (map b_insts zs)"
    by (simp add: func_insts_def blocks(1) insts)
  have new: "func_insts g = map h (concat (map b_insts ys) @ pre) @ br # map h ((i # post) @ concat (map b_insts zs))"
    by (simp add: func_insts_def g(7) conc)
  have "find_inst g y = Some (h j)" if "find_inst f y = Some j" for y j
  proof -
    have "i_id br \<noteq> y" using find_inst_less[OF wf that] g(6) by simp
    moreover have "at_id i_id y (map h A @ br # map h B) = Some (h j)"
      if "i_id br \<noteq> y" "at_id i_id y (A @ B) = Some j" for A B
      using that by (auto simp: at at_id_append split: option.splits)
    moreover have "at_id i_id y ((concat (map b_insts ys) @ pre) @ (i # post) @ concat (map b_insts zs)) = Some j"
      using that by (simp add: find_inst_def old)
    ultimately show ?thesis unfolding find_inst_def new by blast
  qed
  with g fb show ?thesis by blast
qed

text \<open>Stores put before the call leave the rest of its block and all old instructions as they are.\<close>

definition stores_before :: "ir_func \<Rightarrow> ir_func \<Rightarrow> nat \<Rightarrow> ir_inst list \<Rightarrow> bool" where
  "stores_before f g b rest \<longleftrightarrow> wf_func g \<and> f_next f \<le> f_next g \<and> f_id g = f_id f
     \<and> map b_id (f_blocks g) = map b_id (f_blocks f)
     \<and> (\<exists>blk pre. find_block g b = Some blk \<and> b_insts blk = pre @ rest
          \<and> parent_block g (i_id (hd rest)) = Some blk)
     \<and> (\<forall>y < f_next f. find_inst g y = find_inst f y)"

lemma new_before_blocks:
  "f_blocks (new_before x k t f) = map (on_insts (ins_before i_id x (mk_inst (f_next f) k t ''''))) (f_blocks f)"
  by (simp add: new_before_def insert_before_def)

lemma find_block_new_before:
  "find_block (new_before x k t f) b = map_option (on_insts (ins_before i_id x (mk_inst (f_next f) k t ''''))) (find_block f b)"
  by (simp add: new_before_def insert_before_def find_block_map)

lemma parent_block_new_before:
  assumes "x \<noteq> f_next f"
  shows "parent_block (new_before y k t f) x = map_option (on_insts (ins_before i_id y (mk_inst (f_next f) k t ''''))) (parent_block f x)"
proof -
  have "x \<in> i_id ` set (ins_before i_id y (mk_inst (f_next f) k t '''') is) \<longleftrightarrow> x \<in> i_id ` set is" for "is"
    using assms by (auto simp: set_ins_before)
  then show ?thesis unfolding new_before_def insert_before_def by (simp add: parent_block_map)
qed

lemma stores_before_step:
  assumes "stores_before f g b (c # rest)" and "i_id c < f_next f"
  shows "stores_before f (new_store (i_id c) v p g) b (c # rest)
    \<and> (\<exists>blk ni. find_block (new_store (i_id c) v p g) b = Some blk \<and> ni \<in> set (b_insts blk) \<and> i_id ni = f_next g
         \<and> i_kind ni = Store v p)
    \<and> (\<forall>blk ni. find_block g b = Some blk \<longrightarrow> ni \<in> set (b_insts blk) \<longrightarrow>
         (\<exists>blk'. find_block (new_store (i_id c) v p g) b = Some blk' \<and> ni \<in> set (b_insts blk')))"
proof -
  obtain blk pre where blk: "find_block g b = Some blk" "b_insts blk = pre @ c # rest" "parent_block g (i_id c) = Some blk"
    and g: "wf_func g" "f_next f \<le> f_next g" "f_id g = f_id f" "map b_id (f_blocks g) = map b_id (f_blocks f)"
      "\<forall>y < f_next f. find_inst g y = find_inst f y"
    using assms(1) by (auto simp: stores_before_def)
  let ?n = "mk_inst (f_next g) (Store v p) VoidTy ''''"
  let ?g = "new_store (i_id c) v p g"
  have "distinct (map i_id (b_insts blk))" using block_insts_distinct[OF g(1)] find_block_Some[OF blk(1)] by simp
  then have "i_id c \<notin> i_id ` set pre" by (auto simp: blk(2))
  then have ins: "ins_before i_id (i_id c) ?n (b_insts blk) = (pre @ [?n]) @ c # rest"
    by (simp add: blk(2) ins_before_append)
  have fb: "find_block ?g b = Some (on_insts (ins_before i_id (i_id c) ?n) blk)"
    by (simp add: new_store_def find_block_new_before blk(1))
  have "parent_block ?g (i_id c) = Some (on_insts (ins_before i_id (i_id c) ?n) blk)"
    using assms(2) g(2) by (simp add: new_store_def parent_block_new_before blk(3))
  then have "stores_before f ?g b (c # rest)"
    unfolding stores_before_def
    using g fb ins wf_func_new_before[OF g(1)] find_inst_new_before[OF g(1)]
    by (auto simp: new_store_def new_before_blocks comp_def)
  then show ?thesis using fb ins blk by auto
qed

lemma store_arguments_ok:
  assumes "stores_before f g b (c # rest)" and "i_id c < f_next f"
    and "\<forall>k < length args. map_of m (of_nat k) \<noteq> None"
    and "find_block g b = Some blk" "ni \<in> set (b_insts blk)"
  shows "\<exists>h blk'. store_arguments m (i_id c) args g = Inr h \<and> stores_before f h b (c # rest)
    \<and> find_block h b = Some blk' \<and> ni \<in> set (b_insts blk')"
proof -
  let ?step = "\<lambda>k g. case map_of m (of_nat k) of None \<Rightarrow> Inl Terminated
                        | Some a \<Rightarrow> Inr (new_store (i_id c) (args ! k) (InstVal a) g)"
  have "\<exists>h blk'. rfold ?step ks g = Inr h \<and> stores_before f h b (c # rest) \<and> find_block h b = Some blk' \<and> ni \<in> set (b_insts blk')"
    if "\<forall>k \<in> set ks. k < length args" for ks
    using that assms(1,4,5)
  proof (induction ks arbitrary: g blk)
    case (Cons k ks)
    obtain a where a: "map_of m (of_nat k) = Some a" using Cons.prems(1) assms(3) by fastforce
    let ?g = "new_store (i_id c) (args ! k) (InstVal a) g"
    note s = stores_before_step[OF Cons.prems(2) assms(2), of "args ! k" "InstVal a"]
    obtain blk' where "find_block ?g b = Some blk'" "ni \<in> set (b_insts blk')" using s Cons.prems(3,4) by blast
    with Cons.IH[of ?g blk'] s Cons.prems(1) a show ?case by simp
  qed auto
  from this[of "[0..<length args]"] assms(1,4,5) show ?thesis
    by (auto simp: store_arguments_def)
qed

lemma set_kind_same:
  assumes "wf_func f" and "c \<in> set (func_insts f)" and "i_kind c = k"
  shows "set_kind (i_id c) k f = f"
  unfolding set_kind_edit[OF assms(1,2)] by (rule edit_kinds_id) (use assms(3) in auto)

lemma split_after_ok:
  assumes split: "split_ok split" and s: "stores_before f f1 b (c # j # post)"
    and ni: "find_block f1 b = Some blk1" "ni \<in> set (b_insts blk1)" "\<not> is_phi (i_kind ni)"
    and notin: "ni \<notin> set (j # post)" and c: "\<not> is_phi (i_kind c)"
  shows "\<exists>g r pre br blk. split_after split (i_id c) f1 = Inr (g, r) \<and> wf_func g \<and> f_next f1 \<le> r
    \<and> find_block g b = Some blk \<and> b_insts blk = pre @ [c, br] \<and> i_kind br = Br r \<and> ni \<in> set (pre @ [c])
    \<and> f_next f1 \<le> i_id br
    \<and> (\<forall>y i. find_inst f1 y = Some i \<longrightarrow> \<not> is_phi (i_kind i) \<longrightarrow> find_inst g y = Some i)"
proof -
  obtain blk pre where blk: "find_block f1 b = Some blk" "b_insts blk = pre @ c # j # post"
    "parent_block f1 (i_id c) = Some blk" and wf: "wf_func f1"
    using s by (auto simp: stores_before_def)
  have b: "b_id blk = b" "blk \<in> set (f_blocks f1)" using find_block_Some[OF blk(1)] by auto
  have dist: "distinct (map i_id (b_insts blk))" by (rule block_insts_distinct[OF wf b(2)])
  have nxt: "next_inst blk (i_id c) = Inr (i_id j)"
  proof -
    have "i_id c \<notin> i_id ` set pre" using dist by (simp add: blk(2))
    then have "\<forall>x \<in> set pre. i_id x \<noteq> i_id c" by (metis imageI)
    then have "dropWhile (\<lambda>i. i_id i \<noteq> i_id c) (pre @ c # j # post) = c # j # post"
      by (induction pre) auto
    then show ?thesis by (simp add: next_inst_def blk(2))
  qed
  have "b_insts blk = (pre @ [c]) @ j # post" by (simp add: blk(2))
  from split_ok_find[OF split wf blk(1) this, of "''''"] obtain g r br h where g:
    "split b (i_id j) '''' f1 = (g, r)" "wf_func g" "renames_phis h" "f_next f1 \<le> r"
    "find_block g b = Some (blk\<lparr>b_insts := map h (pre @ [c]) @ [br]\<rparr>)" "i_kind br = Br r" "f_next f1 \<le> i_id br"
    "\<forall>y i. find_inst f1 y = Some i \<longrightarrow> find_inst g y = Some (h i)"
    by blast
  have h: "h i = i" if "\<not> is_phi (i_kind i)" for i using g(3) that by (simp add: renames_phis_def)
  have "terminator (blk\<lparr>b_insts := map h (pre @ [c]) @ [br]\<rparr>) = Some br" by (simp add: terminator_def g(6))
  moreover have "br \<in> set (func_insts g)"
    using block_inst_func[OF find_block_Some[OF g(5), THEN conjunct1]] by simp
  ultimately have "split_after split (i_id c) f1 = Inr (g, r)"
    using set_kind_same[OF g(2) _ g(6)]
    by (simp add: split_after_def get_parent_def blk(3) nxt b(1) g(1,5,6) get_terminator_def deref_def)
  moreover have "ni \<in> set (map h pre @ [c])"
  proof -
    have "ni \<in> set pre \<or> ni = c" using ni blk notin by auto
    then show ?thesis using h[OF ni(3)] by (metis UnI1 UnI2 imageI list.set_intros(1) list.set_map set_append)
  qed
  moreover have "b_insts (blk\<lparr>b_insts := map h (pre @ [c]) @ [br]\<rparr>) = map h pre @ [c, br]" by (simp add: h[OF c])
  moreover have "\<forall>y i. find_inst f1 y = Some i \<longrightarrow> \<not> is_phi (i_kind i) \<longrightarrow> find_inst g y = Some i"
    using g(8) h by auto
  ultimately show ?thesis using g(2,4,5,6,7) by blast
qed

text \<open>Removing the call from its block and adding the case: the block still ends in the branch of the split.\<close>

lemma call_removed:
  assumes wf: "wf_func g" and blk: "find_block g b = Some blk2" "b_insts blk2 = pre' @ [ci, br]" and br: "i_kind br = Br r"
    and sw: "switch_parts g s = Inr (vs, ds, css)" and ne: "ccs_switch s \<noteq> i_id ci" "i_id br \<noteq> ccs_switch s"
    and ni: "ni \<in> set pre'" "i_id ni \<noteq> ccs_switch s"
  shows "\<exists>blk'. find_block (add_return_case s c r (erase_inst (i_id ci) g)) b = Some blk' \<and> terminator blk' = Some br \<and>
      ni \<in> set (b_insts blk')"
    and "switch_parts (add_return_case s c r (erase_inst (i_id ci) g)) s = Inr (vs, ds, css @ [(c, r)])"
    and "find_inst (add_return_case s c r (erase_inst (i_id ci) g)) (i_id ci) = None"
proof -
  have "distinct (map i_id (b_insts blk2))" using block_insts_distinct[OF wf] find_block_Some[OF blk(1)] by simp
  then have bare: "del_at i_id (i_id ci) (b_insts blk2) = pre' @ [br]" by (auto simp: blk(2) del_at_notin)
  define addc :: "ir_inst \<Rightarrow> ir_inst" where "addc = (\<lambda>i. i\<lparr>i_kind := add_switch_case c r (i_kind i)\<rparr>)"
  let ?blk' = "on_insts (upd_at i_id (ccs_switch s) addc) (on_insts (del_at i_id (i_id ci)) blk2)"
  have fb: "find_block (add_return_case s c r (erase_inst (i_id ci) g)) b = Some ?blk'"
    by (simp add: add_return_case_def upd_inst_def erase_inst_def find_block_map blk(1) addc_def)
  have insts: "b_insts ?blk' = upd_at i_id (ccs_switch s) addc pre' @ [br]" using ne(2) by (simp add: bare)
  then have ter: "terminator ?blk' = Some br" by (simp add: terminator_def br)
  have "ni \<in> set (upd_at i_id (ccs_switch s) addc pre')" using ni by (force simp: upd_at_def)
  then have "ni \<in> set (b_insts ?blk')" unfolding insts by simp
  with fb ter show "\<exists>blk'. find_block (add_return_case s c r (erase_inst (i_id ci) g)) b = Some blk' \<and>
      terminator blk' = Some br \<and> ni \<in> set (b_insts blk')" by blast
  show "switch_parts (add_return_case s c r (erase_inst (i_id ci) g)) s = Inr (vs, ds, css @ [(c, r)])"
    using sw ne(1)
    by (auto simp: switch_parts_Inr add_return_case_def find_inst_upd_inst find_inst_erase_inst add_case_def)
  have "find_inst (erase_inst (i_id ci) g) (i_id ci) = None"
    by (auto simp: find_inst_def func_insts_erase_inst at_id_None del_at_def)
  then show "find_inst (add_return_case s c r (erase_inst (i_id ci) g)) (i_id ci) = None"
    using ne(1) by (simp add: add_return_case_def find_inst_upd_inst)
qed


text \<open>A way to split a block, and a function with one call block and one call to add.\<close>

definition rename_phi :: "nat \<Rightarrow> nat \<Rightarrow> ir_inst \<Rightarrow> ir_inst" where
  "rename_phi b r i =
     (case i_kind i of
        PHI ins \<Rightarrow> i\<lparr>i_kind := PHI (map (\<lambda>(v, b'). (v, if b' = b then r else b')) ins)\<rparr>
      | _ \<Rightarrow> i)"

definition cut_block :: "block_split" where
  "cut_block b x nm f =
     (let r = f_next f; h = rename_phi b r in
      (f\<lparr>f_blocks := concat (map (\<lambda>blk. if b_id blk = b
           then [blk\<lparr>b_insts := map h (takeWhile (\<lambda>i. i_id i \<noteq> x) (b_insts blk)) @ [mk_inst (Suc r) (Br r) VoidTy '''']\<rparr>,
                 \<lparr>b_id = r, b_name = nm, b_insts = map h (dropWhile (\<lambda>i. i_id i \<noteq> x) (b_insts blk))\<rparr>]
           else [on_insts (map h) blk]) (f_blocks f)), f_next := Suc (Suc r)\<rparr>, r))"

lemma rename_phi_id [simp]: "i_id (rename_phi b r i) = i_id i"
  by (simp add: rename_phi_def split: ikind.splits)

lemma rename_phi_renames: "renames_phis (rename_phi b r)"
proof -
  have "map (fst \<circ> (\<lambda>(v, b'). (v, if b' = b then r else b'))) ins = map fst ins" for ins :: "('a \<times> nat) list"
    by (auto simp: comp_def)
  then show ?thesis by (auto simp: renames_phis_def rename_phi_def split: ikind.splits)
qed

lemma fresh_ids_insert: "fresh_ids (xs @ ys) n \<Longrightarrow> fresh_ids (xs @ Suc n # ys) (Suc (Suc n))"
proof -
  assume "fresh_ids (xs @ ys) n"
  then have d: "distinct (xs @ ys)" "\<And>x. x \<in> set (xs @ ys) \<Longrightarrow> x < n" by (auto simp: fresh_ids_def)
  have "Suc n \<notin> set (xs @ ys)" using d(2) by fastforce
  moreover have "x < Suc (Suc n)" if "x \<in> set (xs @ ys)" for x using d(2)[OF that] by simp
  ultimately show ?thesis using d(1) by (auto simp: fresh_ids_def)
qed

lemma concat_map_other:
  "b \<notin> b_id ` set bs \<Longrightarrow> concat (map (\<lambda>c. if b_id c = b then h c else [g c]) bs) = map g bs"
  by (induction bs) auto

lemma cut_block_ok: "split_ok cut_block"
  unfolding split_ok_def
proof (intro allI impI)
  fix f ys blk zs pre i post nm
  assume wf: "wf_func f" and layout: "f_blocks f = ys @ blk # zs" and insts: "b_insts blk = pre @ i # post"
  let ?r = "f_next f" and ?b = "b_id blk"
  let ?h = "rename_phi ?b ?r"
  let ?br = "mk_inst (Suc ?r) (Br ?r) VoidTy ''''"
  let ?g = "fst (cut_block ?b (i_id i) nm f)"
  have ids: "distinct (map b_id (f_blocks f))" "\<forall>c \<in> set (f_blocks f). b_id c < ?r"
    "distinct (map i_id (func_insts f))" "\<forall>j \<in> set (func_insts f). i_id j < ?r"
    using wf by (auto simp: wf_func_def fresh_ids_def)
  have "distinct (map i_id (b_insts blk))" using block_insts_distinct[OF wf] layout by simp
  then have "i_id i \<notin> i_id ` set pre" by (simp add: insts)
  then have cut: "takeWhile (\<lambda>j. i_id j \<noteq> i_id i) (b_insts blk) = pre"
    "dropWhile (\<lambda>j. i_id j \<noteq> i_id i) (b_insts blk) = i # post"
    unfolding insts by (induction pre) auto
  have "?b \<notin> b_id ` set ys" "?b \<notin> b_id ` set zs" using ids(1) by (auto simp: layout)
  then have blocks: "f_blocks ?g = map (on_insts (map ?h)) ys @ blk\<lparr>b_insts := map ?h pre @ [?br]\<rparr>
      # \<lparr>b_id = ?r, b_name = nm, b_insts = map ?h (i # post)\<rparr> # map (on_insts (map ?h)) zs"
    by (simp add: cut_block_def Let_def layout concat_map_other cut)
  have nxt: "f_next ?g = Suc (Suc ?r)" "f_id ?g = f_id f" by (simp_all add: cut_block_def Let_def)
  have "map i_id (func_insts ?g) = map i_id (concat (map b_insts ys) @ pre) @ Suc ?r # map i_id ((i # post) @ concat (map b_insts zs))"
    by (simp add: func_insts_def blocks map_concat comp_def)
  moreover have "map i_id (func_insts f) = map i_id (concat (map b_insts ys) @ pre) @ map i_id ((i # post) @ concat (map b_insts zs))"
    by (simp add: func_insts_def layout insts)
  moreover have "fresh_ids (map i_id (func_insts f)) ?r" using wf by (simp add: wf_func_def)
  ultimately have "fresh_ids (map i_id (func_insts ?g)) (Suc (Suc ?r))"
    by (simp only: fresh_ids_insert)
  moreover have "fresh_ids (map b_id (f_blocks ?g)) (Suc (Suc ?r))"
    using ids(1,2) by (force simp: fresh_ids_def blocks layout less_Suc_eq comp_def)
  ultimately have "wf_func ?g" by (simp add: wf_func_def nxt)
  moreover have "cut_block ?b (i_id i) nm f = (?g, ?r)" by (simp add: cut_block_def Let_def)
  ultimately show "\<exists>g r br h nm'. cut_block ?b (i_id i) nm f = (g, r) \<and> renames_phis h \<and> i_kind br = Br r
           \<and> wf_func g \<and> f_id g = f_id f \<and> f_next f \<le> f_next g \<and> f_next f \<le> r \<and> f_next f \<le> i_id br
           \<and> f_blocks g = map (on_insts (map h)) ys @ blk\<lparr>b_insts := map h pre @ [br]\<rparr>
               # \<lparr>b_id = r, b_name = nm', b_insts = map h (i # post)\<rparr> # map (on_insts (map h)) zs"
    using blocks nxt rename_phi_renames[of ?b ?r]
    by (intro exI[of _ ?g] exI[of _ ?r] exI[of _ ?br] exI[of _ ?h] exI[of _ nm]) (simp add: mk_inst_simps(1,2))
qed

definition demo_callee_type :: ir_type where
  "demo_callee_type = FuncTy VoidTy [] False"

definition demo_call :: ir_inst where
  "demo_call = demo_inst 2 (Call demo_callee_type [] (FuncVal (Fn 9) demo_callee_type))"

definition demo_entry :: ir_block where
  "demo_entry = mk_block 0 [demo_inst 1 (Alloca (IntTy 32)), demo_call, demo_inst 3 (Br 10)]"

definition demo_one_site :: ir_func where
  "demo_one_site = mk_func 7 ''f'' (FuncTy VoidTy [] False) True
     [demo_entry,
      mk_block 10 [demo_inst 11 (Load (InstVal 1)), demo_inst 12 (Switch (InstVal 11) 30 [])],
      mk_block 30 [demo_inst 31 Unreachable]] 40"


section \<open>The loop over the users of a call\<close>

definition use_count :: "ir_func \<Rightarrow> ir_value \<Rightarrow> nat" where
  "use_count f v = sum_list (map (\<lambda>i. count_list (operands (i_kind i)) v) (func_insts f))"

lemma length_users: "length (users f v) = use_count f v"
  unfolding users_def use_count_def by (induction "func_insts f") (simp_all add: length_concat comp_def)

lemma use_count_new_before:
  assumes "wf_func f" and "v \<notin> set (operands k)"
  shows "use_count (new_before x k t f) v = use_count f v"
proof -
  have "sum_list (map (\<lambda>i. count_list (operands (i_kind i)) v) (ins_before i_id x (mk_inst n k t '''') is)) =
      sum_list (map (\<lambda>i. count_list (operands (i_kind i)) v) is)" for "is" n
    using assms(2) by (induction "is") (auto simp: count_list_0_iff)
  then show ?thesis by (simp add: use_count_def func_insts_new_before[OF assms(1)])
qed

lemma sum_upd_at:
  fixes g :: "'a \<Rightarrow> nat"
  assumes "distinct (map key xs)" and "a \<in> set xs" and "g (h a) < g a"
  shows "sum_list (map g (upd_at key (key a) h xs)) < sum_list (map g xs)"
  using assms(1,2)
proof (induction xs)
  case (Cons b xs)
  show ?case
  proof (cases "b = a")
    case True
    then have "upd_at key (key a) h xs = xs" using Cons.prems by (intro upd_at_notin) simp
    with True assms(3) show ?thesis by simp
  next
    case False
    then have a: "a \<in> set xs" using Cons.prems by simp
    then have "key b \<noteq> key a" using Cons.prems by (metis distinct.simps(2) imageI list.set_map list.simps(9))
    with a Cons show ?thesis by simp
  qed
qed simp

lemma sum_del_at:
  fixes g :: "'a \<Rightarrow> nat"
  assumes "a \<in> set xs" and "0 < g a"
  shows "sum_list (map g (del_at key (key a) xs)) < sum_list (map g xs)"
proof -
  have le: "sum_list (map g (del_at key x ys)) \<le> sum_list (map g ys)" for x ys
    by (induction ys) auto
  show ?thesis using assms(1)
  proof (induction xs)
    case (Cons b xs)
    show ?case
    proof (cases "key b = key a")
      case True
      then show ?thesis
        using le[of "key a" xs] Cons assms(2) by (cases "b = a") auto
    next
      case False
      with Cons show ?thesis by auto
    qed
  qed simp
qed

lemma count_list_pos: "x \<in> set xs \<Longrightarrow> 0 < count_list xs x"
  by (metis count_list_0_iff gr0I)

lemma use_count_set_kind:
  assumes "wf_func f" and "u \<in> set (func_insts f)" and "v \<in> set (operands (i_kind u))" and "v \<notin> set (operands k)"
  shows "use_count (set_kind (i_id u) k f) v < use_count f v"
  unfolding use_count_def set_kind_def func_insts_upd_inst
  using assms(3,4) by (intro sum_upd_at[OF wf_func_distinct[OF assms(1)] assms(2)]) (simp add: count_list_0_iff count_list_pos)

lemma use_count_erase_inst:
  assumes "u \<in> set (func_insts f)" and "v \<in> set (operands (i_kind u))"
  shows "use_count (erase_inst (i_id u) f) v < use_count f v"
  unfolding use_count_def func_insts_erase_inst
  using assms by (intro sum_del_at) (simp_all add: count_list_pos)

text \<open>The incoming values of a \<open>phi\<close> no longer have the call among them.\<close>

lemma load_incoming_result:
  assumes "load_incoming call t buf ins loads f = Inr (ins', g)"
    and "wf_func f" and "call < f_next f" and "buf \<noteq> Some call" and "InstVal call \<notin> snd ` set loads"
  shows "wf_func g \<and> f_next f \<le> f_next g \<and> use_count g (InstVal call) = use_count f (InstVal call)
    \<and> InstVal call \<notin> fst ` set ins' \<and> (\<forall>y < f_next f. find_inst g y = find_inst f y)"
  using assms
proof (induction ins arbitrary: loads f ins' g)
  case (Cons e ins)
  obtain v b where e: "e = (v, b)" by (cases e)
  show ?case
  proof (cases "v = InstVal call")
    case False
    with Cons.prems(1) obtain ins2 where "load_incoming call t buf ins loads f = Inr (ins2, g)" "ins' = (v, b) # ins2"
      by (auto simp: e)
    with Cons.IH[of loads f ins2 g] Cons.prems(2-5) False show ?thesis by simp
  next
    case True
    show ?thesis
    proof (cases "map_of loads b")
      case (Some w)
      with Cons.prems(1) True obtain ins2 where r: "load_incoming call t buf ins loads f = Inr (ins2, g)" "ins' = (w, b) # ins2"
        by (auto simp: e)
      have "w \<noteq> InstVal call" using map_of_SomeD[OF Some] Cons.prems(5) by force
      with r Cons.IH[of loads f ins2 g] Cons.prems(2-5) show ?thesis by simp
    next
      case None
      obtain tm a where tm: "get_terminator f b = Inr tm" "buf = Some a"
        using Cons.prems(1) True None
        by (cases "get_terminator f b"; cases buf) (auto simp: e deref_def Let_def)
      with Cons.prems(1) True None obtain ins2 where r: "buf = Some a"
        "load_incoming call t buf ins ((b, InstVal (f_next f)) # loads) (new_load (i_id tm) a t f) = Inr (ins2, g)"
        "ins' = (InstVal (f_next f), b) # ins2"
        by (auto simp: e deref_def Let_def)
      let ?f = "new_load (i_id tm) a t f"
      have "wf_func ?f" "f_next ?f = Suc (f_next f)"
        using Cons.prems(2) by (simp_all add: new_load_def wf_func_new_before)
      moreover have "use_count ?f (InstVal call) = use_count f (InstVal call)"
        using Cons.prems(2,4) r(1) by (simp add: new_load_def use_count_new_before)
      moreover have "\<forall>y < f_next f. find_inst ?f y = find_inst f y"
        using find_inst_new_before[OF Cons.prems(2)] by (simp add: new_load_def)
      ultimately show ?thesis
        using Cons.IH[OF r(2)] Cons.prems(3-5) r(3) by auto
    qed
  qed
qed auto

lemma load_incoming_fuel: "load_incoming call t buf ins loads f \<noteq> Inl OutOfFuel"
proof (induction ins arbitrary: loads f)
  case (Cons e ins)
  obtain v b where e: "e = (v, b)" by (cases e)
  have t: "get_terminator f b \<noteq> Inl OutOfFuel"
    by (auto simp: get_terminator_def deref_def split: option.splits)
  show ?case
    using Cons t unfolding e
    by (cases "get_terminator f b"; cases buf) (auto simp: deref_def Let_def split: option.splits)
qed simp

lemma redirect_user_fuel: "redirect_user call t buf u f \<noteq> Inl OutOfFuel"
  unfolding redirect_user_def
  by (cases "i_kind u"; cases buf) (auto simp: deref_def load_incoming_fuel)

lemma redirect_user_progress:
  assumes "redirect_user call t buf u f = Inr g" and wf: "wf_func f" and "u \<in> set (users f (InstVal call))"
    and call: "call < f_next f" and buf: "buf \<noteq> Some call"
  shows "wf_func g \<and> f_next f \<le> f_next g \<and> use_count g (InstVal call) < use_count f (InstVal call)"
proof -
  have u: "u \<in> set (func_insts f)" "InstVal call \<in> set (operands (i_kind u))"
    using assms(3) by (auto simp: set_users uses_def)
  have find: "find_inst f (i_id u) = Some u" by (rule find_inst_member[OF wf u(1)])
  have kinds: "wf_func (set_kind x k h)" if "wf_func h" for x k h
    using that unfolding set_kind_def by (intro wf_func_upd_inst) simp_all
  have nxt: "f_next (set_kind x k h) = f_next h" for x k h by (simp add: set_kind_def)
  have replaced: "wf_func g \<and> f_next f \<le> f_next g \<and> use_count g (InstVal call) < use_count f (InstVal call)"
    if "g = set_kind (i_id u) k h" "InstVal call \<notin> set (operands k)" "wf_func h" "f_next f \<le> f_next h"
      "use_count h (InstVal call) = use_count f (InstVal call)" "find_inst h (i_id u) = Some u" for k h
    using that use_count_set_kind[OF that(3) _ u(2) that(2)] find_inst_Some[OF that(6)]
    by (simp add: kinds nxt)
  have other: ?thesis
    if eq: "rbind (deref buf) (\<lambda>a. Inr (set_kind (i_id u)
         (replace_uses (InstVal call) (InstVal (f_next f)) (i_kind u)) (new_load (i_id u) a t f))) = Inr g"
  proof -
    obtain a where a: "buf = Some a" "g = set_kind (i_id u)
         (replace_uses (InstVal call) (InstVal (f_next f)) (i_kind u)) (new_load (i_id u) a t f)"
      using eq by (cases buf) (auto simp: deref_def)
    show ?thesis
    proof (rule replaced[OF a(2)])
      show "InstVal call \<notin> set (operands (replace_uses (InstVal call) (InstVal (f_next f)) (i_kind u)))"
        using call by (intro replace_uses_gone) simp
      show "use_count (new_load (i_id u) a t f) (InstVal call) = use_count f (InstVal call)"
        using buf a(1) wf by (simp add: new_load_def use_count_new_before)
      show "find_inst (new_load (i_id u) a t f) (i_id u) = Some u"
        using find find_inst_less[OF wf find] by (simp add: new_load_def find_inst_new_before[OF wf])
    qed (simp_all add: new_load_def wf_func_new_before wf)
  qed
  show ?thesis
  proof (cases "i_kind u")
    case (Store v p)
    then have "g = erase_inst (i_id u) f" using assms(1) by (simp add: redirect_user_def)
    moreover have "wf_func (erase_inst (i_id u) f)"
      using wf by (auto simp: wf_func_def fresh_ids_def func_insts_erase_inst del_at_def intro: distinct_map_filter)
    ultimately show ?thesis using use_count_erase_inst[OF u] by simp
  next
    case (PHI ins)
    with assms(1) obtain ins' h where h: "load_incoming call t buf ins [] f = Inr (ins', h)"
      "g = set_kind (i_id u) (PHI ins') h"
      by (auto simp: redirect_user_def)
    from load_incoming_result[OF h(1) wf call buf] have res: "wf_func h" "f_next f \<le> f_next h"
      "use_count h (InstVal call) = use_count f (InstVal call)" "InstVal call \<notin> fst ` set ins'"
      "find_inst h (i_id u) = Some u"
      using find find_inst_less[OF wf find] by auto
    show ?thesis by (rule replaced[OF h(2) _ res(1-3) res(5)]) (simp add: res(4))
  qed (use assms(1) other in \<open>auto simp: redirect_user_def\<close>)
qed

text \<open>
  C25: The loop that redirects the users of a call ends after at most as many rounds as the call has uses:
  with that fuel it never runs out, and where it succeeds the call has no user left.
\<close>

theorem redirect_users_terminates:
  assumes "wf_func f" and "reordering ord" and "call < f_next f" and "buf \<noteq> Some call"
    and "length (users f (InstVal call)) \<le> n"
  shows "redirect_users ord call t buf n f \<noteq> Inl OutOfFuel \<and>
    (\<forall>g. redirect_users ord call t buf n f = Inr g \<longrightarrow> users g (InstVal call) = [])"
  using assms(1,3,5)
proof (induction n arbitrary: f)
  case 0
  have "set (ord (users f (InstVal call))) = set (users f (InstVal call))" by (rule reordering_set[OF assms(2)])
  with 0 show ?case by (simp add: redirect_users.simps)
next
  case (Suc n)
  have ord: "set (ord (users f (InstVal call))) = set (users f (InstVal call))" by (rule reordering_set[OF assms(2)])
  show ?case
  proof (cases "ord (users f (InstVal call))")
    case Nil
    with ord show ?thesis by (simp add: redirect_users.simps[of _ _ _ _ "Suc n"])
  next
    case (Cons u us)
    have unf: "redirect_users ord call t buf (Suc n) f =
        rbind (redirect_user call t buf u f) (redirect_users ord call t buf n)"
      by (simp add: redirect_users.simps[of _ _ _ _ "Suc n"] Cons)
    have u: "u \<in> set (users f (InstVal call))" using ord Cons by auto
    show ?thesis
    proof (cases "redirect_user call t buf u f")
      case (Inl e)
      then show ?thesis using redirect_user_fuel[of call t buf u f] by (simp add: unf)
    next
      case (Inr g)
      note p = redirect_user_progress[OF Inr Suc.prems(1) u Suc.prems(2) assms(4)]
      then have "length (users g (InstVal call)) \<le> n" using Suc.prems(3) by (simp add: length_users)
      with p Suc.prems(2) Suc.IH[of g] show ?thesis by (simp add: unf Inr)
    qed
  qed
qed

text \<open>A call whose result is used twice by one instruction and stored by another.\<close>

definition demo_used :: ir_func where
  "demo_used = mk_func 7 ''f'' (FuncTy VoidTy [] False) True
     [mk_block 0 [demo_inst 1 (Alloca (IntTy 32)), demo_call,
                  demo_inst 3 (OtherInst ''add'' [InstVal 2, InstVal 2]), demo_inst 4 (Store (InstVal 2) (InstVal 1)),
                  demo_inst 5 (Ret None)]] 6"

lemma demo_used_run: "\<not> isl (redirect_users rev 2 (IntTy 32) (Some 1) 3 demo_used)"
  by code_simp

theorem redirect_users_terminates_witness:
  "redirect_users rev 2 (IntTy 32) (Some 1) 3 demo_used \<noteq> Inl OutOfFuel \<and>
   (case redirect_users rev 2 (IntTy 32) (Some 1) 3 demo_used of
      Inl e \<Rightarrow> False | Inr g \<Rightarrow> users g (InstVal 2) = [])"
proof -
  have "redirect_users rev 2 (IntTy 32) (Some 1) 3 demo_used \<noteq> Inl OutOfFuel \<and>
   (\<forall>g. redirect_users rev 2 (IntTy 32) (Some 1) 3 demo_used = Inr g \<longrightarrow> users g (InstVal 2) = [])"
    by (rule redirect_users_terminates[OF _ reordering_rev])
      (simp_all add: wf_func_def fresh_ids_def users_def demo_used_def demo_call_def demo_eval)
  then show ?thesis using demo_used_run by (cases "redirect_users rev 2 (IntTy 32) (Some 1) 3 demo_used") auto
qed

end
