(* ===== verification/Fuse_Functions.thy ===== *)
theory Fuse_Functions
  imports Combined_Call_Site
begin

text \<open>
  \<open>lib/passes/fuse-functions/fuse-functions.cpp\<close>: a module pass that gives all calls of a function in one
  caller a common call block, which is entered with a number for the block it was entered from, calls
  the function once and returns through a switch on the number; the one call that is left is inlined.
  \<open>combine_calls\<close> builds the call blocks, \<open>demote_registers\<close> repairs the values that no longer dominate
  their uses, and the driver repeats both until no call is left to inline.

  A call is given by its function and its address there. \<open>MapVector\<close>s are association lists in insertion
  order, \<open>SetVector\<close>s lists without duplicates.
\<close>

section \<open>Candidate calls\<close>

type_synonym call_site = "nat \<times> nat"
type_synonym callee_call_sites = "(nat \<times> nat list) list"
type_synonym call_site_map = "(nat \<times> callee_call_sites) list"

definition is_inline_asm :: "ir_value ikind \<Rightarrow> bool" where
  "is_inline_asm k = (case call_parts k of Some (t, as, InlineAsm s) \<Rightarrow> True | _ \<Rightarrow> False)"

text \<open>The called function of an instruction that the pass considers.\<close>

definition candidate_call :: "ir_module \<Rightarrow> call_site list \<Rightarrow> ir_func \<Rightarrow> ir_inst \<Rightarrow> nat option" where
  "candidate_call m callsToIgnore func i =
     (if is_call (i_kind i) \<and> \<not> is_inline_asm (i_kind i) then
        (case called_function (i_kind i) of
           Some (Fn g) \<Rightarrow>
             if g \<noteq> f_id func \<and> \<not> (case find_func m g of None \<Rightarrow> True | Some callee \<Rightarrow> is_declaration callee)
                \<and> (f_id func, i_id i) \<notin> set callsToIgnore
             then Some g else None
         | _ \<Rightarrow> None)
      else None)"

text \<open>\<open>candidateCallInsts[caller][callee].push_back(call)\<close>.\<close>

definition push_call :: "nat \<Rightarrow> nat \<Rightarrow> nat \<Rightarrow> call_site_map \<Rightarrow> call_site_map" where
  "push_call caller callee x cm =
     AList.update caller (push_back callee x (case map_of cm caller of None \<Rightarrow> [] | Some inner \<Rightarrow> inner)) cm"

definition get_candidate_call_sites_fn ::
  "ir_module \<Rightarrow> bool \<Rightarrow> call_site list \<Rightarrow> ir_func \<Rightarrow> call_site_map \<Rightarrow> call_site_map" where
  "get_candidate_call_sites_fn m ignoreNoInline callsToIgnore func candidateCallInsts =
     fold (\<lambda>block cm.
         fold (\<lambda>i cm. case candidate_call m callsToIgnore func i of
                         None \<Rightarrow> cm
                       | Some g \<Rightarrow> push_call (f_id func) g (i_id i) cm) (b_insts block) cm)
       (f_blocks func) candidateCallInsts"

definition considered_func :: "bool \<Rightarrow> ir_func \<Rightarrow> bool" where
  "considered_func ignoreNoInline f \<longleftrightarrow>
     \<not> f_optnone f \<and> \<not> is_declaration f \<and> \<not> func_empty f \<and> (ignoreNoInline \<or> \<not> f_noinline f)"

definition get_candidate_call_sites :: "ir_module \<Rightarrow> bool \<Rightarrow> call_site list \<Rightarrow> call_site_map" where
  "get_candidate_call_sites m ignoreNoInline callsToIgnore =
     fold (get_candidate_call_sites_fn m ignoreNoInline callsToIgnore)
       (filter (considered_func ignoreNoInline) (m_funcs m)) []"

section \<open>The unreachable block\<close>

definition is_unreachable_block :: "ir_block \<Rightarrow> bool" where
  "is_unreachable_block b = (case b_insts b of [i] \<Rightarrow> i_kind i = Unreachable | _ \<Rightarrow> False)"

definition get_or_create_unreachable_block :: "ir_func \<Rightarrow> ir_func \<times> nat" where
  "get_or_create_unreachable_block f =
     (case filter is_unreachable_block (f_blocks f) of
        b # bs \<Rightarrow> (f, b_id b)
      | [] \<Rightarrow> (let unreachableBlock = f_next f
               in (new_at_end unreachableBlock Unreachable VoidTy (new_block '''' f), unreachableBlock)))"

section \<open>Building a call block\<close>

record work_lists =
  ModifiedCallers :: "nat list"
  CallSites :: "call_site list"

definition get_first_non_phi :: "ir_func \<Rightarrow> nat \<Rightarrow> ir_inst res" where
  "get_first_non_phi f b =
     (case find_block f b of None \<Rightarrow> Inl NullDeref | Some blk \<Rightarrow> deref (first_non_phi blk))"

text \<open>\<open>callSiteOrigParent\<close> and \<open>callSiteRet\<close>.\<close>

type_synonym split_state = "ir_func \<times> (nat \<times> nat) list \<times> (nat \<times> nat) list"

definition split_call_site :: "block_split \<Rightarrow> nat \<Rightarrow> nat \<Rightarrow> split_state \<Rightarrow> split_state res" where
  "split_call_site split callBlock callSite st =
     (case st of (f, callSiteOrigParent, callSiteRet) \<Rightarrow>
       rbind (get_parent f callSite) (\<lambda>parentBlock.
         rbind (next_inst parentBlock callSite) (\<lambda>nextNode.
           let (f1, retBlock) = split (b_id parentBlock) nextNode ''.fuse.retblock'' f in
           rbind (get_first_non_phi f1 retBlock) (\<lambda>pos.
             let f2 = move_before callSite (i_id pos) f1 in
             rbind (get_terminator f2 (b_id parentBlock)) (\<lambda>oldBranch.
               let f3 = new_at_end (b_id parentBlock) (Br callBlock) VoidTy f2 in
               Inr (erase_inst (i_id oldBranch) f3,
                    AList.update callSite (b_id parentBlock) callSiteOrigParent,
                    AList.update (b_id parentBlock) retBlock callSiteRet))))))"

fun param_types :: "ir_type \<Rightarrow> ir_type list" where
  "param_types (FuncTy r ps v) = ps"
| "param_types t = []"

definition tag_inst :: "nat \<Rightarrow> string \<Rightarrow> string \<Rightarrow> ir_func \<Rightarrow> ir_func" where
  "tag_inst x name v f = upd_inst x (\<lambda>i. fst (attach_metadata i name v)) f"

text \<open>The \<open>phi\<close> of one argument, with the values the calls pass.\<close>

definition arg_incoming :: "ir_func \<Rightarrow> (nat \<times> nat) list \<Rightarrow> nat list \<Rightarrow> nat \<Rightarrow> (ir_value \<times> nat) list res" where
  "arg_incoming f callSiteOrigParent callSites argCount =
     rlist (\<lambda>c. rbind (get_inst f c) (\<lambda>ci.
               rbind (get_arg_operand (i_kind ci) argCount) (\<lambda>v.
                 rmap (Pair v) (deref (map_of callSiteOrigParent c))))) callSites"

definition add_arg_node ::
  "nat \<Rightarrow> string \<Rightarrow> (nat \<times> nat) list \<Rightarrow> nat list \<Rightarrow> nat \<times> ir_type \<Rightarrow> ir_func \<times> ir_value list
     \<Rightarrow> (ir_func \<times> ir_value list) res" where
  "add_arg_node callBlock calleeName callSiteOrigParent callSites arg st =
     (case (arg, st) of ((argCount, ty), (f, args)) \<Rightarrow>
       let argNode = f_next f in
       rmap (\<lambda>ins.
           (tag_inst argNode FuseFunctionArgIdx (argidx_bytes (of_nat argCount))
              (tag_inst argNode FuseFunctionName calleeName (new_at_end callBlock (PHI ins) ty f)),
            args @ [InstVal argNode]))
         (arg_incoming f callSiteOrigParent callSites argCount))"

text \<open>The variable for the return value, with the store behind the call.\<close>

definition entry_front :: "ir_func \<Rightarrow> ir_inst res" where
  "entry_front f =
     (case f_blocks f of
        [] \<Rightarrow> Inl NullDeref
      | entry # bs \<Rightarrow> deref (first_of (b_insts entry)))"

definition add_return_buffer :: "nat \<Rightarrow> string \<Rightarrow> ir_type \<Rightarrow> ir_func \<Rightarrow> ir_func res" where
  "add_return_buffer combinedCall calleeName returnTy f =
     rmap (\<lambda>front.
       let allocaRetInst = f_next f;
           f1 = new_named_before (i_id front) (Alloca returnTy) (PtrTy returnTy) ''.fuse.return.buffer'' f;
           storeRetInst = f_next f1;
           f2 = new_before combinedCall (Store (InstVal combinedCall) (InstVal allocaRetInst)) VoidTy f1;
           f3 = move_after storeRetInst combinedCall f2
       in tag_inst storeRetInst FuseFunctionRet calleeName (tag_inst allocaRetInst FuseFunctionRet calleeName f3))
     (entry_front f)"

definition retire_call :: "nat \<Rightarrow> nat \<Rightarrow> ir_func \<Rightarrow> ir_func" where
  "retire_call combinedCall callInst f =
     erase_inst callInst (replace_all_uses (InstVal callInst) (InstVal combinedCall) f)"

fun add_incoming :: "ir_value \<Rightarrow> nat \<Rightarrow> ir_value ikind \<Rightarrow> ir_value ikind" where
  "add_incoming v b (PHI ins) = PHI (ins @ [(v, b)])"
| "add_incoming v b k = k"

definition add_return_branch :: "nat \<Rightarrow> nat \<Rightarrow> nat \<times> nat \<times> nat \<Rightarrow> ir_func \<Rightarrow> ir_func" where
  "add_return_branch fromNode switchBack e f =
     (case e of (switchCount, parentBlock, retBlock) \<Rightarrow>
       let branchIdx = cint_get 32 (of_nat switchCount) in
       upd_inst switchBack (\<lambda>i. i\<lparr>i_kind := add_switch_case branchIdx retBlock (i_kind i)\<rparr>)
         (upd_inst fromNode (\<lambda>i. i\<lparr>i_kind := add_incoming (ConstInt branchIdx) parentBlock (i_kind i)\<rparr>) f))"

text \<open>The number the block was entered from, the markers, and the way back.\<close>

definition add_dispatch :: "nat \<Rightarrow> nat \<Rightarrow> string \<Rightarrow> (nat \<times> nat) list \<Rightarrow> ir_func \<Rightarrow> ir_func" where
  "add_dispatch callBlock combinedCall calleeName callSiteRet f =
     (let fromNode = f_next f;
          f1 = tag_inst fromNode FuseFunctionName calleeName (new_before combinedCall (PHI []) (IntTy 32) f);
          f2 = fst (create_metadata_before f1 combinedCall FuseFunctionStart calleeName);
          f3 = fst (create_metadata_end f2 callBlock FuseFunctionEnd calleeName);
          (f4, unreachableBlock) = get_or_create_unreachable_block f3;
          switchBack = f_next f4;
          f5 = tag_inst switchBack FuseFunctionName calleeName
                 (new_at_end callBlock (Switch (InstVal fromNode) unreachableBlock []) VoidTy f4)
      in fold (add_return_branch fromNode switchBack) (enumerate 0 callSiteRet) f5)"

text \<open>A new call block for the calls \<open>callSites\<close> of \<open>callee\<close>; the result has the address of its call.\<close>

definition new_call_block :: "block_split \<Rightarrow> ir_func \<Rightarrow> nat list \<Rightarrow> ir_func \<Rightarrow> (ir_func \<times> nat) res" where
  "new_call_block split callee callSites caller =
     (let callBlock = f_next caller; calleeName = f_name callee; ty = f_type callee in
      rbind (rfold (split_call_site split callBlock) callSites (new_block ''.fuse.callblock'' caller, [], []))
        (\<lambda>(f1, callSiteOrigParent, callSiteRet).
          rbind (rfold (add_arg_node callBlock calleeName callSiteOrigParent callSites)
                   (enumerate 0 (param_types ty)) (f1, [])) (\<lambda>(f2, args).
            let combinedCall = f_next f2;
                f3 = new_at_end callBlock (Call ty args (FuncVal (Fn (f_id callee)) ty)) (return_type ty) f2
            in rmap (\<lambda>f4.
                 (add_dispatch callBlock combinedCall calleeName callSiteRet
                    (fold (retire_call combinedCall) callSites f4), combinedCall))
               (if return_type ty \<noteq> VoidTy
                then add_return_buffer combinedCall calleeName (return_type ty) f3 else Inr f3))))"

text \<open>\<open>getName\<close> of a called function.\<close>

definition func_name :: "ir_module \<Rightarrow> fn_id \<Rightarrow> string" where
  "func_name m g =
     (case g of
        Intrinsic s \<Rightarrow> s
      | Fn n \<Rightarrow> (case find_func m n of None \<Rightarrow> [] | Some f \<Rightarrow> f_name f))"

text \<open>The calls of one callee.\<close>

definition combine_callee ::
  "block_split \<Rightarrow> (ir_inst list \<Rightarrow> ir_inst list) \<Rightarrow> ir_module \<Rightarrow> (string \<times> combined_call_site list) list
     \<Rightarrow> nat \<times> nat list \<Rightarrow> ir_func \<times> work_lists \<Rightarrow> (ir_func \<times> work_lists) res" where
  "combine_callee split ord m combinedCallSites entry st =
     (case (entry, st) of ((calleeId, callSites), (caller, workLists)) \<Rightarrow>
       case callSites of
         [] \<Rightarrow> Inr st
       | [callSite] \<Rightarrow>
           Inr (caller, workLists\<lparr>CallSites := setv_insert (f_id caller, callSite) (CallSites workLists)\<rparr>)
       | _ \<Rightarrow>
           rbind (deref (find_func m calleeId)) (\<lambda>callee.
             let modified = workLists\<lparr>ModifiedCallers := setv_insert (f_id caller) (ModifiedCallers workLists)\<rparr> in
             case map_of combinedCallSites (f_name callee) of
               Some sites \<Rightarrow>
                 rbind (deref (first_of sites)) (\<lambda>combinedCallSite.
                   rmap (\<lambda>f. (f, modified))
                     (rfold (\<lambda>x f. rmap snd (combine_call split ord (func_name m) combinedCallSite (f_id caller, x) f))
                        callSites caller))
             | None \<Rightarrow>
                 rmap (\<lambda>(f, combinedCall).
                     (f, modified\<lparr>CallSites := setv_insert (f_id caller, combinedCall) (CallSites modified)\<rparr>))
                   (new_call_block split callee callSites caller)))"

definition combine_caller ::
  "block_split \<Rightarrow> (ir_inst list \<Rightarrow> ir_inst list) \<Rightarrow> nat \<times> callee_call_sites \<Rightarrow> ir_module \<times> work_lists
     \<Rightarrow> (ir_module \<times> work_lists) res" where
  "combine_caller split ord entry st =
     (case (entry, st) of ((callerId, calleeCallSites), (m, workLists)) \<Rightarrow>
       if calleeCallSites = [] then Inr st
       else rbind (deref (find_func m callerId)) (\<lambda>caller.
         rbind (map_combined_call_sites caller) (\<lambda>combinedCallSites.
           rmap (\<lambda>(f, workLists'). (upd_func callerId (\<lambda>_. f) m, workLists'))
             (rfold (combine_callee split ord m combinedCallSites) calleeCallSites (caller, workLists)))))"

definition combine_calls ::
  "block_split \<Rightarrow> (ir_inst list \<Rightarrow> ir_inst list) \<Rightarrow> call_site_map \<Rightarrow> ir_module \<Rightarrow> (ir_module \<times> work_lists) res" where
  "combine_calls split ord callMap m =
     rfold (combine_caller split ord) callMap (m, \<lparr>ModifiedCallers = [], CallSites = []\<rparr>)"

section \<open>Demoting registers\<close>

definition does_value_escape :: "ir_func \<Rightarrow> ir_block \<Rightarrow> ir_inst \<Rightarrow> bool" where
  "does_value_escape f bb i \<longleftrightarrow>
     (\<exists>u \<in> set (users f (InstVal (i_id i))).
        map_option b_id (parent_block f (i_id u)) \<noteq> Some (b_id bb) \<or> is_phi (i_kind u))"

definition first_non_alloca :: "ir_func \<Rightarrow> ir_inst res" where
  "first_non_alloca f =
     (case f_blocks f of
        [] \<Rightarrow> Inl NullDeref
      | bbEntry # bs \<Rightarrow> deref (first_of (dropWhile (\<lambda>i. is_alloca (i_kind i)) (b_insts bbEntry))))"

definition escaped_insts :: "ir_func \<Rightarrow> nat list" where
  "escaped_insts f =
     concat (map (\<lambda>ibb. map i_id
         (filter (\<lambda>i. \<not> (is_alloca (i_kind i) \<and> map_option b_id (first_of (f_blocks f)) = Some (b_id ibb))
                      \<and> does_value_escape f ibb i) (b_insts ibb)))
       (f_blocks f))"

text \<open>The name of the defined function that an instruction calls, empty where there is none.\<close>

definition defined_callee_name :: "ir_module \<Rightarrow> ir_value ikind \<Rightarrow> string" where
  "defined_callee_name m k =
     (if is_call k then
        (case called_function k of
           Some (Fn g) \<Rightarrow> (case find_func m g of Some callee \<Rightarrow> if is_declaration callee then [] else f_name callee | None \<Rightarrow> [])
         | _ \<Rightarrow> [])
      else [])"

definition tag_return_user :: "string \<Rightarrow> ir_inst \<Rightarrow> ir_func \<Rightarrow> ir_func res" where
  "tag_return_user calleeName user f =
     (if is_store (i_kind user) then Inr (tag_inst (i_id user) FuseFunctionRet calleeName f)
      else rbind (get_parent f (i_id user)) (\<lambda>b.
        rbind (next_inst b (i_id user)) (\<lambda>x.
          rmap (\<lambda>nextNode. if is_switch (i_kind nextNode) then tag_inst (i_id user) FuseFunctionRet calleeName f else f)
            (get_inst f x))))"

definition demote_escaped ::
  "demotion \<Rightarrow> (ir_inst list \<Rightarrow> ir_inst list) \<Rightarrow> ir_module \<Rightarrow> nat \<Rightarrow> nat \<Rightarrow> ir_func \<Rightarrow> ir_func res" where
  "demote_escaped demote_reg ord m allocaInsertionPoint x f =
     rbind (get_inst f x) (\<lambda>ilb.
       let calleeName = defined_callee_name m (i_kind ilb);
           (f1, instAllocaInst) = demote_reg x allocaInsertionPoint f
       in if calleeName = [] then Inr f1
          else rbind (deref instAllocaInst) (\<lambda>a.
            let f2 = tag_inst a FuseFunctionRet calleeName f1
            in rfold (tag_return_user calleeName) (ord (users f2 (InstVal a))) f2))"

definition tag_option :: "nat \<Rightarrow> string \<Rightarrow> string option \<Rightarrow> ir_func \<Rightarrow> ir_func" where
  "tag_option x name v f = (case v of None \<Rightarrow> f | Some s \<Rightarrow> tag_inst x name s f)"

definition tag_loads :: "string option \<Rightarrow> string option \<Rightarrow> ir_inst list \<Rightarrow> ir_func \<Rightarrow> ir_func" where
  "tag_loads funcName funcArgIdx us f =
     fold (\<lambda>u f. case i_kind u of
             Load p \<Rightarrow> tag_option (i_id u) FuseFunctionArgIdx funcArgIdx (tag_option (i_id u) FuseFunctionName funcName f)
           | _ \<Rightarrow> f) us f"

definition demote_phi_node ::
  "demotion \<Rightarrow> (ir_inst list \<Rightarrow> ir_inst list) \<Rightarrow> nat \<Rightarrow> nat \<Rightarrow> ir_func \<Rightarrow> ir_func res" where
  "demote_phi_node demote_phi ord allocaInsertionPoint x f =
     rbind (get_inst f x) (\<lambda>ilb.
       rbind (get_metadata ilb FuseFunctionName) (\<lambda>funcName.
         rbind (get_metadata ilb FuseFunctionArgIdx) (\<lambda>funcArgIdx.
           let (f1, demoted) = demote_phi x allocaInsertionPoint f
           in if funcName = None \<and> funcArgIdx = None then Inr f1
              else rmap (\<lambda>a. tag_loads funcName funcArgIdx (ord (users f1 (InstVal a))) f1) (deref demoted))))"

definition demote_registers ::
  "demotion \<Rightarrow> demotion \<Rightarrow> (ir_inst list \<Rightarrow> ir_inst list) \<Rightarrow> ir_module \<Rightarrow> ir_func \<Rightarrow> ir_func res" where
  "demote_registers demote_reg demote_phi ord m f =
     rbind (first_non_alloca f) (\<lambda>it.
       let allocaInsertionPoint = f_next f;
           f1 = new_named_before (i_id it) (BitCast (ConstInt (CInt 32 0))) (IntTy 32) ''reg2mem alloca point'' f
       in rbind (rfold (demote_escaped demote_reg ord m allocaInsertionPoint) (rev (escaped_insts f1)) f1) (\<lambda>f2.
            rfold (demote_phi_node demote_phi ord allocaInsertionPoint)
              (rev (map i_id (filter (\<lambda>i. is_phi (i_kind i)) (func_insts f2)))) f2))"

section \<open>The driver\<close>

text \<open>
  What the driver calls in LLVM: splitting a block, deleting a dead one, the order of use lists, the two
  demotions, the inliner (\<open>None\<close> where it fails), pipelines of passes given by their text, with what they
  preserve and the error of a text that cannot be parsed, the order of a \<open>DenseMap\<close>, and whether a
  definition has no use left.
\<close>

record fuse_llvm =
  u_split :: block_split
  u_del_dead :: "nat \<Rightarrow> ir_func \<Rightarrow> ir_func"
  u_ord :: "ir_inst list \<Rightarrow> ir_inst list"
  u_demote_reg :: demotion
  u_demote_phi :: demotion
  u_inline :: "call_site \<Rightarrow> ir_module \<Rightarrow> ir_module option"
  u_pipeline :: "string \<Rightarrow> ir_module \<Rightarrow> ir_module \<times> preserved_analyses \<times> string"
  u_dense :: "(string \<times> combined_call_site list) list \<Rightarrow> (string \<times> combined_call_site list) list"
  u_trivially_dead :: "ir_module \<Rightarrow> nat \<Rightarrow> bool"

record fuse_state =
  fs_module :: ir_module
  failedInlineCallSites :: "call_site list"
  callTargets :: "nat list"
  fs_result :: preserved_analyses

definition on_func :: "nat \<Rightarrow> (ir_func \<Rightarrow> ir_func res) \<Rightarrow> ir_module \<Rightarrow> ir_module res" where
  "on_func g h m = rbind (deref (find_func m g)) (\<lambda>f. rmap (\<lambda>f'. upd_func g (\<lambda>_. f') m) (h f))"

definition demote_callers :: "fuse_llvm \<Rightarrow> nat list \<Rightarrow> ir_module \<Rightarrow> ir_module res" where
  "demote_callers u gs m =
     rfold (\<lambda>g m. on_func g (demote_registers (u_demote_reg u) (u_demote_phi u) (u_ord u) m) m) gs m"

text \<open>One call is inlined; the target of a call on the work list is a defined function.\<close>

definition inline_call :: "fuse_llvm \<Rightarrow> call_site \<Rightarrow> fuse_state \<Rightarrow> fuse_state res" where
  "inline_call u callInst s =
     rbind (deref (find_func (fs_module s) (fst callInst))) (\<lambda>f.
       rbind (get_inst f (snd callInst)) (\<lambda>ci.
         case u_inline u callInst (fs_module s) of
           None \<Rightarrow> Inr (s\<lparr>failedInlineCallSites := setv_insert callInst (failedInlineCallSites s)\<rparr>)
         | Some m \<Rightarrow>
             (case called_function (i_kind ci) of
                Some (Fn g) \<Rightarrow> Inr (s\<lparr>fs_module := m, fs_result := PA_none, callTargets := setv_insert g (callTargets s)\<rparr>)
              | _ \<Rightarrow> Inl NullDeref)))"

text \<open>The call blocks of one name in a caller are merged into the first; was any?\<close>

definition merge_sites :: "fuse_llvm \<Rightarrow> string \<times> combined_call_site list \<Rightarrow> bool \<times> ir_func \<Rightarrow> (bool \<times> ir_func) res" where
  "merge_sites u entry st =
     (case snd entry of
        mainCombinedSite # others \<Rightarrow>
          rfold (\<lambda>other (callerUpdated, f).
              rmap (\<lambda>(merged, f'). (callerUpdated \<or> merged, f'))
                (combine (u_del_dead u) (u_ord u) mainCombinedSite other f)) others st
      | [] \<Rightarrow> Inr st)"

definition clean_caller :: "fuse_llvm \<Rightarrow> nat \<times> callee_call_sites \<Rightarrow> nat list \<times> ir_module \<Rightarrow> (nat list \<times> ir_module) res" where
  "clean_caller u entry st =
     (case (entry, st) of ((callerId, calleeCallSites), (modifiedCombinedCallers, m)) \<Rightarrow>
       rbind (deref (find_func m callerId)) (\<lambda>caller.
         rbind (map_combined_call_sites caller) (\<lambda>combinedCallSites.
           rmap (\<lambda>(callerUpdated, f).
               (if callerUpdated then setv_insert callerId modifiedCombinedCallers else modifiedCombinedCallers,
                upd_func callerId (\<lambda>_. f) m))
             (rfold (merge_sites u) (u_dense u combinedCallSites) (False, caller)))))"

text \<open>One round of the \<open>do\<close> loop: from the calls to inline to those that are left afterwards.\<close>

definition fuse_round :: "fuse_llvm \<Rightarrow> bool \<Rightarrow> fuse_state \<times> call_site list \<Rightarrow> (fuse_state \<times> call_site list) res" where
  "fuse_round u ignoreNoInline st =
     rbind (rfold (inline_call u) (rev (snd st)) (fst st)) (\<lambda>s.
       let callMap = get_candidate_call_sites (fs_module s) ignoreNoInline (failedInlineCallSites s) in
       rbind (rfold (clean_caller u) callMap ([], fs_module s)) (\<lambda>(modifiedCombinedCallers, m1).
         rbind (demote_callers u modifiedCombinedCallers m1) (\<lambda>m2.
           let callMap = (if modifiedCombinedCallers \<noteq> []
                          then get_candidate_call_sites m2 ignoreNoInline (failedInlineCallSites s) else callMap) in
           rbind (combine_calls (u_split u) (u_ord u) callMap m2) (\<lambda>(m3, combinedCalls).
             rmap (\<lambda>m4. (s\<lparr>fs_module := m4\<rparr>, CallSites combinedCalls))
               (demote_callers u (ModifiedCallers combinedCalls) m3)))))"

text \<open>The loop: \<open>None\<close> where it does not end.\<close>

partial_function (option) fuse_loop ::
  "fuse_llvm \<Rightarrow> bool \<Rightarrow> fuse_state \<times> call_site list \<Rightarrow> fuse_state res option" where
  "fuse_loop u ignoreNoInline st =
     (case fuse_round u ignoreNoInline st of
        Inl e \<Rightarrow> Some (Inl e)
      | Inr st' \<Rightarrow> if snd st' = [] then Some (Inr (fst st')) else fuse_loop u ignoreNoInline st')"

definition erase_dead_target :: "fuse_llvm \<Rightarrow> nat \<Rightarrow> ir_module \<Rightarrow> ir_module" where
  "erase_dead_target u callTarget m =
     (if u_trivially_dead u m callTarget then m\<lparr>m_funcs := del_at f_id callTarget (m_funcs m)\<rparr> else m)"

fun pa_intersect :: "preserved_analyses \<Rightarrow> preserved_analyses \<Rightarrow> preserved_analyses" where
  "pa_intersect PA_all p = p"
| "pa_intersect p PA_all = p"
| "pa_intersect PA_cfg PA_cfg = PA_cfg"
| "pa_intersect _ _ = PA_none"

definition fuse_functions ::
  "fuse_llvm \<Rightarrow> bool \<Rightarrow> ir_module \<Rightarrow> (ir_module \<times> preserved_analyses) res option" where
  "fuse_functions u ignoreNoInline m0 =
     (case u_pipeline u ''module(function(lowerinvoke,simplifycfg),mergefunc)'' m0 of
        (m, result, parseError) \<Rightarrow>
          if parseError \<noteq> [] then Some (Inr (m, result))
          else
            (case rbind (combine_calls (u_split u) (u_ord u) (get_candidate_call_sites m ignoreNoInline []) m)
                    (\<lambda>(m1, combinedCalls). rmap (\<lambda>m2. (m2, CallSites combinedCalls))
                       (demote_callers u (ModifiedCallers combinedCalls) m1)) of
               Inl e \<Rightarrow> Some (Inl e)
             | Inr (m2, callSites) \<Rightarrow>
                 map_option (rmap (\<lambda>s.
                     let m3 = fold (erase_dead_target u) (callTargets s) (fs_module s)
                     in (case u_pipeline u ''module(constmerge,globalopt,globaldce)'' m3 of
                           (m4, mem2regPA, parseError) \<Rightarrow> (m4, pa_intersect (fs_result s) mem2regPA))))
                   (fuse_loop u ignoreNoInline
                      (\<lparr>fs_module = m2, failedInlineCallSites = [], callTargets = [], fs_result = result\<rparr>, callSites))))"

section \<open>The candidates\<close>

definition sites_of :: "call_site_map \<Rightarrow> nat \<Rightarrow> nat \<Rightarrow> nat list" where
  "sites_of cm caller callee =
     (case map_of cm caller of
        None \<Rightarrow> []
      | Some inner \<Rightarrow> (case map_of inner callee of None \<Rightarrow> [] | Some xs \<Rightarrow> xs))"

lemma sites_of_push:
  "sites_of (push_call a b x cm) c d = (if c = a \<and> d = b then sites_of cm a b @ [x] else sites_of cm c d)"
  by (auto simp: sites_of_def push_call_def update_conv' map_of_push_back split: option.splits)

text \<open>A call map without repeated keys and without empty entries.\<close>

definition call_map_ok :: "call_site_map \<Rightarrow> bool" where
  "call_map_ok cm \<longleftrightarrow> distinct (map fst cm) \<and>
     (\<forall>(caller, inner) \<in> set cm. inner \<noteq> [] \<and> distinct (map fst inner) \<and> (\<forall>(callee, xs) \<in> set inner. xs \<noteq> []))"

lemma set_update: "set (AList.update k v al) \<subseteq> insert (k, v) (set al)"
  by (induction al) auto

lemma update_nonempty: "AList.update k v al \<noteq> []"
  by (cases al) auto

lemma push_back_ok:
  assumes "distinct (map fst inner)" and "\<forall>(callee, xs) \<in> set inner. xs \<noteq> []"
  shows "push_back g x inner \<noteq> [] \<and> distinct (map fst (push_back g x inner))
    \<and> (\<forall>(callee, xs) \<in> set (push_back g x inner). xs \<noteq> [])"
proof -
  have "set (push_back g x inner) \<subseteq> insert (g, (case map_of inner g of None \<Rightarrow> [] | Some vs \<Rightarrow> vs) @ [x]) (set inner)"
    unfolding push_back_def by (rule set_update)
  then have "\<forall>(callee, xs) \<in> set (push_back g x inner). xs \<noteq> []" using assms(2) by auto
  then show ?thesis using assms(1) by (simp add: push_back_def distinct_update update_nonempty)
qed

lemma push_call_ok:
  assumes "call_map_ok cm"
  shows "call_map_ok (push_call a b x cm)"
proof -
  let ?inner = "case map_of cm a of None \<Rightarrow> [] | Some inner \<Rightarrow> inner"
  have "distinct (map fst ?inner)" "\<forall>(callee, xs) \<in> set ?inner. xs \<noteq> []"
    using assms by (auto simp: call_map_ok_def split: option.splits dest!: map_of_SomeD)
  note push_back_ok[OF this, of b x]
  moreover have "distinct (map fst (push_call a b x cm))"
    using assms by (simp add: push_call_def distinct_update call_map_ok_def)
  ultimately show ?thesis
    using assms set_update[of a "push_back b x ?inner" cm] unfolding call_map_ok_def push_call_def
    by (auto dest!: subsetD[where B = "insert _ _"])
qed

text \<open>One function: the loop over its instructions.\<close>

lemma candidate_loop:
  "sites_of (fold (\<lambda>i cm. case cand i of None \<Rightarrow> cm | Some g \<Rightarrow> push_call a g (i_id i) cm) is cm) c d =
     sites_of cm c d @ (if c = a then map i_id (filter (\<lambda>i. cand i = Some d) is) else [])"
  by (induction "is" arbitrary: cm) (auto simp: sites_of_push split: option.splits)

lemma candidate_loop_ok:
  "call_map_ok cm \<Longrightarrow>
   call_map_ok (fold (\<lambda>i cm. case cand i of None \<Rightarrow> cm | Some g \<Rightarrow> push_call a g (i_id i) cm) is cm)"
  by (induction "is" arbitrary: cm) (auto simp: push_call_ok split: option.splits)

lemma get_candidates_fn_insts:
  "get_candidate_call_sites_fn m b ign f cm =
     fold (\<lambda>i cm. case candidate_call m ign f i of None \<Rightarrow> cm | Some g \<Rightarrow> push_call (f_id f) g (i_id i) cm)
       (func_insts f) cm"
proof -
  have "fold (\<lambda>block. fold h (b_insts block)) bs cm = fold h (concat (map b_insts bs)) cm" for h :: "ir_inst \<Rightarrow> call_site_map \<Rightarrow> call_site_map" and bs
    by (induction bs arbitrary: cm) simp_all
  then show ?thesis by (simp add: get_candidate_call_sites_fn_def func_insts_def)
qed

definition candidates_of :: "ir_module \<Rightarrow> bool \<Rightarrow> call_site list \<Rightarrow> ir_func \<Rightarrow> nat \<Rightarrow> nat list" where
  "candidates_of m ig ign f g =
     (if considered_func ig f then map i_id (filter (\<lambda>i. candidate_call m ign f i = Some g) (func_insts f)) else [])"

lemma get_candidates_facts:
  assumes "distinct (map f_id (m_funcs m))" and "f \<in> set (m_funcs m)"
  shows "sites_of (get_candidate_call_sites m ig ign) (f_id f) g = candidates_of m ig ign f g"
    and "call_map_ok (get_candidate_call_sites m ig ign)"
proof -
  have loop: "sites_of (fold (get_candidate_call_sites_fn m ig ign) fs cm) c g =
      sites_of cm c g @ concat (map (\<lambda>f. if c = f_id f
         then map i_id (filter (\<lambda>i. candidate_call m ign f i = Some g) (func_insts f)) else []) fs)" for fs cm c
    by (induction fs arbitrary: cm) (simp_all add: get_candidates_fn_insts candidate_loop)
  have one: "concat (map (\<lambda>h. if f_id f = f_id h then F h else []) (filter p hs)) = (if p f then F f else [])"
    if "distinct (map f_id hs)" "f \<in> set hs" for hs p and F :: "ir_func \<Rightarrow> nat list"
    using that
  proof (induction hs)
    case (Cons h hs)
    show ?case
    proof (cases "h = f")
      case True
      then have "f_id f \<notin> f_id ` set hs" using Cons.prems by auto
      then have "concat (map (\<lambda>h. if f_id f = f_id h then F h else []) (filter p hs)) = []" by force
      with True show ?thesis by simp
    next
      case False
      with Cons.prems(2) have f: "f \<in> set hs" by simp
      moreover have "f_id f \<noteq> f_id h" using Cons.prems(1) imageI[OF f, of f_id] by auto
      ultimately show ?thesis using Cons by (simp del: concat_eq_Nil_conv)
    qed
  qed simp
  show "sites_of (get_candidate_call_sites m ig ign) (f_id f) g = candidates_of m ig ign f g"
    unfolding get_candidate_call_sites_def loop candidates_of_def one[OF assms]
    by (simp add: sites_of_def)
  have "call_map_ok (fold (get_candidate_call_sites_fn m ig ign) fs cm)" if "call_map_ok cm" for fs cm
    using that by (induction fs arbitrary: cm) (simp_all add: get_candidates_fn_insts candidate_loop_ok)
  moreover have "call_map_ok []" by (simp add: call_map_ok_def)
  ultimately show "call_map_ok (get_candidate_call_sites m ig ign)"
    unfolding get_candidate_call_sites_def by blast
qed

text \<open>
  C15: The candidates of a caller and a callee are exactly the direct calls of the callee, a defined
  function other than the caller, that are not to be ignored, in program order and each once, where the
  caller may be optimised; the map has no empty entry. The attributes of the callee are not asked:
  a function that must not be inlined is a candidate like any other.
\<close>

theorem candidate_calls_exact:
  assumes "distinct (map f_id (m_funcs m))" and "f \<in> set (m_funcs m)" and "wf_func f"
    and "find_func m g = Some callee"
  shows "sites_of (get_candidate_call_sites m ig ign) (f_id f) g =
      (if considered_func ig f \<and> g \<noteq> f_id f \<and> \<not> is_declaration callee
       then map i_id (filter (\<lambda>i. is_call (i_kind i) \<and> called_function (i_kind i) = Some (Fn g)
                                    \<and> (f_id f, i_id i) \<notin> set ign) (func_insts f))
       else []) \<and>
    distinct (sites_of (get_candidate_call_sites m ig ign) (f_id f) g) \<and>
    call_map_ok (get_candidate_call_sites m ig ign)"
proof -
  have "candidate_call m ign f i = Some g \<longleftrightarrow> g \<noteq> f_id f \<and> \<not> is_declaration callee \<and>
      is_call (i_kind i) \<and> called_function (i_kind i) = Some (Fn g) \<and> (f_id f, i_id i) \<notin> set ign" for i
  proof (cases "called_function (i_kind i) = Some (Fn g)")
    case True
    then have "\<not> is_inline_asm (i_kind i)" by (auto simp: is_inline_asm_def called_function_Some)
    with True assms(4) show ?thesis by (auto simp: candidate_call_def)
  next
    case False
    then show ?thesis by (auto simp: candidate_call_def split: option.splits fn_id.splits if_splits)
  qed
  moreover have "distinct (map i_id (filter P (func_insts f)))" for P
    using wf_func_distinct[OF assms(3)] by (simp add: distinct_map_filter)
  ultimately show ?thesis
    using get_candidates_facts[OF assms(1,2)] by (auto simp: candidates_of_def)
qed

section \<open>The unreachable block, found or made\<close>

lemma new_at_end_new_block:
  assumes "wf_func f"
  shows "f_blocks (new_at_end (f_next f) k t (new_block nm f)) =
    f_blocks f @ [\<lparr>b_id = f_next f, b_name = nm, b_insts = [mk_inst (Suc (f_next f)) k t '''']\<rparr>]"
proof -
  have "f_next f \<notin> b_id ` set (f_blocks f)" using assms by (force simp: wf_func_def fresh_ids_def)
  then show ?thesis
    by (simp add: new_at_end_def new_block_def append_block_def append_inst_def upd_at_notin on_insts_def)
qed

lemma unreachable_block_facts:
  assumes "wf_func f" and "get_or_create_unreachable_block f = (g, b)"
  shows "wf_func g \<and> f_next f \<le> f_next g \<and> (g = f \<or> f_blocks g = f_blocks f @ [the (find_block g b)])
    \<and> (\<exists>blk i. find_block g b = Some blk \<and> b_insts blk = [i] \<and> i_kind i = Unreachable)"
proof (cases "filter is_unreachable_block (f_blocks f)")
  case (Cons c cs)
  then have g: "g = f" "b = b_id c" using assms(2) by (auto simp: get_or_create_unreachable_block_def)
  have c: "c \<in> set (f_blocks f)" "is_unreachable_block c"
    using Cons_eq_filterD[OF Cons[symmetric]] by auto
  with g assms(1) find_block_member[OF assms(1) c(1)] show ?thesis
    by (auto simp: is_unreachable_block_def split: list.splits)
next
  case Nil
  let ?b = "\<lparr>b_id = f_next f, b_name = '''', b_insts = [mk_inst (Suc (f_next f)) Unreachable VoidTy '''']\<rparr>"
  have g: "g = new_at_end (f_next f) Unreachable VoidTy (new_block '''' f)" "b = f_next f"
    using Nil assms(2) by (auto simp: get_or_create_unreachable_block_def Let_def)
  have blocks: "f_blocks g = f_blocks f @ [?b]" unfolding g by (rule new_at_end_new_block[OF assms(1)])
  have nxt: "f_next g = Suc (Suc (f_next f))"
    by (simp add: g(1) new_at_end_def new_block_def append_inst_def append_block_def)
  have fresh: "f_next f \<notin> b_id ` set (f_blocks f)" "Suc (f_next f) \<notin> i_id ` set (func_insts f)"
    using assms(1) by (force simp: wf_func_def fresh_ids_def)+
  have find: "find_block g b = Some ?b"
    using fresh(1) at_id_None[of b_id "f_next f" "f_blocks f"] by (simp add: find_block_def blocks g(2) at_id_append)
  have "wf_func g"
    unfolding wf_func_def fresh_ids_def nxt
    using assms(1) fresh by (auto simp: func_insts_def blocks wf_func_def fresh_ids_def less_Suc_eq)
  with find blocks nxt show ?thesis by simp
qed


section \<open>Instances\<close>

text \<open>A caller that adds the results of two calls of a function of one argument.\<close>

definition sum_callee_type :: ir_type where
  "sum_callee_type = FuncTy (IntTy 32) [IntTy 32] False"

definition sum_callee :: ir_func where
  "sum_callee = mk_func 9 ''g'' sum_callee_type True [mk_block 0 [demo_inst 1 (Ret (Some (ArgVal 0)))]] 2"

definition sum_call :: "nat \<Rightarrow> nat \<Rightarrow> ir_inst" where
  "sum_call x n = demo_inst x (Call sum_callee_type [ConstInt (CInt 32 n)] (FuncVal (Fn 9) sum_callee_type))"

definition sum_caller :: ir_func where
  "sum_caller = mk_func 7 ''f'' (FuncTy VoidTy [] False) True
     [mk_block 0 [sum_call 2 1, sum_call 3 2, demo_inst 4 (OtherInst ''add'' [InstVal 2, InstVal 3]),
                  demo_inst 5 (Ret (Some (InstVal 4)))]] 6"

definition sum_args :: "nat \<Rightarrow> ir_value list" where
  "sum_args c = [ConstInt (CInt 32 (c - 1))]"

lemmas sum_eval = sum_caller_def sum_callee_def sum_call_def sum_callee_type_def sum_args_def demo_eval

definition sum_module :: ir_module where
  "sum_module = \<lparr>m_funcs = [sum_callee, sum_caller], m_globals = [], m_named_md = [],
     m_arch_bits = 64, m_intptr_bits = 64, m_next = 10\<rparr>"

theorem candidate_calls_exact_witness:
  "sites_of (get_candidate_call_sites (sum_module\<lparr>m_funcs := [sum_callee\<lparr>f_noinline := True\<rparr>, sum_caller]\<rparr>) False [(7, 3)]) 7 9 = [2]"
  using candidate_calls_exact[of "sum_module\<lparr>m_funcs := [sum_callee\<lparr>f_noinline := True\<rparr>, sum_caller]\<rparr>" sum_caller 9
      "sum_callee\<lparr>f_noinline := True\<rparr>" False "[(7, 3)]"]
  by (simp add: sum_module_def sum_eval wf_func_def fresh_ids_def find_func_def considered_func_def is_declaration_def
      func_empty_def called_function_def)


end
