(* ===== verification/Fuse_Split.thy ===== *)
theory Fuse_Split
  imports Fuse_Functions Combined_Call "HOL-Library.Sublist"
begin

text \<open>
  The first loop of \<open>combine_calls\<close> of \<open>fuse-functions.cpp\<close>: splitting the caller at its call sites. Each
  block that is split branches to the call block, the rest of it starts with the call, and the instructions
  of the caller keep their order.
\<close>

section \<open>Edits of one block of a layout\<close>

lemma block_eq_by_id:
  assumes "wf_func f" and "b \<in> set (f_blocks f)" and "c \<in> set (f_blocks f)" and "b_id b = b_id c"
  shows "b = c"
  using find_block_member[OF assms(1,2)] find_block_member[OF assms(1,3)] assms(4) by (metis option.inject)

lemma local_edit:
  assumes "f_blocks f = ys @ blk # zs" and "\<And>b. b \<in> set ys \<union> set zs \<Longrightarrow> x \<notin> i_id ` set (b_insts b)"
    and "\<And>is. x \<notin> i_id ` set is \<Longrightarrow> e is = is"
  shows "f_blocks (map_blocks (on_insts e) f) = ys @ on_insts e blk # zs"
proof -
  have "on_insts e b = b" if "b \<in> set ys \<union> set zs" for b
    using assms(2)[OF that] assms(3)[of "b_insts b"] by (simp add: on_insts_def)
  then have "map (on_insts e) ys = ys" "map (on_insts e) zs = zs" by (auto intro!: map_idI)
  then show ?thesis by (simp add: assms(1))
qed

lemma local_append:
  assumes "f_blocks f = ys @ blk # zs" and "b_id blk \<notin> b_id ` set ys" "b_id blk \<notin> b_id ` set zs"
  shows "f_blocks (append_inst (b_id blk) n f) = ys @ on_insts (\<lambda>is. is @ [n]) blk # zs"
  using assms by (simp add: append_inst_def upd_at_notin)

section \<open>Splitting at one call\<close>

text \<open>The last instruction but the branch moves to the front of the next block.\<close>

lemma moved_layout:
  assumes wf: "wf_func f" and lay: "f_blocks f = ys @ P # R # zs" and P: "b_insts P = pre @ [ci, br]" and R: "b_insts R = j # post"
  shows "f_blocks (move_before (i_id ci) (i_id j) f) = ys @ P\<lparr>b_insts := pre @ [br]\<rparr> # R\<lparr>b_insts := ci # j # post\<rparr> # zs"
    and "f_next (move_before (i_id ci) (i_id j) f) = f_next f" and "f_id (move_before (i_id ci) (i_id j) f) = f_id f"
    and "wf_func (move_before (i_id ci) (i_id j) f)"
proof -
  have lay': "f_blocks f = (ys @ [P]) @ R # zs" by (simp add: lay)
  have all: "func_insts f = concat (map b_insts ys) @ pre @ ci # br # j # post @ concat (map b_insts zs)"
    by (simp add: func_insts_def lay P R)
  have ne: "i_id ci \<noteq> i_id j" "i_id ci \<noteq> i_id br" "i_id ci \<notin> i_id ` set pre"
    using wf_func_distinct[OF wf] unfolding all by auto
  have "find_inst f (i_id ci) = Some ci" by (rule find_inst_member[OF wf]) (simp add: all)
  then have move: "move_before (i_id ci) (i_id j) f = insert_before (i_id j) ci (erase_inst (i_id ci) f)"
    using ne(1) by (simp add: move_before_def)
  then show same: "f_next (move_before (i_id ci) (i_id j) f) = f_next f" "f_id (move_before (i_id ci) (i_id j) f) = f_id f"
    by (simp_all add: insert_before_def erase_inst_def)
  have "i_id ci \<notin> i_id ` set (b_insts b)" if "b \<in> set ys \<union> set (R # zs)" for b
    using layout_ids(3)[OF wf lay _ that, of "i_id ci"] by (simp add: P)
  then have "f_blocks (erase_inst (i_id ci) f) = ys @ on_insts (del_at i_id (i_id ci)) P # R # zs"
    unfolding erase_inst_def by (rule local_edit[OF lay]) (simp_all add: del_at_notin)
  also have "on_insts (del_at i_id (i_id ci)) P = P\<lparr>b_insts := pre @ [br]\<rparr>"
    using ne by (simp add: on_insts_def del_at_notin P)
  finally have lay_e: "f_blocks (erase_inst (i_id ci) f) = (ys @ [P\<lparr>b_insts := pre @ [br]\<rparr>]) @ R # zs" by simp
  have notj: "i_id j \<notin> i_id ` set (b_insts b)" if "b \<in> set (ys @ [P\<lparr>b_insts := pre @ [br]\<rparr>]) \<union> set zs" for b
  proof -
    have j1: "i_id j \<in> i_id ` set (b_insts R)" by (simp add: R)
    note other = layout_ids(3)[OF wf lay' j1]
    have "i_id j \<notin> i_id ` set (b_insts P)" by (rule other) simp
    then show ?thesis using that other by (auto simp: P)
  qed
  have "f_blocks (move_before (i_id ci) (i_id j) f) = (ys @ [P\<lparr>b_insts := pre @ [br]\<rparr>]) @ on_insts (ins_before i_id (i_id j) ci) R # zs"
    unfolding move insert_before_def by (rule local_edit[OF lay_e notj]) (simp_all add: ins_before_notin)
  then show lay2: "f_blocks (move_before (i_id ci) (i_id j) f) = ys @ P\<lparr>b_insts := pre @ [br]\<rparr> # R\<lparr>b_insts := ci # j # post\<rparr> # zs"
    by (simp add: on_insts_def R)
  have "fresh_ids (Y @ c # b # Z) n \<Longrightarrow> fresh_ids (Y @ b # c # Z) n" for Y Z b c n by (auto simp: fresh_ids_def)
  from this[of "map i_id (concat (map b_insts ys) @ pre)" "i_id ci" "i_id br"
      "map i_id (j # post @ concat (map b_insts zs))" "f_next f"] wf
  show "wf_func (move_before (i_id ci) (i_id j) f)"
    unfolding wf_func_def same by (simp add: func_insts_def lay2) (simp add: lay P R)
qed

text \<open>The branch of a block is replaced.\<close>

lemma redirected_layout:
  assumes wf: "wf_func f" and lay: "f_blocks f = ys @ P # zs" and P: "b_insts P = pre @ [br]" and br: "is_terminator (i_kind br)"
    and g: "g = erase_inst (i_id br) (new_at_end (b_id P) k VoidTy f)"
  shows "get_terminator f (b_id P) = Inr br" "f_blocks g = ys @ P\<lparr>b_insts := pre @ [mk_inst (f_next f) k VoidTy '''']\<rparr> # zs"
    and "f_next g = Suc (f_next f)" "f_id g = f_id f" "wf_func g"
proof -
  let ?n = "mk_inst (f_next f) k VoidTy ''''"
  note ids = layout_ids(1,2)[OF wf lay]
  have "P \<in> set (f_blocks f)" by (simp add: lay)
  from find_block_member[OF wf this] show "get_terminator f (b_id P) = Inr br"
    by (simp add: get_terminator_def terminator_def br deref_def P)
  have all: "func_insts f = (concat (map b_insts ys) @ pre) @ br # concat (map b_insts zs)" by (simp add: func_insts_def lay P)
  have ne: "i_id br \<noteq> f_next f" "i_id br \<notin> i_id ` set pre" using wf by (auto simp: wf_func_def fresh_ids_def all)
  have lay3: "f_blocks (new_at_end (b_id P) k VoidTy f) = ys @ P\<lparr>b_insts := pre @ [br, ?n]\<rparr> # zs"
    using local_append[OF lay ids, of ?n] by (simp add: new_at_end_def on_insts_def P)
  have "i_id br \<notin> i_id ` set (b_insts b)" if "b \<in> set ys \<union> set zs" for b
    using layout_ids(3)[OF wf lay _ that, of "i_id br"] by (simp add: P)
  then have "f_blocks g = ys @ on_insts (del_at i_id (i_id br)) (P\<lparr>b_insts := pre @ [br, ?n]\<rparr>) # zs"
    unfolding g erase_inst_def by (rule local_edit[OF lay3]) (simp_all add: del_at_notin)
  also have "on_insts (del_at i_id (i_id br)) (P\<lparr>b_insts := pre @ [br, ?n]\<rparr>) = P\<lparr>b_insts := pre @ [?n]\<rparr>"
    using ne by (simp add: on_insts_def del_at_notin)
  finally show lay: "f_blocks g = ys @ P\<lparr>b_insts := pre @ [?n]\<rparr> # zs" .
  show nxt: "f_next g = Suc (f_next f)" "f_id g = f_id f"
    by (simp_all add: g new_at_end_def append_inst_def erase_inst_def)
  have "fresh_ids (Y @ b # Z) n \<Longrightarrow> fresh_ids (Y @ n # Z) (Suc n)" for Y Z b n by (auto simp: fresh_ids_def less_Suc_eq)
  from this[of "map i_id (concat (map b_insts ys) @ pre)" "i_id br" "map i_id (concat (map b_insts zs))" "f_next f"]
  have "fresh_ids (map i_id (func_insts g)) (Suc (f_next f))"
    using wf unfolding wf_func_def by (simp add: all) (simp add: func_insts_def lay)
  moreover have "map b_id (f_blocks g) = map b_id (f_blocks f)" by (simp add: lay assms(2))
  ultimately show "wf_func g" using wf unfolding wf_func_def nxt by (simp add: fresh_ids_Suc)
qed

lemma call_and_next:
  assumes wf: "wf_func f" and layout: "f_blocks f = ys @ blk # zs" and insts: "b_insts blk = pre @ ci # j # post"
  shows "parent_block f (i_id ci) = Some blk" "next_inst blk (i_id ci) = Inr (i_id j)"
proof -
  have "i_id ci \<notin> i_id ` set (b_insts b)" if "b \<in> set ys" for b
    using layout_ids(3)[OF wf layout, of "i_id ci" b] that by (simp add: insts)
  then show "parent_block f (i_id ci) = Some blk"
    unfolding parent_block_def layout by (induction ys) (auto simp: insts)
  have "i_id ci \<notin> i_id ` set pre" using block_insts_distinct[OF wf, of blk] by (simp add: insts layout)
  then have "dropWhile (\<lambda>i. i_id i \<noteq> i_id ci) (pre @ ci # j # post) = ci # j # post"
    by (induction pre) auto
  then show "next_inst blk (i_id ci) = Inr (i_id j)" by (simp add: next_inst_def insts)
qed

lemma split_call_site_step:
  assumes split: "split_ok split" and wf: "wf_func f" and layout: "f_blocks f = ys @ blk # zs"
    and insts: "b_insts blk = pre @ ci # j # post" and ci: "\<not> is_phi (i_kind ci)" and j: "\<not> is_phi (i_kind j)"
  shows "\<exists>g r h n nm. split_call_site split cb (i_id ci) (f, orig, ret) =
      Inr (g, AList.update (i_id ci) (b_id blk) orig, AList.update (b_id blk) r ret)
    \<and> wf_func g \<and> renames_phis h \<and> f_id g = f_id f \<and> f_next f \<le> r \<and> f_next f \<le> n \<and> f_next f \<le> f_next g
    \<and> f_blocks g = map (on_insts (map h)) ys @ blk\<lparr>b_insts := map h pre @ [mk_inst n (Br cb) VoidTy '''']\<rparr>
        # \<lparr>b_id = r, b_name = nm, b_insts = ci # map h (j # post)\<rparr> # map (on_insts (map h)) zs"
proof -
  have insts': "b_insts blk = (pre @ [ci]) @ j # post" by (simp add: insts)
  obtain f1 r br h nm where f1: "split (b_id blk) (i_id j) ''.fuse.retblock'' f = (f1, r)" "renames_phis h" "i_kind br = Br r"
    "wf_func f1" "f_id f1 = f_id f" "f_next f \<le> f_next f1" "f_next f \<le> r" "f_next f \<le> i_id br"
    "f_blocks f1 = map (on_insts (map h)) ys @ blk\<lparr>b_insts := map h (pre @ [ci]) @ [br]\<rparr>
       # \<lparr>b_id = r, b_name = nm, b_insts = map h (j # post)\<rparr> # map (on_insts (map h)) zs"
    using split[unfolded split_ok_def, rule_format, OF wf layout insts'] by metis
  note h = renames_phis_simps[OF f1(2)]
  let ?ys = "map (on_insts (map h)) ys" and ?zs = "map (on_insts (map h)) zs"
  let ?P = "blk\<lparr>b_insts := map h pre @ [ci, br]\<rparr>" and ?R = "\<lparr>b_id = r, b_name = nm, b_insts = map h (j # post)\<rparr>"
  let ?R2 = "\<lparr>b_id = r, b_name = nm, b_insts = ci # map h (j # post)\<rparr>"
  have lay1: "f_blocks f1 = ?ys @ ?P # ?R # ?zs" by (simp add: f1(9) h(2)[OF ci])
  then have "?R \<in> set (f_blocks f1)" by simp
  from find_block_member[OF f1(4) this] have "find_block f1 r = Some ?R" by simp
  then have pos: "get_first_non_phi f1 r = Inr (h j)"
    by (simp add: get_first_non_phi_def first_non_phi_def deref_def h(3) j)
  let ?f2 = "move_before (i_id ci) (i_id (h j)) f1"
  have "b_insts ?P = map h pre @ [ci, br]" "b_insts ?R = h j # map h post" by simp_all
  note f2 = moved_layout[OF f1(4) lay1 this]
  have lay2: "f_blocks ?f2 = ?ys @ blk\<lparr>b_insts := map h pre @ [br]\<rparr> # ?R2 # ?zs" by (simp add: f2(1))
  have "b_insts (blk\<lparr>b_insts := map h pre @ [br]\<rparr>) = map h pre @ [br]" "is_terminator (i_kind br)" by (simp_all add: f1(3))
  note g = redirected_layout[where k = "Br cb", OF f2(4) lay2 this refl, simplified]
  have "split_call_site split cb (i_id ci) (f, orig, ret) =
      Inr (erase_inst (i_id br) (new_at_end (b_id blk) (Br cb) VoidTy ?f2),
           AList.update (i_id ci) (b_id blk) orig, AList.update (b_id blk) r ret)"
    using call_and_next[OF wf layout insts] g(1)
    by (simp add: split_call_site_def get_parent_def f1(1) pos Let_def)
  then show ?thesis using g(2-5) f2(2,3) f1(2,5-7)
    by (intro exI[of _ "erase_inst (i_id br) (new_at_end (b_id blk) (Br cb) VoidTy ?f2)"] exI[of _ r] exI[of _ h]
        exI[of _ "f_next f1"] exI[of _ nm]) simp
qed

section \<open>Splitting at all calls\<close>

text \<open>
  A call that can be split at: it is no \<open>phi\<close>, and neither is the instruction behind it, which exists
  because every block of valid IR ends in a terminator.
\<close>

fun ready_in :: "nat \<Rightarrow> ir_inst list \<Rightarrow> bool" where
  "ready_in c (a # b # is) =
     (if i_id a = c then \<not> is_phi (i_kind a) \<and> \<not> is_phi (i_kind b) else ready_in c (b # is))"
| "ready_in c _ = False"

definition site_ready :: "ir_func \<Rightarrow> nat \<Rightarrow> bool" where
  "site_ready f c \<longleftrightarrow> (\<exists>blk \<in> set (f_blocks f). ready_in c (b_insts blk))"

lemma ready_in_split:
  "ready_in c is \<Longrightarrow> \<exists>pre ci j post. is = pre @ ci # j # post \<and> i_id ci = c \<and> c \<notin> i_id ` set pre
     \<and> \<not> is_phi (i_kind ci) \<and> \<not> is_phi (i_kind j)"
proof (induction c "is" rule: ready_in.induct)
  case (1 c a b "is")
  show ?case
  proof (cases "i_id a = c")
    case True
    with 1 show ?thesis by (intro exI[of _ "[]"] exI[of _ a] exI[of _ b] exI[of _ "is"]) simp
  next
    case False
    with 1(2) have "ready_in c (b # is)" by simp
    from 1(1)[OF False this] obtain pre ci j post where "b # is = pre @ ci # j # post" "i_id ci = c" "c \<notin> i_id ` set pre"
      "\<not> is_phi (i_kind ci)" "\<not> is_phi (i_kind j)"
      by blast
    with False show ?thesis by (intro exI[of _ "a # pre"] exI[of _ ci] exI[of _ j] exI[of _ post]) auto
  qed
qed simp_all

lemma ready_in_Cons: "i_id a \<noteq> c \<Longrightarrow> ready_in c (a # is) = ready_in c is"
  by (cases "is") simp_all

lemma ready_in_append: "c \<notin> i_id ` set xs \<Longrightarrow> ready_in c (xs @ ys) = ready_in c ys"
  by (induction xs) (auto simp: ready_in_Cons)

lemma ready_in_map: "renames_phis h \<Longrightarrow> ready_in c (map h is) = ready_in c is"
  by (induction c "is" rule: ready_in.induct) (simp_all add: renames_phis_def)

text \<open>
  The block \<open>P\<close> that was split at the call \<open>c\<close> ends in a branch to the call block, the rest \<open>R\<close> of it,
  which starts with the call, is right behind it.
\<close>

definition linked :: "nat \<Rightarrow> ir_func \<Rightarrow> nat \<Rightarrow> nat \<Rightarrow> nat \<Rightarrow> bool" where
  "linked cb f c P R \<longleftrightarrow>
     (\<exists>xs pb rb ys body br ci is. f_blocks f = xs @ pb # rb # ys \<and> b_id pb = P \<and> b_id rb = R
        \<and> b_insts pb = body @ [br] \<and> i_kind br = Br cb \<and> b_insts rb = ci # is \<and> i_id ci = c)"

lemma linkedI:
  "f_blocks f = xs @ pb # rb # ys \<Longrightarrow> b_id pb = P \<Longrightarrow> b_id rb = R \<Longrightarrow> b_insts pb = body @ [br] \<Longrightarrow>
   i_kind br = Br cb \<Longrightarrow> b_insts rb = ci # is \<Longrightarrow> i_id ci = c \<Longrightarrow> linked cb f c P R"
  unfolding linked_def by blast

type_synonym link = "nat \<times> nat \<times> nat"

definition avoids :: "ir_func \<Rightarrow> nat \<Rightarrow> nat list \<Rightarrow> bool" where
  "avoids f P rest \<longleftrightarrow> (\<forall>b \<in> set (f_blocks f). b_id b = P \<longrightarrow> i_id ` set (b_insts b) \<inter> set rest = {})"

definition split_inv :: "nat \<Rightarrow> ir_func \<Rightarrow> link list \<Rightarrow> nat list \<Rightarrow> bool" where
  "split_inv cb f ls rest \<longleftrightarrow> wf_func f
     \<and> subseq rest (map i_id (func_insts f)) \<and> (\<forall>c \<in> set rest. site_ready f c)
     \<and> (\<forall>(c, P, R) \<in> set ls. linked cb f c P R \<and> avoids f P rest)
     \<and> distinct (map (\<lambda>(c, P, R). P) ls) \<and> distinct (map fst ls @ rest)
     \<and> (\<forall>b \<in> set (f_blocks f). b_id b \<noteq> cb \<longrightarrow> b_insts b \<noteq> [])
     \<and> (\<exists>nm. find_block f cb = Some \<lparr>b_id = cb, b_name = nm, b_insts = []\<rparr>)"

definition links_orig :: "link list \<Rightarrow> (nat \<times> nat) list" where "links_orig ls = map (\<lambda>(c, P, R). (c, P)) ls"
definition links_ret :: "link list \<Rightarrow> (nat \<times> nat) list" where "links_ret ls = map (\<lambda>(c, P, R). (P, R)) ls"

lemma update_new: "k \<notin> fst ` set al \<Longrightarrow> AList.update k v al = al @ [(k, v)]"
  by (induction al) auto

lemma subseq_after:
  assumes "subseq (c # rest) (A @ c # B)" and "c \<notin> set A"
  shows "subseq rest B"
  using assms by (induction A) auto

text \<open>
  The blocks after one such split: \<open>p\<close> in the place of \<open>blk\<close> with a branch to the call block, \<open>rr\<close> behind it
  with the call and the rest.
\<close>

definition cut_into :: "(ir_inst \<Rightarrow> ir_inst) \<Rightarrow> ir_block \<Rightarrow> ir_block \<Rightarrow> ir_block \<Rightarrow> ir_block list" where
  "cut_into h p rr b = (if b_id b = b_id p then [p, rr] else [on_insts (map h) b])"

definition call_cut :: "nat \<Rightarrow> ir_func \<Rightarrow> ir_func \<Rightarrow> ir_block \<Rightarrow> ir_inst list \<Rightarrow> ir_inst \<Rightarrow> ir_inst list
    \<Rightarrow> (ir_inst \<Rightarrow> ir_inst) \<Rightarrow> nat \<Rightarrow> ir_block \<Rightarrow> ir_block \<Rightarrow> bool" where
  "call_cut cb f g blk pre ci post h n p rr \<longleftrightarrow> wf_func f \<and> wf_func g \<and> renames_phis h \<and>
     b_insts blk = pre @ ci # post \<and> \<not> is_phi (i_kind ci) \<and> b_id p = b_id blk \<and>
     b_insts p = map h pre @ [mk_inst n (Br cb) VoidTy ''''] \<and> b_insts rr = ci # map h post \<and>
     f_next f \<le> n \<and> f_next f \<le> b_id rr \<and>
     (\<exists>ys zs. f_blocks f = ys @ blk # zs \<and> f_blocks g = map (on_insts (map h)) ys @ p # rr # map (on_insts (map h)) zs)"

lemma call_cutD:
  assumes "call_cut cb f g blk pre ci post h n p rr"
  shows "wf_func f" "wf_func g" "renames_phis h" "b_insts blk = pre @ ci # post" "\<not> is_phi (i_kind ci)" "b_id p = b_id blk"
    "b_insts p = map h pre @ [mk_inst n (Br cb) VoidTy '''']" "b_insts rr = ci # map h post" "f_next f \<le> n" "f_next f \<le> b_id rr"
    "blk \<in> set (f_blocks f)" "p \<in> set (f_blocks g)" "rr \<in> set (f_blocks g)"
  using assms by (auto simp: call_cut_def)

lemma cut_layout:
  assumes "call_cut cb f g blk pre ci post h n p rr"
  shows "f_blocks g = concat (map (cut_into h p rr) (f_blocks f))"
proof -
  obtain ys zs where l: "f_blocks f = ys @ blk # zs" "f_blocks g = map (on_insts (map h)) ys @ p # rr # map (on_insts (map h)) zs"
    using assms by (auto simp: call_cut_def)
  have "b_id p \<notin> b_id ` set ys" "b_id p \<notin> b_id ` set zs"
    using layout_ids(1,2)[OF call_cutD(1)[OF assms] l(1)] call_cutD(6)[OF assms] by simp_all
  then show ?thesis unfolding cut_into_def l using call_cutD(6)[OF assms] by (simp add: concat_map_other)
qed

lemma split_cut_insts:
  assumes "call_cut cb f g blk pre ci post h n p rr"
  shows "\<exists>A B. set pre \<subseteq> set A \<and> func_insts f = A @ ci # B \<and> func_insts g = map h A @ mk_inst n (Br cb) VoidTy '''' # map h (ci # B)"
proof -
  obtain ys zs where l: "f_blocks f = ys @ blk # zs" "f_blocks g = map (on_insts (map h)) ys @ p # rr # map (on_insts (map h)) zs"
    using assms by (auto simp: call_cut_def)
  have conc: "concat (map (b_insts \<circ> on_insts (map h)) bs) = map h (concat (map b_insts bs))" for bs
    by (simp add: map_concat comp_def)
  have "h ci = ci" using renames_phis_simps(2)[OF call_cutD(3)[OF assms] call_cutD(5)[OF assms]] .
  then have "func_insts f = (concat (map b_insts ys) @ pre) @ ci # post @ concat (map b_insts zs)"
    "func_insts g = map h (concat (map b_insts ys) @ pre) @ mk_inst n (Br cb) VoidTy '''' # map h (ci # post @ concat (map b_insts zs))"
    using call_cutD(4,7,8)[OF assms] by (simp_all add: func_insts_def l conc)
  moreover have "set pre \<subseteq> set (concat (map b_insts ys) @ pre)" by simp
  ultimately show ?thesis by blast
qed

lemma cut_new_address:
  assumes "call_cut cb f g blk pre ci post h n p rr" and "b \<in> set (f_blocks f)"
  shows "b_id b \<noteq> b_id rr"
  using assms(2) call_cutD(1,10)[OF assms(1)] by (force simp: wf_func_def fresh_ids_def)

lemma cut_keeps_link:
  assumes cut: "call_cut cb f g blk pre ci post h n p rr" and link: "linked cb f c' P R" and P: "P \<noteq> b_id blk"
    and c': "c' \<noteq> i_id ci"
  shows "linked cb g c' P R"
proof -
  note D = call_cutD[OF cut] and hs = renames_phis_simps[OF call_cutD(3)[OF cut]]
  obtain xs pb rb ws body br ci' is' where l: "f_blocks f = xs @ pb # rb # ws" "b_id pb = P" "b_id rb = R"
    "b_insts pb = body @ [br]" "i_kind br = Br cb" "b_insts rb = ci' # is'" "i_id ci' = c'"
    using link by (auto simp: linked_def)
  let ?rb = "if b_id rb = b_id p then p else on_insts (map h) rb"
  have E: "cut_into h p rr rb = ?rb # (if b_id rb = b_id p then [rr] else [])" "b_id ?rb = R"
    using l(3) by (simp_all add: cut_into_def)
  have "cut_into h p rr pb = [on_insts (map h) pb]" using P by (simp add: cut_into_def l(2) D(6))
  then have lg: "f_blocks g = concat (map (cut_into h p rr) xs) @ on_insts (map h) pb # ?rb # ((if b_id rb = b_id p then [rr] else []) @ concat (map (cut_into h p rr) ws))"
    by (simp only: cut_layout[OF cut] l(1) E(1) map_append list.map concat_append concat.simps append_Cons append_Nil
      \<open>cut_into h p rr pb = [on_insts (map h) pb]\<close>)
  have "\<exists>ci is. b_insts ?rb = ci # is \<and> i_id ci = c'"
  proof (cases "b_id rb = b_id p")
    case True
    then have "rb = blk" using block_eq_by_id[OF D(1) _ D(11), of rb] D(6) l(1) by simp
    then obtain pre' where "pre = ci' # pre'" using l(6,7) D(4) c' by (cases pre) auto
    with True l(7) D(7) show ?thesis by (simp add: hs(1))
  qed (simp add: l(6,7) hs(1))
  then obtain ci2 is2 where hd2: "b_insts ?rb = ci2 # is2" "i_id ci2 = c'" by blast
  have "b_insts (on_insts (map h) pb) = map h body @ [br]" using hs(2)[of br] l(4,5) by simp
  from linkedI[OF lg _ E(2) this l(5) hd2] show ?thesis using l(2) by simp
qed

lemma cut_avoids:
  assumes cut: "call_cut cb f g blk pre ci post h n p rr" and "avoids f P (c # rest)" and "P \<noteq> b_id blk" "P \<noteq> b_id rr"
  shows "avoids g P rest"
  unfolding avoids_def
proof (intro ballI impI)
  fix b' assume b': "b' \<in> set (f_blocks g)" "b_id b' = P"
  then obtain b where b: "b \<in> set (f_blocks f)" "b' \<in> set (cut_into h p rr b)" by (auto simp: cut_layout[OF cut])
  then have "b' = on_insts (map h) b" using b'(2) assms(3,4) call_cutD(6)[OF cut] by (auto simp: cut_into_def split: if_splits)
  then show "i_id ` set (b_insts b') \<inter> set rest = {}"
    using b(1) b'(2) assms(2) renames_phis_simps(1)[OF call_cutD(3)[OF cut]] by (auto simp: avoids_def image_image)
qed

lemma cut_ready:
  assumes cut: "call_cut cb f g blk pre ci post h n p rr" and "site_ready f c'" and "c' \<noteq> i_id ci" "c' \<notin> i_id ` set pre"
  shows "site_ready g c'"
proof -
  note D = call_cutD[OF cut]
  obtain b where b: "b \<in> set (f_blocks f)" "ready_in c' (b_insts b)" using assms(2) by (auto simp: site_ready_def)
  show ?thesis
  proof (cases "b_id b = b_id p")
    case True
    then have "b = blk" using block_eq_by_id[OF D(1) b(1) D(11)] D(6) by simp
    then have "ready_in c' ((pre @ [ci]) @ post)" using b(2) by (simp add: D(4))
    then have "ready_in c' post" using ready_in_append[of c' "pre @ [ci]" post] assms(3,4) by auto
    then have "ready_in c' (b_insts rr)"
      using ready_in_map[OF D(3), of c' post] assms(3) by (cases post) (simp_all add: ready_in_Cons D(8))
    then show ?thesis unfolding site_ready_def using D(13) by blast
  next
    case False
    then have "on_insts (map h) b \<in> set (f_blocks g)" using b(1) by (force simp: cut_layout[OF cut] cut_into_def)
    moreover have "ready_in c' (b_insts (on_insts (map h) b))" using b(2) ready_in_map[OF D(3)] by simp
    ultimately show ?thesis unfolding site_ready_def by blast
  qed
qed

lemma cut_call_block:
  assumes cut: "call_cut cb f g blk pre ci post h n p rr" and cb: "find_block f cb = Some \<lparr>b_id = cb, b_name = nm, b_insts = []\<rparr>"
  shows "find_block g cb = Some \<lparr>b_id = cb, b_name = nm, b_insts = []\<rparr>"
proof -
  note D = call_cutD[OF cut]
  have mem: "\<lparr>b_id = cb, b_name = nm, b_insts = []\<rparr> \<in> set (f_blocks f)" using find_block_Some[OF cb] by simp
  have "cb \<noteq> b_id p"
  proof
    assume "cb = b_id p"
    then have "blk = \<lparr>b_id = cb, b_name = nm, b_insts = []\<rparr>" using find_block_member[OF D(1,11)] cb D(6) by simp
    then have "b_insts blk = []" by (metis ir_block.select_convs(3))
    then show False by (simp add: D(4))
  qed
  with mem have "\<lparr>b_id = cb, b_name = nm, b_insts = []\<rparr> \<in> set (f_blocks g)"
    by (force simp: cut_layout[OF cut] cut_into_def on_insts_def)
  from find_block_member[OF D(2) this] show ?thesis by simp
qed

text \<open>The calls that are left stand behind the call.\<close>

lemma cut_rest:
  assumes cut: "call_cut cb f g blk pre ci post h n p rr" and "subseq (i_id ci # rest) (map i_id (func_insts f))"
  shows "subseq rest (map i_id (func_insts g))" and "set rest \<inter> i_id ` set pre = {}" and "x \<in> set rest \<Longrightarrow> x < f_next f"
proof -
  note D = call_cutD[OF cut]
  obtain A B where AB: "set pre \<subseteq> set A" "func_insts f = A @ ci # B" "func_insts g = map h A @ mk_inst n (Br cb) VoidTy '''' # map h (ci # B)"
    using split_cut_insts[OF cut] by blast
  have mid: "distinct (X @ c # Y) \<Longrightarrow> c \<notin> set X \<and> set X \<inter> set Y = {}" for X Y :: "nat list" and c by auto
  have "distinct (map i_id A @ i_id ci # map i_id B)" using wf_func_distinct[OF D(1)] unfolding AB by simp
  from mid[OF this] have ids: "i_id ci \<notin> set (map i_id A)" "set (map i_id A) \<inter> set (map i_id B) = {}" by blast+
  have sub: "subseq rest (map i_id B)"
    using assms(2) ids(1) by (intro subseq_after[of "i_id ci" rest "map i_id A"]) (simp_all add: AB)
  have restB: "x \<in> set (map i_id B)" if "x \<in> set rest" for x using list_emb_set[OF sub that] by blast
  have hid: "map i_id (map h is) = map i_id is" for "is" by (simp add: renames_phis_simps(1)[OF D(3)])
  have "map i_id (func_insts g) = (map i_id A @ [n, i_id ci]) @ map i_id B"
    unfolding AB(3) map_append list.map hid by (simp add: renames_phis_simps(1)[OF D(3)])
  then show "subseq rest (map i_id (func_insts g))" using sub by (simp add: list_emb_append2 list_emb_Cons)
  have "i_id ` set pre \<subseteq> set (map i_id A)" using AB(1) by auto
  then show "set rest \<inter> i_id ` set pre = {}" using ids(2) restB by blast
  show "x < f_next f" if "x \<in> set rest"
    using restB[OF that] D(1) unfolding wf_func_def fresh_ids_def AB(2) by simp
qed

lemma split_step_inv:
  assumes split: "split_ok split" and inv: "split_inv cb f ls (c # rest)"
  shows "\<exists>g P R h n A B. split_call_site split cb c (f, links_orig ls, links_ret ls) =
      Inr (g, links_orig (ls @ [(c, P, R)]), links_ret (ls @ [(c, P, R)]))
    \<and> split_inv cb g (ls @ [(c, P, R)]) rest \<and> renames_phis h \<and> f_id g = f_id f \<and> f_next f \<le> f_next g
    \<and> f_next f \<le> R \<and> f_next f \<le> n \<and> func_insts f = A @ B \<and> func_insts g = map h A @ mk_inst n (Br cb) VoidTy '''' # map h B
    \<and> map b_id (take 1 (f_blocks g)) = map b_id (take 1 (f_blocks f))"
proof -
  have wf: "wf_func f" and sub: "subseq (c # rest) (map i_id (func_insts f))" and ready: "\<forall>c \<in> set (c # rest). site_ready f c"
    and links: "\<forall>(c', P, R) \<in> set ls. linked cb f c' P R \<and> avoids f P (c # rest)"
    and dP: "distinct (map (\<lambda>(c, P, R). P) ls)" and dc: "distinct (map fst ls @ c # rest)"
    and full: "\<forall>b \<in> set (f_blocks f). b_id b \<noteq> cb \<longrightarrow> b_insts b \<noteq> []"
    using inv by (auto simp: split_inv_def)
  obtain nmc where cb: "find_block f cb = Some \<lparr>b_id = cb, b_name = nmc, b_insts = []\<rparr>" using inv by (auto simp: split_inv_def)
  obtain blk where blk: "blk \<in> set (f_blocks f)" "ready_in c (b_insts blk)" using ready by (auto simp: site_ready_def)
  obtain ys zs where layout: "f_blocks f = ys @ blk # zs" using split_list[OF blk(1)] by blast
  obtain pre ci j post where insts: "b_insts blk = pre @ ci # j # post" "i_id ci = c" "\<not> is_phi (i_kind ci)" "\<not> is_phi (i_kind j)"
    using ready_in_split[OF blk(2)] by blast
  from split_call_site_step[OF split wf layout insts(1,3,4), of cb "links_orig ls" "links_ret ls"]
  obtain g r h n nm where step: "split_call_site split cb c (f, links_orig ls, links_ret ls) =
      Inr (g, AList.update c (b_id blk) (links_orig ls), AList.update (b_id blk) r (links_ret ls))"
    and g: "wf_func g" "renames_phis h" "f_id g = f_id f" "f_next f \<le> r" "f_next f \<le> n" "f_next f \<le> f_next g"
    and lay: "f_blocks g = map (on_insts (map h)) ys @ blk\<lparr>b_insts := map h pre @ [mk_inst n (Br cb) VoidTy '''']\<rparr>
        # \<lparr>b_id = r, b_name = nm, b_insts = ci # map h (j # post)\<rparr> # map (on_insts (map h)) zs"
    unfolding insts(2) by blast
  let ?P = "b_id blk" and ?p = "blk\<lparr>b_insts := map h pre @ [mk_inst n (Br cb) VoidTy '''']\<rparr>"
  let ?rr = "\<lparr>b_id = r, b_name = nm, b_insts = ci # map h (j # post)\<rparr>"
  have cut: "call_cut cb f g blk pre ci (j # post) h n ?p ?rr"
    unfolding call_cut_def using wf g insts layout lay by (intro conjI exI[of _ ys] exI[of _ zs]) simp_all
  have "subseq (i_id ci # rest) (map i_id (func_insts f))" using sub by (simp only: insts(2))
  note left = cut_rest[OF cut this]
  have P_used: "P \<noteq> ?P" "P \<noteq> b_id ?rr" if "(c', P, R) \<in> set ls" for c' P R
  proof -
    have "avoids f P (c # rest)" and "linked cb f c' P R" using links that by auto
    then obtain pb where "pb \<in> set (f_blocks f)" "b_id pb = P" by (fastforce simp: linked_def)
    then show "P \<noteq> b_id ?rr" using cut_new_address[OF cut] by auto
    show "P \<noteq> ?P" using \<open>avoids f P (c # rest)\<close> blk(1) insts(1,2) by (auto simp: avoids_def)
  qed
  have old: "linked cb g c' P R \<and> avoids g P rest" if in_ls: "(c', P, R) \<in> set ls" for c' P R
  proof -
    have l: "linked cb f c' P R" "avoids f P (c # rest)" "c' \<noteq> i_id ci" using links in_ls dc insts(2) by force+
    show ?thesis using cut_keeps_link[OF cut l(1) P_used(1)[OF in_ls] l(3)] cut_avoids[OF cut l(2) P_used[OF in_ls]] by blast
  qed
  have new: "linked cb g c ?P r" by (rule linkedI[OF lay]) (simp add: insts(2))+
  have "n \<notin> set rest" using left(3) g(5) by force
  then have "i_id ` set (b_insts b') \<inter> set rest = {}" if "b' \<in> set (f_blocks g)" "b_id b' = ?P" for b'
    using block_eq_by_id[OF g(1) that(1) call_cutD(12)[OF cut]] that(2) left(2) renames_phis_simps(1)[OF g(2)]
    by (auto simp: image_image)
  then have avn: "avoids g ?P rest" by (simp add: avoids_def)
  have ready': "site_ready g c'" if "c' \<in> set rest" for c'
    using cut_ready[OF cut] ready that dc left(2) insts(2) by auto
  have ne: "\<forall>b \<in> set (f_blocks g). b_id b \<noteq> cb \<longrightarrow> b_insts b \<noteq> []" using full unfolding lay layout by auto
  have upd: "AList.update c ?P (links_orig ls) = links_orig (ls @ [(c, ?P, r)])"
    "AList.update ?P r (links_ret ls) = links_ret (ls @ [(c, ?P, r)])"
    using dc P_used(1) by (subst update_new, force simp: links_orig_def links_ret_def, simp add: links_orig_def links_ret_def)+
  have "distinct (map (\<lambda>(c, P, R). P) (ls @ [(c, ?P, r)]))" using dP P_used(1) by force
  moreover have "distinct (map fst (ls @ [(c, ?P, r)]) @ rest)" using dc by auto
  ultimately have "split_inv cb g (ls @ [(c, ?P, r)]) rest"
    unfolding split_inv_def using g(1) left(1) ready' old new avn cut_call_block[OF cut cb] ne by auto
  moreover have "map b_id (take 1 (f_blocks g)) = map b_id (take 1 (f_blocks f))"
    by (cases ys) (simp_all add: lay layout)
  moreover obtain A B where "func_insts f = A @ ci # B" "func_insts g = map h A @ mk_inst n (Br cb) VoidTy '''' # map h (ci # B)"
    using split_cut_insts[OF cut] by blast
  ultimately show ?thesis
    using step g unfolding upd
    by (intro exI[of _ g] exI[of _ ?P] exI[of _ r] exI[of _ h] exI[of _ n] exI[of _ A] exI[of _ "ci # B"]) simp
qed

text \<open>The loop: all old instructions stay in their order, and one branch is added for each call.\<close>

lemma split_loop:
  assumes "split_ok split" and "split_inv cb f ls cs" and "n0 \<le> f_next f"
  shows "\<exists>g new H. rfold (split_call_site split cb) cs (f, links_orig ls, links_ret ls) =
      Inr (g, links_orig (ls @ new), links_ret (ls @ new))
    \<and> split_inv cb g (ls @ new) [] \<and> map fst new = cs \<and> renames_phis H \<and> f_id g = f_id f \<and> f_next f \<le> f_next g
    \<and> (\<forall>(c, P, R) \<in> set new. n0 \<le> R)
    \<and> filter (\<lambda>i. i_id i < n0) (func_insts g) = map H (filter (\<lambda>i. i_id i < n0) (func_insts f))
    \<and> (\<forall>i \<in> set (func_insts g). i \<in> H ` set (func_insts f) \<or> i_kind i = Br cb)
    \<and> map b_id (take 1 (f_blocks g)) = map b_id (take 1 (f_blocks f))"
  using assms(2,3)
proof (induction cs arbitrary: f ls)
  case Nil
  then show ?case
    by (intro exI[of _ f] exI[of _ "[]"] exI[of _ "\<lambda>i. i"]) (simp add: renames_phis_def)
next
  case (Cons c cs)
  from split_step_inv[OF assms(1) Cons.prems(1)] obtain g P R h n A B where s:
    "split_call_site split cb c (f, links_orig ls, links_ret ls) =
      Inr (g, links_orig (ls @ [(c, P, R)]), links_ret (ls @ [(c, P, R)]))"
    "split_inv cb g (ls @ [(c, P, R)]) cs" "renames_phis h" "f_id g = f_id f" "f_next f \<le> f_next g"
    "f_next f \<le> R" "f_next f \<le> n" "func_insts f = A @ B" "func_insts g = map h A @ mk_inst n (Br cb) VoidTy '''' # map h B"
    "map b_id (take 1 (f_blocks g)) = map b_id (take 1 (f_blocks f))"
    by blast
  have "n0 \<le> f_next g" using Cons.prems(2) s(5) by simp
  from Cons.IH[OF s(2) this] obtain g' new H where r:
    "rfold (split_call_site split cb) cs (g, links_orig (ls @ [(c, P, R)]), links_ret (ls @ [(c, P, R)])) =
      Inr (g', links_orig ((ls @ [(c, P, R)]) @ new), links_ret ((ls @ [(c, P, R)]) @ new))"
    "split_inv cb g' ((ls @ [(c, P, R)]) @ new) []" "map fst new = cs" "renames_phis H" "f_id g' = f_id g" "f_next g \<le> f_next g'"
    "\<forall>(c, P, R) \<in> set new. n0 \<le> R"
    "filter (\<lambda>i. i_id i < n0) (func_insts g') = map H (filter (\<lambda>i. i_id i < n0) (func_insts g))"
    "\<forall>i \<in> set (func_insts g'). i \<in> H ` set (func_insts g) \<or> i_kind i = Br cb"
    "map b_id (take 1 (f_blocks g')) = map b_id (take 1 (f_blocks g))"
    by blast
  have flt: "filter (\<lambda>i. i_id i < n0) (map h is) = map h (filter (\<lambda>i. i_id i < n0) is)" for "is"
    using renames_phis_simps(1)[OF s(3)] by (simp add: filter_map comp_def)
  have "filter (\<lambda>i. i_id i < n0) (func_insts g) = map h (filter (\<lambda>i. i_id i < n0) (func_insts f))"
    using s(7) Cons.prems(2) by (simp add: s(8,9) flt)
  moreover have "i \<in> (H \<circ> h) ` set (func_insts f) \<or> i_kind i = Br cb" if "i \<in> set (func_insts g')" for i
  proof -
    from r(9) that consider "i_kind i = Br cb" | j where "j \<in> set (func_insts g)" "i = H j" by blast
    then show ?thesis
    proof cases
      case (2 j)
      then have "j = mk_inst n (Br cb) VoidTy '''' \<or> j \<in> h ` set (func_insts f)" by (auto simp: s(8,9))
      moreover have "H (mk_inst n (Br cb) VoidTy '''') = mk_inst n (Br cb) VoidTy ''''"
        by (rule renames_phis_simps(2)[OF r(4)]) simp
      ultimately show ?thesis using 2(2) by (auto simp: image_image)
    qed simp
  qed
  ultimately show ?case
    using s r Cons.prems(2) renames_phis_comp[OF r(4) s(3)]
    by (intro exI[of _ g'] exI[of _ "(c, P, R) # new"] exI[of _ "H \<circ> h"]) (simp add: comp_def)
qed

section \<open>Blocks of valid IR\<close>

text \<open>A block ends in a terminator, and no \<open>phi\<close> stands behind a call.\<close>

definition settled :: "ir_inst list \<Rightarrow> bool" where
  "settled is \<longleftrightarrow> sorted_wrt (\<lambda>a b. is_call (i_kind a) \<longrightarrow> \<not> is_phi (i_kind b)) is \<and> is \<noteq> [] \<and> is_terminator (i_kind (last is))"

definition settled_blocks :: "nat set \<Rightarrow> ir_func \<Rightarrow> bool" where
  "settled_blocks X f \<longleftrightarrow> (\<forall>b \<in> set (f_blocks f). b_id b \<notin> X \<longrightarrow> settled (b_insts b))"

lemma terminator_no_call: "is_terminator k \<Longrightarrow> \<not> is_call k"
  by (cases k) simp_all

lemma settled_map:
  assumes "settled is" and "\<And>i. is_call (i_kind (h i)) = is_call (i_kind i)" and "\<And>i. is_phi (i_kind (h i)) = is_phi (i_kind i)"
    and "\<And>i. is_terminator (i_kind (h i)) = is_terminator (i_kind i)"
  shows "settled (map h is)"
  using assms(1) by (simp add: settled_def sorted_wrt_map last_map assms(2-4))

lemma renames_phis_kinds:
  assumes "renames_phis h"
  shows "is_call (i_kind (h i)) = is_call (i_kind i)" and "is_terminator (i_kind (h i)) = is_terminator (i_kind i)"
proof -
  have "is_phi k \<Longrightarrow> \<not> is_call k \<and> \<not> is_terminator k" for k :: "ir_value ikind" by (cases k) simp_all
  then show "is_call (i_kind (h i)) = is_call (i_kind i)" "is_terminator (i_kind (h i)) = is_terminator (i_kind i)"
    using renames_phis_simps(2,3)[OF assms, of i] by (cases "is_phi (i_kind i)"; fastforce)+
qed

lemma settled_renamed: "renames_phis h \<Longrightarrow> settled is \<Longrightarrow> settled (map h is)"
  by (rule settled_map) (simp_all add: renames_phis_kinds renames_phis_simps)

lemma settled_insert:
  assumes "settled is" and "\<not> is_call (i_kind n)" and "\<not> is_phi (i_kind n)"
  shows "settled (ins_before i_id x n is)"
proof -
  have "set (ins_before i_id x n js) \<subseteq> insert n (set js)" for js by (induction js) auto
  then have "sorted_wrt (\<lambda>a b. is_call (i_kind a) \<longrightarrow> \<not> is_phi (i_kind b)) (ins_before i_id x n js)"
    if "sorted_wrt (\<lambda>a b. is_call (i_kind a) \<longrightarrow> \<not> is_phi (i_kind b)) js" for js
    using that assms(2,3) by (induction js) fastforce+
  then show ?thesis using assms(1) last_ins_before[of "is" i_id x n] by (simp add: settled_def)
qed

text \<open>A call in such a block can be split at.\<close>

lemma settled_ready:
  assumes "settled is" and "ci \<in> set is" and "is_call (i_kind ci)" and "distinct (map i_id is)"
  shows "ready_in (i_id ci) is"
proof -
  obtain pre post where s: "is = pre @ ci # post" using split_list[OF assms(2)] by blast
  have k: "\<not> is_phi (i_kind ci)" "\<not> is_terminator (i_kind ci)" using assms(3) by (cases "i_kind ci"; simp)+
  have "post \<noteq> []" using assms(1) k(2) by (auto simp: settled_def s)
  then obtain j js where post: "post = j # js" by (cases post) auto
  have "\<not> is_phi (i_kind j)" using assms(1,3) by (simp add: settled_def s post sorted_wrt_append)
  moreover have "i_id ci \<notin> i_id ` set pre" using assms(4) by (auto simp: s)
  ultimately show ?thesis using k(1) by (simp add: s post ready_in_append)
qed

lemma split_step_settled:
  assumes split: "split_ok split" and inv: "split_inv cb f ls (c # rest)" and set: "settled_blocks {cb} f"
    and run: "split_call_site split cb c (f, links_orig ls, links_ret ls) = Inr (g, orig, ret)"
  shows "settled_blocks {cb} g"
proof -
  have wf: "wf_func f" and "site_ready f c" using inv by (simp_all add: split_inv_def)
  then obtain blk where blk: "blk \<in> set (f_blocks f)" "ready_in c (b_insts blk)" by (auto simp: site_ready_def)
  obtain ys zs where layout: "f_blocks f = ys @ blk # zs" using split_list[OF blk(1)] by blast
  obtain pre ci j post where insts: "b_insts blk = pre @ ci # j # post" "i_id ci = c" "\<not> is_phi (i_kind ci)" "\<not> is_phi (i_kind j)"
    using ready_in_split[OF blk(2)] by blast
  from split_call_site_step[OF split wf layout insts(1,3,4), of cb "links_orig ls" "links_ret ls"] run
  obtain r h n nm where h: "renames_phis h" and lay: "f_blocks g = map (on_insts (map h)) ys
        @ blk\<lparr>b_insts := map h pre @ [mk_inst n (Br cb) VoidTy '''']\<rparr>
        # \<lparr>b_id = r, b_name = nm, b_insts = ci # map h (j # post)\<rparr> # map (on_insts (map h)) zs"
    unfolding insts(2) by auto
  obtain nm where cb: "find_block f cb = Some \<lparr>b_id = cb, b_name = nm, b_insts = []\<rparr>" using inv by (auto simp: split_inv_def)
  have "b_id blk \<noteq> cb"
  proof
    assume "b_id blk = cb"
    then have "blk = \<lparr>b_id = cb, b_name = nm, b_insts = []\<rparr>" using find_block_member[OF wf blk(1)] cb by simp
    then show False using insts(1) by (metis append_is_Nil_conv ir_block.select_convs(3) list.distinct(1))
  qed
  then have s: "settled (pre @ ci # j # post)" using set blk(1) insts(1) unfolding settled_blocks_def by force
  have "ci = h ci" using renames_phis_simps(2)[OF h insts(3)] by simp
  then have "settled (ci # map h (j # post))" using settled_renamed[OF h, of "ci # j # post"] s
    by (simp add: settled_def sorted_wrt_append)
  moreover have "settled (map h pre @ [mk_inst n (Br cb) VoidTy ''''])"
    using s renames_phis_kinds[OF h] renames_phis_simps(3)[OF h] by (simp add: settled_def sorted_wrt_append sorted_wrt_map)
  moreover have "settled (b_insts (on_insts (map h) b))" if "b \<in> set ys \<union> set zs" "b_id b \<noteq> cb" for b
    using settled_renamed[OF h] set that unfolding settled_blocks_def by (auto simp: layout)
  ultimately show ?thesis unfolding settled_blocks_def lay by auto
qed

lemma split_loop_settled:
  assumes "split_ok split"
  shows "split_inv cb f ls cs \<Longrightarrow> settled_blocks {cb} f \<Longrightarrow>
    rfold (split_call_site split cb) cs (f, links_orig ls, links_ret ls) = Inr (g, orig, ret) \<Longrightarrow> settled_blocks {cb} g"
proof (induction cs arbitrary: f ls)
  case (Cons c cs)
  from split_step_inv[OF assms Cons.prems(1)] obtain f1 P R where s:
    "split_call_site split cb c (f, links_orig ls, links_ret ls) = Inr (f1, links_orig (ls @ [(c, P, R)]), links_ret (ls @ [(c, P, R)]))"
    "split_inv cb f1 (ls @ [(c, P, R)]) cs"
    by blast
  show ?case
    by (rule Cons.IH[OF s(2) split_step_settled[OF assms Cons.prems(1,2) s(1)]]) (use Cons.prems(3) s(1) in simp)
qed simp

end
