(* ===== verification/Fuse_Combine.thy ===== *)
theory Fuse_Combine
  imports Fuse_Split
begin

text \<open>
  What \<open>combine_calls\<close> of \<open>fuse-functions.cpp\<close> builds: the call block dispatches on the number of the block
  it was entered from, and all results of the calls become the result of the one call.
\<close>

section \<open>The call block as a list of instructions\<close>

text \<open>The function \<open>f\<close> with the call block, empty in \<open>f\<close>, filled with \<open>L\<close>.\<close>

definition with_block :: "nat \<Rightarrow> ir_inst list \<Rightarrow> nat \<Rightarrow> ir_func \<Rightarrow> ir_func" where
  "with_block cb L n f = f\<lparr>f_blocks := upd_at b_id cb (on_insts (\<lambda>_. L)) (f_blocks f), f_next := n\<rparr>"

lemma with_block_frame [simp]: "f_next (with_block cb L n f) = n" "f_id (with_block cb L n f) = f_id f"
  "(with_block cb L n f)\<lparr>f_next := n'\<rparr> = with_block cb L n' f"
  by (simp_all add: with_block_def)

lemma with_block_map: "map_blocks (on_insts e) (with_block cb L n f) = with_block cb (e L) n (map_blocks (on_insts e) f)"
  by (simp add: with_block_def map_blocks_def upd_at_def on_insts_def comp_def)

lemma with_block_append: "append_inst cb i (with_block cb L n f) = with_block cb (L @ [i]) n f"
  by (simp add: with_block_def append_inst_def upd_at_def on_insts_def comp_def)

lemma with_block_new_at_end: "new_at_end cb k t (with_block cb L n f) = with_block cb (L @ [mk_inst n k t '''']) (Suc n) f"
  by (simp add: new_at_end_def with_block_append)

lemma with_block_upd_inst: "upd_inst x g (with_block cb L n f) = with_block cb (upd_at i_id x g L) n (upd_inst x g f)"
  by (simp add: upd_inst_def with_block_map)

lemma with_block_insert: "insert_before x i (with_block cb L n f) = with_block cb (ins_before i_id x i L) n (insert_before x i f)"
  by (simp add: insert_before_def with_block_map)

lemma with_block_insert_after: "insert_after x i (with_block cb L n f) = with_block cb (ins_after i_id x i L) n (insert_after x i f)"
  by (simp add: insert_after_def with_block_map)

lemma with_block_erase: "erase_inst x (with_block cb L n f) = with_block cb (del_at i_id x L) n (erase_inst x f)"
  by (simp add: erase_inst_def with_block_map)

lemma edits_away:
  assumes "x \<notin> i_id ` set (func_insts f)"
  shows "upd_inst x g f = f" "insert_before x i f = f" "insert_after x i f = f" "erase_inst x f = f"
proof -
  have "map_blocks (on_insts e) f = f" if "\<And>is. x \<notin> i_id ` set is \<Longrightarrow> e is = is" for e
  proof -
    have "on_insts e b = b" if "b \<in> set (f_blocks f)" for b
    proof -
      have "x \<notin> i_id ` set (b_insts b)" using assms that by (auto simp: func_insts_def)
      from \<open>\<And>is. x \<notin> i_id ` set is \<Longrightarrow> e is = is\<close>[OF this] show ?thesis by (simp add: on_insts_def)
    qed
    then show ?thesis unfolding map_blocks_def by (simp add: map_idI)
  qed
  then show "upd_inst x g f = f" "insert_before x i f = f" "insert_after x i f = f" "erase_inst x f = f"
    unfolding upd_inst_def insert_before_def insert_after_def erase_inst_def
    by (simp_all add: upd_at_notin ins_before_notin ins_after_notin del_at_notin)
qed

definition cbstate :: "nat \<Rightarrow> ir_func \<Rightarrow> ir_inst list \<Rightarrow> nat \<Rightarrow> bool" where
  "cbstate cb F L n \<longleftrightarrow>
     (\<exists>xs ys nm. f_blocks F = xs @ \<lparr>b_id = cb, b_name = nm, b_insts = []\<rparr> # ys)
     \<and> fresh_ids (map i_id (func_insts F) @ map i_id L) n \<and> fresh_ids (map b_id (f_blocks F)) n"

lemma cbstate_layout:
  assumes "cbstate cb F L n"
  shows "\<exists>xs ys nm. f_blocks F = xs @ \<lparr>b_id = cb, b_name = nm, b_insts = []\<rparr> # ys
    \<and> f_blocks (with_block cb L n F) = xs @ \<lparr>b_id = cb, b_name = nm, b_insts = L\<rparr> # ys"
proof -
  obtain xs ys nm where l: "f_blocks F = xs @ \<lparr>b_id = cb, b_name = nm, b_insts = []\<rparr> # ys"
    and "distinct (map b_id (f_blocks F))"
    using assms by (auto simp: cbstate_def fresh_ids_def)
  then have "cb \<notin> b_id ` set xs" "cb \<notin> b_id ` set ys" by auto
  with l show ?thesis by (auto simp: with_block_def upd_at_notin on_insts_def)
qed

lemma cbstate_wf:
  assumes "cbstate cb F L n"
  shows "wf_func (with_block cb L n F)"
    and "set (func_insts (with_block cb L n F)) = set (func_insts F) \<union> set L"
    and "\<exists>nm. find_block (with_block cb L n F) cb = Some \<lparr>b_id = cb, b_name = nm, b_insts = L\<rparr>"
proof -
  obtain xs ys nm where l: "f_blocks F = xs @ \<lparr>b_id = cb, b_name = nm, b_insts = []\<rparr> # ys"
    "f_blocks (with_block cb L n F) = xs @ \<lparr>b_id = cb, b_name = nm, b_insts = L\<rparr> # ys"
    using cbstate_layout[OF assms] by blast
  let ?X = "concat (map b_insts xs)" and ?Y = "concat (map b_insts ys)"
  have insts: "func_insts F = ?X @ ?Y" "func_insts (with_block cb L n F) = ?X @ L @ ?Y"
    by (simp_all add: func_insts_def l)
  have perm: "fresh_ids ((X @ Y) @ M) n \<Longrightarrow> fresh_ids (X @ M @ Y) n" for X Y M by (auto simp: fresh_ids_def)
  have "fresh_ids ((map i_id ?X @ map i_id ?Y) @ map i_id L) n" using assms by (simp add: cbstate_def insts)
  from perm[OF this] have "fresh_ids (map i_id (func_insts (with_block cb L n F))) n" by (simp add: insts)
  moreover have "map b_id (f_blocks (with_block cb L n F)) = map b_id (f_blocks F)" by (simp add: l)
  ultimately show wf: "wf_func (with_block cb L n F)" using assms by (simp add: wf_func_def cbstate_def)
  show "set (func_insts (with_block cb L n F)) = set (func_insts F) \<union> set L" by (auto simp: insts)
  have "\<lparr>b_id = cb, b_name = nm, b_insts = L\<rparr> \<in> set (f_blocks (with_block cb L n F))" by (simp add: l)
  from find_block_member[OF wf this]
  show "\<exists>nm. find_block (with_block cb L n F) cb = Some \<lparr>b_id = cb, b_name = nm, b_insts = L\<rparr>" by auto
qed

lemma cbstate_find:
  assumes "cbstate cb F L n"
  shows "find_inst F x = Some i \<Longrightarrow> find_inst (with_block cb L n F) x = Some i"
    and "i \<in> set L \<Longrightarrow> find_inst (with_block cb L n F) (i_id i) = Some i"
  using find_inst_member[OF cbstate_wf(1)[OF assms]] cbstate_wf(2)[OF assms] find_inst_Some[of F x i] by auto

lemma cbstate_fresh:
  assumes "cbstate cb F L n"
  shows "n \<notin> i_id ` set (func_insts F)" "n \<notin> i_id ` set L"
    and "x \<in> i_id ` set L \<Longrightarrow> x \<notin> i_id ` set (func_insts F)"
  using assms by (auto simp: cbstate_def fresh_ids_def)

lemma cbstate_ids:
  assumes "cbstate cb F L n" and "mset (map i_id L') = mset (map i_id L)"
  shows "cbstate cb F L' n"
proof -
  have "set (map i_id L') = set (map i_id L)" using assms(2) mset_eq_setD by blast
  moreover have "distinct (map i_id L') = distinct (map i_id L)" using assms(2) mset_eq_imp_distinct_iff by blast
  ultimately show ?thesis using assms(1) by (simp add: cbstate_def fresh_ids_def)
qed

lemma cbstate_append:
  assumes "cbstate cb F L n" and "mset (map i_id L') = add_mset n (mset (map i_id L))"
  shows "cbstate cb F L' (Suc n)"
proof -
  have "mset (map i_id L') = mset (n # map i_id L)" using assms(2) by simp
  then have "set (map i_id L') = insert n (set (map i_id L))" "distinct (map i_id L') = distinct (n # map i_id L)"
    using mset_eq_setD mset_eq_imp_distinct_iff by fastforce+
  then show ?thesis using assms(1) by (auto simp: cbstate_def fresh_ids_def less_Suc_eq)
qed

lemma tag_inst_last:
  assumes "cbstate cb F L n" and "i_id i = n"
  shows "tag_inst n name v (with_block cb (L @ [i]) m F) = with_block cb (L @ [fst (attach_metadata i name v)]) m F"
  using cbstate_fresh[OF assms(1)] assms(2)
  by (simp add: tag_inst_def with_block_upd_inst edits_away upd_at_notin)

lemma attach_frame [simp]: "i_id (fst (attach_metadata i name v)) = i_id i"
  "i_kind (fst (attach_metadata i name v)) = i_kind i"
  by (simp_all add: attach_metadata_def Let_def)

section \<open>The arguments\<close>

definition arg_node :: "string \<Rightarrow> nat \<Rightarrow> nat \<Rightarrow> ir_type \<Rightarrow> (ir_value \<times> nat) list \<Rightarrow> ir_inst" where
  "arg_node name x k ty ins =
     fst (attach_metadata (fst (attach_metadata (mk_inst x (PHI ins) ty '''') FuseFunctionName name))
       FuseFunctionArgIdx (argidx_bytes (of_nat k)))"

lemma arg_node_simps [simp]: "i_id (arg_node name x k ty ins) = x" "i_kind (arg_node name x k ty ins) = PHI ins"
  by (simp_all add: arg_node_def)

definition arg_values :: "(nat \<Rightarrow> ir_value list) \<Rightarrow> link list \<Rightarrow> nat \<Rightarrow> (ir_value \<times> nat) list" where
  "arg_values argv ls k = map (\<lambda>(c, P, R). (argv c ! k, P)) ls"

lemma links_orig_of: "distinct (map fst ls) \<Longrightarrow> (c, P, R) \<in> set ls \<Longrightarrow> map_of (links_orig ls) c = Some P"
  unfolding links_orig_def by (rule map_of_is_SomeI) (force simp: comp_def split_def)+

lemma arg_incoming_ok:
  assumes "\<And>c. c \<in> fst ` set ls \<Longrightarrow> \<exists>ci. find_inst f c = Some ci \<and> i_kind ci = Call ty (argv c) cv \<and> k < length (argv c)"
    and "distinct (map fst ls)"
  shows "arg_incoming f (links_orig ls) (map fst ls) k = Inr (arg_values argv ls k)"
proof -
  have "arg_incoming f (links_orig ls) (map fst ls) k = Inr (map (\<lambda>c. (argv c ! k, the (map_of (links_orig ls) c))) (map fst ls))"
    unfolding arg_incoming_def
  proof (rule rlist_pure)
    fix c assume "c \<in> set (map fst ls)"
    then obtain P R where "(c, P, R) \<in> set ls" by auto
    then have "map_of (links_orig ls) c = Some P" by (rule links_orig_of[OF assms(2)])
    moreover obtain ci where "find_inst f c = Some ci" "i_kind ci = Call ty (argv c) cv" "k < length (argv c)"
      using assms(1)[of c] \<open>c \<in> set (map fst ls)\<close> by auto
    ultimately show "rbind (get_inst f c) (\<lambda>ci. rbind (get_arg_operand (i_kind ci) k)
        (\<lambda>v. rmap (Pair v) (deref (map_of (links_orig ls) c)))) = Inr (argv c ! k, the (map_of (links_orig ls) c))"
      by (simp add: get_inst_def get_arg_operand_def deref_def)
  qed
  also have "map (\<lambda>c. (argv c ! k, the (map_of (links_orig ls) c))) (map fst ls) = arg_values argv ls k"
    using links_orig_of[OF assms(2)] by (auto simp: arg_values_def)
  finally show ?thesis .
qed

lemma arg_loop:
  assumes "cbstate cb F L n"
    and sites: "\<And>c. c \<in> fst ` set ls \<Longrightarrow> \<exists>ci. find_inst F c = Some ci \<and> i_kind ci = Call ty (argv c) cv
       \<and> k + length tys \<le> length (argv c)"
    and dist: "distinct (map fst ls)"
  shows "\<exists>L'. rfold (add_arg_node cb name (links_orig ls) (map fst ls)) (enumerate k tys) (with_block cb L n F, args) =
      Inr (with_block cb (L @ L') (n + length tys) F, args @ map InstVal [n..<n + length tys])
    \<and> cbstate cb F (L @ L') (n + length tys)
    \<and> L' = map (\<lambda>j. arg_node name (n + j) (k + j) (tys ! j) (arg_values argv ls (k + j))) [0..<length tys]"
  using assms(1) sites
proof (induction tys arbitrary: k n L args)
  case (Cons t tys)
  let ?f = "with_block cb L n F"
  let ?node = "arg_node name n k t (arg_values argv ls k)"
  have "arg_incoming ?f (links_orig ls) (map fst ls) k = Inr (arg_values argv ls k)"
  proof (rule arg_incoming_ok[OF _ dist])
    fix c assume "c \<in> fst ` set ls"
    from Cons.prems(2)[OF this] show "\<exists>ci. find_inst ?f c = Some ci \<and> i_kind ci = Call ty (argv c) cv \<and> k < length (argv c)"
      using cbstate_find(1)[OF Cons.prems(1)] by fastforce
  qed
  then have step: "add_arg_node cb name (links_orig ls) (map fst ls) (k, t) (?f, args) =
      Inr (with_block cb (L @ [?node]) (Suc n) F, args @ [InstVal n])"
    using tag_inst_last[OF Cons.prems(1)]
    by (simp add: add_arg_node_def Let_def with_block_new_at_end arg_node_def)
  have "cbstate cb F (L @ [?node]) (Suc n)" by (rule cbstate_append[OF Cons.prems(1)]) simp
  from Cons.IH[OF this, of "Suc k" "args @ [InstVal n]"] Cons.prems(2) obtain L' where
    "rfold (add_arg_node cb name (links_orig ls) (map fst ls)) (enumerate (Suc k) tys)
        (with_block cb (L @ [?node]) (Suc n) F, args @ [InstVal n]) =
      Inr (with_block cb ((L @ [?node]) @ L') (Suc n + length tys) F, (args @ [InstVal n]) @ map InstVal [Suc n..<Suc n + length tys])"
    "cbstate cb F ((L @ [?node]) @ L') (Suc n + length tys)"
    "L' = map (\<lambda>j. arg_node name (Suc n + j) (Suc k + j) (tys ! j) (arg_values argv ls (Suc k + j))) [0..<length tys]"
    by fastforce
  note r = this
  have iv: "[n..<n + length (t # tys)] = n # [Suc n..<Suc n + length tys]" by (simp add: upt_conv_Cons del: upt_Suc)
  have up: "map h [0..<length (t # tys)] = h 0 # map (\<lambda>j. h (Suc j)) [0..<length tys]" for h :: "nat \<Rightarrow> ir_inst"
    by (simp add: upt_conv_Cons map_Suc_upt[symmetric] comp_def del: upt_Suc map_Suc_upt)
  have "?node # L' = map (\<lambda>j. arg_node name (n + j) (k + j) ((t # tys) ! j) (arg_values argv ls (k + j))) [0..<length (t # tys)]"
    unfolding up r(3) by simp
  moreover have "args @ map InstVal [n..<n + length (t # tys)] = (args @ [InstVal n]) @ map InstVal [Suc n..<Suc n + length tys]"
    unfolding iv by simp
  ultimately show ?case using step r(1,2) by (intro exI[of _ "?node # L'"]) (simp del: upt_Suc)
qed simp

section \<open>The variable for the return value\<close>

lemma upd_ins_before:
  assumes "n \<notin> i_id ` set is" and "i_id a = n"
  shows "upd_at i_id n g (ins_before i_id x a is) = ins_before i_id x (g a) is"
  using assms by (induction "is") (auto simp: upd_at_notin)

lemma upd_insert_before:
  assumes "n \<notin> i_id ` set (func_insts f)" and "i_id a = n"
  shows "upd_inst n g (insert_before x a f) = insert_before x (g a) f"
  unfolding upd_inst_def insert_before_def map_blocks_comp on_insts_comp
proof (rule map_blocks_cong)
  fix b assume "b \<in> set (f_blocks f)"
  then have "n \<notin> i_id ` set (b_insts b)" using assms(1) by (auto simp: func_insts_def)
  from upd_ins_before[OF this assms(2)] show "on_insts (upd_at i_id n g \<circ> ins_before i_id x a) b = on_insts (ins_before i_id x (g a)) b"
    by (intro on_insts_cong) simp
qed

text \<open>An instruction put into a block of the rest of the function.\<close>

lemma cbstate_insert:
  assumes st: "cbstate cb F L n" and "i_id a = n" and "x \<in> i_id ` set (func_insts F)"
  shows "cbstate cb (insert_before x a F) L (Suc n)"
    and "func_insts (insert_before x a F) = ins_before i_id x a (func_insts F)"
proof -
  have d: "distinct (map i_id (func_insts F))" using st by (simp add: cbstate_def fresh_ids_def)
  show insts: "func_insts (insert_before x a F) = ins_before i_id x a (func_insts F)"
    by (rule func_insts_insert_before[OF d])
  have "distinct (map i_id (ins_before i_id x a (func_insts F)))"
    using cbstate_fresh(1)[OF st] assms(2) d by (intro ins_before_distinct) simp_all
  moreover have "i_id ` set (ins_before i_id x a (func_insts F)) = insert n (i_id ` set (func_insts F))"
    using assms(2,3) by (simp add: set_ins_before)
  ultimately have "fresh_ids (map i_id (ins_before i_id x a (func_insts F)) @ map i_id L) (Suc n)"
    using st by (auto simp: cbstate_def fresh_ids_def less_Suc_eq)
  moreover have "\<exists>xs ys nm. f_blocks (insert_before x a F) = xs @ \<lparr>b_id = cb, b_name = nm, b_insts = []\<rparr> # ys"
  proof -
    obtain xs ys nm where "f_blocks F = xs @ \<lparr>b_id = cb, b_name = nm, b_insts = []\<rparr> # ys"
      using st by (auto simp: cbstate_def)
    then have "f_blocks (insert_before x a F) = map (on_insts (ins_before i_id x a)) xs @
        \<lparr>b_id = cb, b_name = nm, b_insts = []\<rparr> # map (on_insts (ins_before i_id x a)) ys"
      by (simp add: insert_before_def on_insts_def[of _ "\<lparr>b_id = cb, b_name = nm, b_insts = []\<rparr>"])
    then show ?thesis by blast
  qed
  ultimately show "cbstate cb (insert_before x a F) L (Suc n)"
    using st unfolding cbstate_def insts by (simp add: fresh_ids_Suc)
qed

definition buffer_alloca :: "string \<Rightarrow> nat \<Rightarrow> ir_type \<Rightarrow> ir_inst" where
  "buffer_alloca name n rty = fst (attach_metadata (mk_inst n (Alloca rty) (PtrTy rty) ''.fuse.return.buffer'') FuseFunctionRet name)"

definition buffer_store :: "string \<Rightarrow> nat \<Rightarrow> nat \<Rightarrow> ir_inst" where
  "buffer_store name comb n = fst (attach_metadata (mk_inst (Suc n) (Store (InstVal comb) (InstVal n)) VoidTy '''') FuseFunctionRet name)"

lemma buffer_simps [simp]: "i_id (buffer_alloca name n rty) = n" "i_kind (buffer_alloca name n rty) = Alloca rty"
  "i_id (buffer_store name comb n) = Suc n" "i_kind (buffer_store name comb n) = Store (InstVal comb) (InstVal n)"
  by (simp_all add: buffer_alloca_def buffer_store_def)

lemma add_return_buffer_ok:
  assumes st: "cbstate cb F (L @ [call]) n" and call: "i_id call = comb"
    and entry: "f_blocks F = eb # bs" "b_insts eb = front # rest"
  shows "add_return_buffer comb name rty (with_block cb (L @ [call]) n F) =
      Inr (with_block cb (L @ [call, buffer_store name comb n]) (Suc (Suc n)) (insert_before (i_id front) (buffer_alloca name n rty) F))
    \<and> cbstate cb (insert_before (i_id front) (buffer_alloca name n rty) F) (L @ [call, buffer_store name comb n]) (Suc (Suc n))"
proof -
  let ?al = "mk_inst n (Alloca rty) (PtrTy rty) ''.fuse.return.buffer''"
  let ?st = "mk_inst (Suc n) (Store (InstVal comb) (InstVal n)) VoidTy ''''"
  let ?F = "insert_before (i_id front) ?al F"
  have front: "front \<in> set (func_insts F)" by (simp add: func_insts_def entry)
  then have "i_id front \<in> i_id ` set (func_insts F)" by simp
  note ins = cbstate_insert[OF st _ this]
  have stF: "cbstate cb ?F (L @ [call]) (Suc n)" by (rule ins(1)) simp
  have "b_id eb \<noteq> cb"
  proof
    assume eb: "b_id eb = cb"
    obtain xs ys nm where l: "f_blocks F = xs @ \<lparr>b_id = cb, b_name = nm, b_insts = []\<rparr> # ys" and d: "distinct (map b_id (f_blocks F))"
      using st by (auto simp: cbstate_def fresh_ids_def)
    then show False using eb entry by (cases xs) auto
  qed
  then have ef: "entry_front (with_block cb (L @ [call]) n F) = Inr front"
    by (simp add: entry_front_def with_block_def entry deref_def)
  have away: "i_id front \<notin> i_id ` set (L @ [call])" using cbstate_fresh(3)[OF st, of "i_id front"] front by auto
  have f1: "new_named_before (i_id front) (Alloca rty) (PtrTy rty) ''.fuse.return.buffer'' (with_block cb (L @ [call]) n F) =
      with_block cb (L @ [call]) (Suc n) ?F"
    unfolding new_named_before_def by (simp only: with_block_frame with_block_insert ins_before_notin[OF away])
  have combF: "comb \<notin> i_id ` set (func_insts ?F)" and combL: "comb \<notin> i_id ` set L" "comb \<noteq> Suc n"
    using cbstate_fresh(3)[OF stF, of comb] stF call by (auto simp: cbstate_def fresh_ids_def)
  have snF: "Suc n \<notin> i_id ` set (func_insts ?F)" "Suc n \<notin> i_id ` set (L @ [call])" by (rule cbstate_fresh[OF stF])+
  have f2: "new_before comb (Store (InstVal comb) (InstVal n)) VoidTy (with_block cb (L @ [call]) (Suc n) ?F) =
      with_block cb (L @ [?st, call]) (Suc (Suc n)) ?F"
    unfolding new_before_def with_block_frame with_block_insert
    by (simp add: edits_away[OF combF] ins_before_append[OF combL(1)] call)
  have st2: "cbstate cb ?F (L @ [?st, call]) (Suc (Suc n))" by (rule cbstate_append[OF stF]) simp
  have find: "find_inst (with_block cb (L @ [?st, call]) (Suc (Suc n)) ?F) (Suc n) = Some ?st"
    using cbstate_find(2)[OF st2, of ?st] by simp
  have f3: "move_after (Suc n) comb (with_block cb (L @ [?st, call]) (Suc (Suc n)) ?F) = with_block cb (L @ [call, ?st]) (Suc (Suc n)) ?F"
    using snF combL call
    by (simp add: move_after_def find with_block_erase with_block_insert_after edits_away(3)[OF combF] edits_away(4)[OF snF(1)]
        ins_after_append del_at_notin)
  have nL: "n \<notin> i_id ` set (L @ [call, ?st])" using cbstate_fresh(2)[OF st] by simp
  have f4: "tag_inst n FuseFunctionRet name (with_block cb (L @ [call, ?st]) (Suc (Suc n)) ?F) =
      with_block cb (L @ [call, ?st]) (Suc (Suc n)) (insert_before (i_id front) (buffer_alloca name n rty) F)"
    using upd_insert_before[OF cbstate_fresh(1)[OF st], of ?al]
    by (simp only: tag_inst_def with_block_upd_inst upd_at_notin[OF nL] buffer_alloca_def mk_inst_simps)
  let ?F' = "insert_before (i_id front) (buffer_alloca name n rty) F"
  have stF': "cbstate cb ?F' (L @ [call]) (Suc n)" by (rule ins(1)) simp
  have f5: "tag_inst (Suc n) FuseFunctionRet name (with_block cb ((L @ [call]) @ [?st]) (Suc (Suc n)) ?F') =
      with_block cb ((L @ [call]) @ [buffer_store name comb n]) (Suc (Suc n)) ?F'"
    unfolding buffer_store_def by (rule tag_inst_last[OF stF']) simp
  have "cbstate cb ?F' (L @ [call, buffer_store name comb n]) (Suc (Suc n))" by (rule cbstate_append[OF stF']) simp
  then show ?thesis
    using f5 by (simp add: add_return_buffer_def ef f1 f2 f3 f4 Let_def)
qed

section \<open>Retiring the calls\<close>

definition fused_value :: "nat list \<Rightarrow> nat \<Rightarrow> ir_value \<Rightarrow> ir_value" where
  "fused_value cs comb v = (if v \<in> InstVal ` set cs then InstVal comb else v)"

definition fused_inst :: "nat list \<Rightarrow> nat \<Rightarrow> ir_inst \<Rightarrow> ir_inst" where
  "fused_inst cs comb i = i\<lparr>i_kind := map_ikind (fused_value cs comb) (i_kind i)\<rparr>"

definition retire_list :: "nat list \<Rightarrow> nat \<Rightarrow> ir_inst list \<Rightarrow> ir_inst list" where
  "retire_list cs comb is = map (fused_inst cs comb) (filter (\<lambda>i. i_id i \<notin> set cs) is)"

lemma fused_inst_simps [simp]: "i_id (fused_inst cs comb i) = i_id i"
  "i_kind (fused_inst cs comb i) = map_ikind (fused_value cs comb) (i_kind i)"
  by (simp_all add: fused_inst_def)

lemma retire_list_step:
  assumes "comb \<notin> set cs"
  shows "retire_list cs comb (del_at i_id c (map (\<lambda>i. i\<lparr>i_kind := replace_uses (InstVal c) (InstVal comb) (i_kind i)\<rparr>) is))
       = retire_list (c # cs) comb is"
proof -
  have v: "fused_value cs comb (if v = InstVal c then InstVal comb else v) = fused_value (c # cs) comb v" for v
    using assms by (auto simp: fused_value_def)
  have i: "fused_inst cs comb (i\<lparr>i_kind := replace_uses (InstVal c) (InstVal comb) (i_kind i)\<rparr>) = fused_inst (c # cs) comb i" for i
    by (simp add: fused_inst_def replace_uses_def ikind.map_comp comp_def v)
  show ?thesis by (induction "is") (auto simp: retire_list_def i)
qed

lemma retire_call_map:
  "retire_call comb c f = map_blocks (on_insts (\<lambda>is. del_at i_id c
     (map (\<lambda>i. i\<lparr>i_kind := replace_uses (InstVal c) (InstVal comb) (i_kind i)\<rparr>) is))) f"
  unfolding retire_call_def erase_inst_def replace_all_uses_def edit_kinds_def map_blocks_comp on_insts_comp
  by (simp only: comp_def)

lemma retire_calls_map:
  assumes "comb \<notin> set cs"
  shows "fold (retire_call comb) cs f = map_blocks (on_insts (retire_list cs comb)) f"
  using assms
proof (induction cs arbitrary: f)
  case Nil
  have "map_ikind (fused_value [] comb) k = k" for k
    by (rule ikind.map_ident_strong) (simp add: fused_value_def)
  then have "fused_inst [] comb i = i" for i by (simp add: fused_inst_def)
  then have "retire_list [] comb = (\<lambda>is. is)" by (simp add: retire_list_def fun_eq_iff map_idI)
  then show ?case by (simp add: map_blocks_id)
next
  case (Cons c cs)
  then have "comb \<notin> set cs" by simp
  from retire_list_step[OF this]
  have "map_blocks (on_insts (retire_list cs comb)) (retire_call comb c f) = map_blocks (on_insts (retire_list (c # cs) comb)) f"
    unfolding retire_call_map map_blocks_comp on_insts_comp by (simp only: comp_def)
  with Cons show ?case by simp
qed

lemma retire_list_append: "retire_list cs comb (xs @ ys) = retire_list cs comb xs @ retire_list cs comb ys"
  by (simp add: retire_list_def)

lemma retire_list_concat: "retire_list cs comb (concat xss) = concat (map (retire_list cs comb) xss)"
  by (induction xss) (simp_all add: retire_list_append, simp add: retire_list_def)

lemma func_insts_retire: "func_insts (map_blocks (on_insts (retire_list cs comb)) f) = retire_list cs comb (func_insts f)"
  by (simp add: func_insts_map_blocks func_insts_def retire_list_concat comp_def)

lemma cbstate_retire:
  assumes st: "cbstate cb F L n" and "\<forall>i \<in> set L. i_id i \<notin> set cs"
  shows "cbstate cb (map_blocks (on_insts (retire_list cs comb)) F) (map (fused_inst cs comb) L) n"
    and "retire_list cs comb L = map (fused_inst cs comb) L"
proof -
  show "retire_list cs comb L = map (fused_inst cs comb) L" using assms(2) by (auto simp: retire_list_def intro: filter_True)
  have "map i_id (retire_list cs comb is) = filter (\<lambda>x. x \<notin> set cs) (map i_id is)" for "is"
    by (induction "is") (auto simp: retire_list_def)
  moreover have "fresh_ids (xs @ ys) n \<Longrightarrow> fresh_ids (filter p xs @ ys) n" for xs ys p by (auto simp: fresh_ids_def)
  ultimately have "fresh_ids (map i_id (retire_list cs comb (func_insts F)) @ map i_id L) n"
    using st by (simp add: cbstate_def)
  moreover obtain xs ys nm where "f_blocks F = xs @ \<lparr>b_id = cb, b_name = nm, b_insts = []\<rparr> # ys"
    using st by (auto simp: cbstate_def)
  moreover have "on_insts (retire_list cs comb) \<lparr>b_id = cb, b_name = nm, b_insts = []\<rparr> = \<lparr>b_id = cb, b_name = nm, b_insts = []\<rparr>"
    by (simp add: on_insts_def retire_list_def)
  ultimately show "cbstate cb (map_blocks (on_insts (retire_list cs comb)) F) (map (fused_inst cs comb) L) n"
    using st unfolding cbstate_def func_insts_retire by (auto simp: comp_def)
qed

section \<open>The dispatch\<close>

lemma upd_mid:
  assumes "cbstate cb F (A @ i # B) m" and "i_id i = x"
  shows "upd_inst x g (with_block cb (A @ i # B) n F) = with_block cb (A @ g i # B) n F"
proof -
  have "x \<notin> i_id ` set (func_insts F)" using cbstate_fresh(3)[OF assms(1), of x] assms(2) by auto
  moreover have "x \<notin> i_id ` set A" "x \<notin> i_id ` set B" using assms by (auto simp: cbstate_def fresh_ids_def)
  ultimately show ?thesis using assms(2) by (simp add: with_block_upd_inst edits_away upd_at_notin)
qed

lemma insert_mid:
  assumes "cbstate cb F (A @ i # B) m" and "i_id i = x"
  shows "insert_before x j (with_block cb (A @ i # B) n F) = with_block cb (A @ j # i # B) n F"
proof -
  have "x \<notin> i_id ` set (func_insts F)" using cbstate_fresh(3)[OF assms(1), of x] assms(2) by auto
  moreover have "x \<notin> i_id ` set A" using assms by (auto simp: cbstate_def fresh_ids_def)
  ultimately show ?thesis using assms(2) by (simp add: with_block_insert edits_away ins_before_append)
qed

lemma unreachable_with_block:
  assumes st: "cbstate cb F L n" and L: "\<And>i. L \<noteq> [i]"
  shows "\<exists>F' u n'. get_or_create_unreachable_block (with_block cb L n F) = (with_block cb L n' F', u)
    \<and> cbstate cb F' L n' \<and> n \<le> n' \<and> f_id F' = f_id F
    \<and> (F' = F \<or> (\<exists>ub. f_blocks F' = f_blocks F @ [ub] \<and> is_unreachable_block ub \<and> (\<forall>i \<in> set (b_insts ub). n \<le> i_id i)))
    \<and> (\<exists>b \<in> set (f_blocks F'). b_id b = u \<and> u \<noteq> cb \<and> is_unreachable_block b)"
proof -
  let ?f = "with_block cb L n F"
  obtain xs ys nm where l: "f_blocks F = xs @ \<lparr>b_id = cb, b_name = nm, b_insts = []\<rparr> # ys"
    "f_blocks ?f = xs @ \<lparr>b_id = cb, b_name = nm, b_insts = L\<rparr> # ys"
    using cbstate_layout[OF st] by blast
  have d: "distinct (map b_id (f_blocks F))" "\<forall>b \<in> set (f_blocks F). b_id b < n"
    using st by (auto simp: cbstate_def fresh_ids_def)
  have cbL: "\<not> is_unreachable_block \<lparr>b_id = cb, b_name = nm, b_insts = L\<rparr>"
    using L by (auto simp: is_unreachable_block_def split: list.splits)
  show ?thesis
  proof (cases "filter is_unreachable_block (f_blocks ?f)")
    case (Cons b bs)
    then have b: "b \<in> set (f_blocks ?f)" "is_unreachable_block b" using Cons_eq_filterD[OF Cons[symmetric]] by auto
    then have bF: "b \<in> set xs \<union> set ys" using cbL by (auto simp: l(2))
    then have "b_id b \<noteq> cb" using d(1) by (auto simp: l(1))
    moreover have "b \<in> set (f_blocks F)" using bF by (auto simp: l(1))
    ultimately show ?thesis
      using st b(2) Cons by (intro exI[of _ F] exI[of _ "b_id b"] exI[of _ n]) (auto simp: get_or_create_unreachable_block_def)
  next
    case Nil
    let ?i = "mk_inst (Suc n) Unreachable VoidTy ''''"
    let ?ub = "\<lparr>b_id = n, b_name = '''', b_insts = [?i]\<rparr>"
    let ?F = "F\<lparr>f_blocks := f_blocks F @ [?ub]\<rparr>"
    have "cb < n" "n \<notin> b_id ` set xs" "n \<notin> b_id ` set ys" "cb \<notin> b_id ` set xs" "cb \<notin> b_id ` set ys"
      using d by (auto simp: l(1))
    then have "get_or_create_unreachable_block ?f = (with_block cb L (Suc (Suc n)) ?F, n)"
      using Nil by (simp add: get_or_create_unreachable_block_def Let_def new_at_end_def new_block_def append_block_def
          append_inst_def with_block_def l(1) upd_at_notin on_insts_def)
    moreover have "cbstate cb ?F L (Suc (Suc n))"
    proof -
      have "map i_id (func_insts ?F) @ map i_id L = map i_id (func_insts F) @ Suc n # map i_id L" by (simp add: func_insts_def)
      moreover have "map b_id (f_blocks ?F) = map b_id (f_blocks F) @ [n]" by simp
      moreover have "fresh_ids (map b_id (f_blocks F) @ [n]) (Suc (Suc n))"
        using st by (auto simp: cbstate_def fresh_ids_def less_Suc_eq)
      moreover have "\<exists>xs ys nm. f_blocks ?F = xs @ \<lparr>b_id = cb, b_name = nm, b_insts = []\<rparr> # ys"
        by (intro exI[of _ xs] exI[of _ "ys @ [?ub]"] exI[of _ nm]) (simp add: l(1))
      ultimately show ?thesis using st unfolding cbstate_def by (simp add: fresh_ids_insert)
    qed
    ultimately show ?thesis
      using \<open>cb < n\<close> by (intro exI[of _ ?F] exI[of _ n] exI[of _ "Suc (Suc n)"]) (simp add: is_unreachable_block_def)
  qed
qed

lemma return_branches:
  assumes "cbstate cb F (A @ from # M @ [sw]) n" and "i_kind from = PHI ins" and "i_kind sw = Switch v d cs"
  shows "fold (add_return_branch (i_id from) (i_id sw)) es (with_block cb (A @ from # M @ [sw]) n F) =
    with_block cb (A @ from\<lparr>i_kind := PHI (ins @ map (\<lambda>(k, P, R). (ConstInt (cint_get 32 (of_nat k)), P)) es)\<rparr> # M
      @ [sw\<lparr>i_kind := Switch v d (cs @ map (\<lambda>(k, P, R). (cint_get 32 (of_nat k), R)) es)\<rparr>]) n F"
  using assms
proof (induction es arbitrary: "from" sw ins cs)
  case Nil
  then have "from\<lparr>i_kind := PHI ins\<rparr> = from" "sw\<lparr>i_kind := Switch v d cs\<rparr> = sw" by (cases "from"; cases sw; simp)+
  then show ?case by simp
next
  case (Cons e es)
  obtain k P R where e: "e = (k, P, R)" by (cases e) auto
  let ?c = "cint_get 32 (of_nat k)"
  let ?from = "from\<lparr>i_kind := PHI (ins @ [(ConstInt ?c, P)])\<rparr>" and ?sw = "sw\<lparr>i_kind := Switch v d (cs @ [(?c, R)])\<rparr>"
  have st1: "cbstate cb F ((A @ ?from # M) @ sw # []) n" by (rule cbstate_ids[OF Cons.prems(1)]) simp
  have st2: "cbstate cb F (A @ ?from # M @ [?sw]) n" by (rule cbstate_ids[OF Cons.prems(1)]) simp
  have "add_return_branch (i_id from) (i_id sw) e (with_block cb (A @ from # M @ [sw]) n F) = with_block cb (A @ ?from # M @ [?sw]) n F"
    using upd_mid[OF Cons.prems(1), of "i_id from"] upd_mid[OF st1, of "i_id sw"] Cons.prems(2,3)
    by (simp add: add_return_branch_def e Let_def add_case_def)
  then show ?case using Cons.IH[OF st2, of "ins @ [(ConstInt ?c, P)]" "cs @ [(?c, R)]"] by (simp add: e)
qed

definition return_cases :: "(nat \<times> nat) list \<Rightarrow> switch_cases" where
  "return_cases ret = map (\<lambda>(k, P, R). (cint_get 32 (of_nat k), R)) (enumerate 0 ret)"

definition return_numbers :: "(nat \<times> nat) list \<Rightarrow> (ir_value \<times> nat) list" where
  "return_numbers ret = map (\<lambda>(k, P, R). (ConstInt (cint_get 32 (of_nat k)), P)) (enumerate 0 ret)"

lemma add_dispatch_ok:
  assumes st: "cbstate cb F (A @ call # S) n" and call: "i_id call = comb"
  shows "\<exists>F' n' u from m1 m2 sw. add_dispatch cb comb name ret (with_block cb (A @ call # S) n F) =
      with_block cb (A @ [from, m1, call] @ S @ [m2, sw]) n' F'
    \<and> i_kind from = PHI (return_numbers ret) \<and> i_kind sw = Switch (InstVal (i_id from)) u (return_cases ret)
    \<and> i_kind m1 = donothing_call \<and> i_kind m2 = donothing_call \<and> (\<forall>i \<in> {from, m1, m2, sw}. n \<le> i_id i)
    \<and> cbstate cb F' (A @ [from, m1, call] @ S @ [m2, sw]) n' \<and> f_id F' = f_id F
    \<and> (F' = F \<or> (\<exists>ub. f_blocks F' = f_blocks F @ [ub] \<and> is_unreachable_block ub \<and> (\<forall>i \<in> set (b_insts ub). n \<le> i_id i)))
    \<and> (\<exists>b \<in> set (f_blocks F'). b_id b = u \<and> u \<noteq> cb \<and> is_unreachable_block b)"
proof -
  let ?from = "mk_inst n (PHI []) (IntTy 32) ''''"
  let ?from' = "fst (attach_metadata ?from FuseFunctionName name)"
  have st1: "cbstate cb F (A @ ?from # call # S) (Suc n)" "cbstate cb F (A @ ?from' # call # S) (Suc n)"
    by (rule cbstate_append[OF st]; simp)+
  have f1: "tag_inst n FuseFunctionName name (new_before comb (PHI []) (IntTy 32) (with_block cb (A @ call # S) n F)) =
      with_block cb (A @ ?from' # call # S) (Suc n) F"
    using insert_mid[OF st call] upd_mid[OF st1(1), of n] by (simp add: new_before_def tag_inst_def)
  let ?f1 = "with_block cb (A @ ?from' # call # S) (Suc n) F"
  let ?m = "(mk_inst (Suc n) donothing_call VoidTy '''')\<lparr>i_md := debug_loc_of ?f1 comb\<rparr>"
  let ?m1 = "fst (attach_metadata ?m FuseFunctionStart name)"
  have mid: "i_id ?m = Suc n" "i_kind ?m = donothing_call" by (simp_all add: mk_inst_def)
  have "cbstate cb F ((A @ [?from']) @ call # S) (Suc n)" using st1(2) by simp
  note st1' = this
  have st2: "cbstate cb F ((A @ [?from']) @ ?m # call # S) (Suc (Suc n))" "cbstate cb F ((A @ [?from']) @ ?m1 # call # S) (Suc (Suc n))"
    by (rule cbstate_append[OF st1']; simp add: mk_inst_def)+
  have f2: "fst (create_metadata_before ?f1 comb FuseFunctionStart name) = with_block cb ((A @ [?from']) @ ?m1 # call # S) (Suc (Suc n)) F"
    using insert_mid[OF st1' call, of ?m] upd_mid[OF st2(1) mid(1)]
    by (simp add: create_metadata_before_def create_metadata_marker_before_def Let_def)
  let ?L2 = "(A @ [?from']) @ ?m1 # call # S"
  let ?mm = "mk_inst (Suc (Suc n)) donothing_call VoidTy ''''"
  let ?m2 = "fst (attach_metadata ?mm FuseFunctionEnd name)"
  have st3: "cbstate cb F (?L2 @ ?mm # []) (Suc (Suc (Suc n)))" "cbstate cb F (?L2 @ [?m2]) (Suc (Suc (Suc n)))"
    by (rule cbstate_append[OF st2(2)]; simp)+
  have f3: "fst (create_metadata_end (with_block cb ?L2 (Suc (Suc n)) F) cb FuseFunctionEnd name) = with_block cb (?L2 @ [?m2]) (Suc (Suc (Suc n))) F"
    using upd_mid[OF st3(1), of "Suc (Suc n)"]
    by (simp add: create_metadata_end_def create_metadata_marker_end_def Let_def with_block_append)
  obtain F' u n' where u: "get_or_create_unreachable_block (with_block cb (?L2 @ [?m2]) (Suc (Suc (Suc n))) F) = (with_block cb (?L2 @ [?m2]) n' F', u)"
    "cbstate cb F' (?L2 @ [?m2]) n'" "Suc (Suc (Suc n)) \<le> n'" "f_id F' = f_id F"
    "F' = F \<or> (\<exists>ub. f_blocks F' = f_blocks F @ [ub] \<and> is_unreachable_block ub \<and> (\<forall>i \<in> set (b_insts ub). Suc (Suc (Suc n)) \<le> i_id i))"
    "\<exists>b \<in> set (f_blocks F'). b_id b = u \<and> u \<noteq> cb \<and> is_unreachable_block b"
    using unreachable_with_block[OF st3(2)] by auto
  let ?sw = "mk_inst n' (Switch (InstVal n) u []) VoidTy ''''"
  let ?sw' = "fst (attach_metadata ?sw FuseFunctionName name)"
  have st5: "cbstate cb F' ((?L2 @ [?m2]) @ ?sw # []) (Suc n')" "cbstate cb F' (A @ ?from' # ([?m1, call] @ S @ [?m2]) @ [?sw']) (Suc n')"
    by (rule cbstate_append[OF u(2)]; simp)+
  have f5: "tag_inst n' FuseFunctionName name (new_at_end cb (Switch (InstVal n) u []) VoidTy (with_block cb (?L2 @ [?m2]) n' F')) =
      with_block cb (A @ ?from' # ([?m1, call] @ S @ [?m2]) @ [?sw']) (Suc n') F'"
    using upd_mid[OF st5(1), of n'] by (simp add: tag_inst_def with_block_new_at_end)
  let ?from2 = "?from'\<lparr>i_kind := PHI (return_numbers ret)\<rparr>"
  let ?sw2 = "?sw'\<lparr>i_kind := Switch (InstVal n) u (return_cases ret)\<rparr>"
  have f6: "fold (add_return_branch n n') (enumerate 0 ret) (with_block cb (A @ ?from' # ([?m1, call] @ S @ [?m2]) @ [?sw']) (Suc n') F') =
      with_block cb (A @ ?from2 # ([?m1, call] @ S @ [?m2]) @ [?sw2]) (Suc n') F'"
    using return_branches[OF st5(2), of "[]" "InstVal n" u "[]" "enumerate 0 ret"]
    by (simp add: return_numbers_def return_cases_def)
  define fr m1 m2 sw where d: "fr = ?from2" "m1 = ?m1" "m2 = ?m2" "sw = ?sw2"
  have kinds: "i_kind fr = PHI (return_numbers ret)" "i_kind sw = Switch (InstVal (i_id fr)) u (return_cases ret)"
    "i_kind m1 = donothing_call" "i_kind m2 = donothing_call"
    using mid by (simp_all add: d)
  have new: "\<forall>i \<in> {fr, m1, m2, sw}. n \<le> i_id i" using u(3) mid by (simp add: d)
  have u5: "F' = F \<or> (\<exists>ub. f_blocks F' = f_blocks F @ [ub] \<and> is_unreachable_block ub \<and> (\<forall>i \<in> set (b_insts ub). n \<le> i_id i))"
    using u(5) by (meson Suc_leD)
  have res: "add_dispatch cb comb name ret (with_block cb (A @ call # S) n F) =
      with_block cb (A @ [fr, m1, call] @ S @ [m2, sw]) (Suc n') F'" unfolding d
    unfolding add_dispatch_def Let_def with_block_frame f1 f2 f3 u(1) prod.case f5 f6 by simp
  have st6: "cbstate cb F' (A @ [fr, m1, call] @ S @ [m2, sw]) (Suc n')"
    unfolding d by (rule cbstate_ids[OF st5(2)]) simp
  from res kinds new st6 u(4) u5 u(6) show ?thesis by blast
qed

end
