(* ===== verification/Fuse_Dispatch.thy ===== *)
theory Fuse_Dispatch
  imports Fuse_Combine
begin

text \<open>
  The properties of a new call block of \<open>combine_calls\<close>: what control and values do when a split block
  enters it, that the instructions of the caller keep their places, and what becomes of the results of the
  calls.
\<close>

section \<open>The caller after the edits\<close>

text \<open>The instructions of some blocks that are older than \<open>n0\<close>, and those that are no call to fuse.\<close>

definition old_insts :: "nat \<Rightarrow> ir_block list \<Rightarrow> ir_inst list" where
  "old_insts n0 bs = filter (\<lambda>i. i_id i < n0) (concat (map b_insts bs))"

definition kept :: "nat list \<Rightarrow> ir_inst list \<Rightarrow> ir_inst list" where
  "kept cs is = filter (\<lambda>i. i_id i \<notin> set cs) is"

text \<open>
  The block \<open>P\<close> holds what came before the call \<open>c\<close> of \<open>f\<close> and branches to the call block; the block \<open>R\<close>
  right behind it goes on with what came after the call.
\<close>

definition resumes :: "ir_func \<Rightarrow> nat list \<Rightarrow> (ir_inst \<Rightarrow> ir_inst) \<Rightarrow> nat \<Rightarrow> ir_func \<Rightarrow> nat \<Rightarrow> nat \<Rightarrow> nat \<Rightarrow> bool" where
  "resumes f cs K cb g c P R \<longleftrightarrow>
     (\<exists>xs pb rb ys A ci B br. f_blocks g = xs @ pb # rb # ys \<and> b_id pb = P \<and> b_id rb = R
        \<and> terminator pb = Some br \<and> i_kind br = Br cb \<and> func_insts f = A @ ci # B \<and> i_id ci = c
        \<and> old_insts (f_next f) (xs @ [pb]) = map K (kept cs A) \<and> old_insts (f_next f) (rb # ys) = map K (kept cs B))"

text \<open>What happens to an instruction: the results of the calls are replaced by that of the new call.\<close>

definition fusion :: "(ir_inst \<Rightarrow> ir_inst) \<Rightarrow> nat list \<Rightarrow> nat \<Rightarrow> bool" where
  "fusion K cs comb \<longleftrightarrow> (\<forall>i. i_id (K i) = i_id i \<and> operands (i_kind (K i)) = map (fused_value cs comb) (operands (i_kind i))
     \<and> (\<not> is_phi (i_kind i) \<longrightarrow> K i = fused_inst cs comb i))"

lemma fusion_renames: "renames_phis H \<Longrightarrow> fusion (fused_inst cs comb \<circ> H) cs comb"
  by (simp add: fusion_def renames_phis_simps operands_map)

lemma old_insts_simps [simp]: "old_insts n0 [] = []"
  "old_insts n0 (b # bs) = filter (\<lambda>i. i_id i < n0) (b_insts b) @ old_insts n0 bs"
  "old_insts n0 (bs @ bs') = old_insts n0 bs @ old_insts n0 bs'"
  by (simp_all add: old_insts_def)

lemma kept_append [simp]: "kept cs (xs @ ys) = kept cs xs @ kept cs ys"
  by (simp add: kept_def)

text \<open>An edit of the blocks that keeps old instructions up to \<open>K\<close>, and one that only inserts a new one.\<close>

lemma old_insts_edit:
  assumes "\<And>is. filter (\<lambda>i. i_id i < n0) (e is) = map K (kept cs (filter (\<lambda>i. i_id i < n0) is))"
    and "\<forall>i \<in> set L. \<not> i_id i < n0" and "\<And>b. b \<in> set bs \<Longrightarrow> b_id b = cb \<Longrightarrow> b_insts b = []"
  shows "old_insts n0 (map (\<lambda>b. if b_id b = cb then on_insts (\<lambda>_. L) b else on_insts e b) bs) = map K (kept cs (old_insts n0 bs))"
  using assms(3)
proof (induction bs)
  case (Cons b bs)
  have "filter (\<lambda>i. i_id i < n0) L = []" using assms(2) by (simp add: filter_empty_conv)
  with Cons assms(1)[of "b_insts b"] show ?case by (auto simp: kept_def)
qed (simp add: kept_def)

lemma ins_before_last: "\<exists>is'. ins_before key x a (is @ [i]) = is' @ [i]"
  using last_ins_before[of "is @ [i]" key x a]
  by (intro exI[of _ "butlast (ins_before key x a (is @ [i]))"]) (metis append_butlast_last_id append_is_Nil_conv last_snoc not_Cons_self2)

lemma split_at_key:
  assumes "xs @ a # ys = us @ b # vs" and "key a = key b" and "distinct (map key (xs @ a # ys))"
  shows "xs = us \<and> a = b \<and> ys = vs"
  using assms
proof (induction xs arbitrary: us)
  case Nil
  show ?case
  proof (cases us)
    case (Cons u us')
    with Nil.prems have "a = u" "key a = key b" "b \<in> set ys" by auto
    then have "key a \<in> key ` set ys" by simp
    with Nil.prems(3) show ?thesis by simp
  qed (use Nil.prems in simp)
next
  case (Cons x xs)
  then show ?case
  proof (cases us)
    case Nil
    with Cons.prems have "key a = key x" "a \<in> set xs \<union> {a} \<union> set ys" by auto
    with Cons.prems(3) show ?thesis by simp
  next
    case (Cons u us')
    with Cons.prems Cons.IH[of us'] show ?thesis by auto
  qed
qed

lemma resumes_of_linked:
  assumes linked: "linked cb g0 c P R" and wf0: "wf_func g0" and cb0: "\<And>b. b \<in> set (f_blocks g0) \<Longrightarrow> b_id b = cb \<Longrightarrow> b_insts b = []"
    and wf: "wf_func f" and old: "filter (\<lambda>i. i_id i < f_next f) (func_insts g0) = map H (func_insts f)"
    and H: "renames_phis H" and c: "c \<in> set cs" "c < f_next f"
    and e: "\<And>is. filter (\<lambda>i. i_id i < f_next f) (e is) = map K (kept cs (filter (\<lambda>i. i_id i < f_next f) is))"
      "\<And>is br. br \<in> set (func_insts g0) \<Longrightarrow> i_kind br = Br cb \<Longrightarrow> \<exists>is'. e (is @ [br]) = is' @ [br]"
    and L: "\<forall>i \<in> set L. \<not> i_id i < f_next f"
    and g: "f_blocks g = map (\<lambda>b. if b_id b = cb then on_insts (\<lambda>_. L) b else on_insts e b) (f_blocks g0) @ ub"
    and ub: "old_insts (f_next f) ub = []"
  shows "resumes f cs (K \<circ> H) cb g c P R"
proof -
  let ?E = "\<lambda>b. if b_id b = cb then on_insts (\<lambda>_. L) b else on_insts e b" and ?n = "f_next f"
  obtain xs pb rb ys body br cc "is" where l: "f_blocks g0 = xs @ pb # rb # ys" "b_id pb = P" "b_id rb = R"
    "b_insts pb = body @ [br]" "i_kind br = Br cb" "b_insts rb = cc # is" "i_id cc = c"
    using linked by (auto simp: linked_def)
  have Ps: "P \<noteq> cb" using cb0[of pb] l(1,2,4) by auto
  have "br \<in> set (func_insts g0)" by (simp add: func_insts_def l(1,4))
  from e(2)[OF this l(5)] obtain body' where body': "e (body @ [br]) = body' @ [br]" by blast
  have g0i: "map H (func_insts f) = old_insts ?n (xs @ [pb]) @ cc # (filter (\<lambda>i. i_id i < ?n) is @ old_insts ?n ys)"
    using old c(2) by (simp add: func_insts_def l(1,6,7) old_insts_def)
  have "c \<in> i_id ` set (map H (func_insts f))" unfolding g0i using l(7) by force
  then obtain ci where ci: "ci \<in> set (func_insts f)" "i_id ci = c" by (auto simp: renames_phis_simps[OF H])
  then obtain A B where AB: "func_insts f = A @ ci # B" by (meson split_list)
  have "distinct (map i_id (map H (func_insts f)))"
    using wf_func_distinct[OF wf] renames_phis_simps(1)[OF H] by (simp add: comp_def)
  then have dd: "distinct (map i_id (map H A @ H ci # map H B))" by (simp add: AB)
  have "map H A @ H ci # map H B = old_insts ?n (xs @ [pb]) @ cc # (filter (\<lambda>i. i_id i < ?n) is @ old_insts ?n ys)"
    using g0i by (simp add: AB)
  from split_at_key[OF this _ dd] have eq: "map H A = old_insts ?n (xs @ [pb])"
    "map H B = filter (\<lambda>i. i_id i < ?n) is @ old_insts ?n ys"
    using ci(2) l(7) renames_phis_simps(1)[OF H] by auto
  have keptH: "kept cs (map H is) = map H (kept cs is)" for "is"
    using renames_phis_simps(1)[OF H] by (simp add: kept_def filter_map comp_def)
  have "old_insts ?n (map ?E (xs @ [pb])) = map K (kept cs (old_insts ?n (xs @ [pb])))"
    by (rule old_insts_edit[OF e(1) L]) (use cb0 l(1) in auto)
  also have "\<dots> = map (K \<circ> H) (kept cs A)" unfolding eq(1)[symmetric] keptH by simp
  finally have before: "old_insts ?n (map ?E (xs @ [pb])) = map (K \<circ> H) (kept cs A)" .
  have "old_insts ?n (map ?E (rb # ys)) = map K (kept cs (old_insts ?n (rb # ys)))"
    by (rule old_insts_edit[OF e(1) L]) (use cb0 l(1) in auto)
  also have "kept cs (old_insts ?n (rb # ys)) = kept cs (map H B)"
    using c l(6,7) unfolding eq(2) by (simp add: kept_def)
  also have "map K (kept cs (map H B)) = map (K \<circ> H) (kept cs B)" unfolding keptH by simp
  finally have behind: "old_insts ?n (map ?E (rb # ys)) = map (K \<circ> H) (kept cs B)" .
  have "f_blocks g = map ?E xs @ ?E pb # ?E rb # (map ?E ys @ ub)" by (simp add: g l(1))
  moreover have "b_id (?E pb) = P" "b_id (?E rb) = R" by (simp_all add: l(2,3))
  moreover have "terminator (?E pb) = Some br" using Ps l(2,5) by (simp add: terminator_def l(4) body')
  moreover have "old_insts ?n (map ?E xs @ [?E pb]) = map (K \<circ> H) (kept cs A)" using before by simp
  moreover have "old_insts ?n (?E rb # (map ?E ys @ ub)) = map (K \<circ> H) (kept cs B)" using behind ub by simp
  ultimately show ?thesis unfolding resumes_def using AB ci(2) l(5) by blast
qed

section \<open>From the caller to the split caller\<close>

lemma find_block_cb_state:
  assumes "wf_func g" and "find_block g cb = Some \<lparr>b_id = cb, b_name = nm, b_insts = []\<rparr>"
  shows "cbstate cb g [] (f_next g)" and "with_block cb [] (f_next g) g = g"
proof -
  obtain xs ys where l: "f_blocks g = xs @ \<lparr>b_id = cb, b_name = nm, b_insts = []\<rparr> # ys"
    using split_at_id assms(2) unfolding find_block_def by metis
  then show "cbstate cb g [] (f_next g)" using assms(1) by (auto simp: cbstate_def wf_func_def)
  have "distinct (map b_id (f_blocks g))" using assms(1) by (simp add: wf_func_def fresh_ids_def)
  then have "cb \<notin> b_id ` set xs" "cb \<notin> b_id ` set ys" by (auto simp: l)
  then have "upd_at b_id cb (on_insts (\<lambda>_. [])) (f_blocks g) = f_blocks g"
    by (simp add: l upd_at_notin on_insts_def)
  then show "with_block cb [] (f_next g) g = g" by (simp add: with_block_def)
qed

definition new_call_block_pre :: "block_split \<Rightarrow> ir_func \<Rightarrow> (nat \<Rightarrow> ir_value list) \<Rightarrow> nat list \<Rightarrow> ir_func \<Rightarrow> bool" where
  "new_call_block_pre split callee argv cs f \<longleftrightarrow> split_ok split \<and> wf_func f \<and> (\<forall>b \<in> set (f_blocks f). b_insts b \<noteq> [])
     \<and> cs \<noteq> [] \<and> subseq cs (map i_id (func_insts f))
     \<and> (\<forall>c \<in> set cs. site_ready f c \<and> length (argv c) = length (param_types (f_type callee))
          \<and> map_option i_kind (find_inst f c) = Some (Call (f_type callee) (argv c) (FuncVal (Fn (f_id callee)) (f_type callee))))"

lemma start_split:
  assumes pre: "new_call_block_pre split callee argv cs f"
  shows "\<exists>g links H. rfold (split_call_site split (f_next f)) cs (new_block ''.fuse.callblock'' f, [], []) = Inr (g, links_orig links, links_ret links)
    \<and> split_inv (f_next f) g links [] \<and> map fst links = cs \<and> renames_phis H \<and> f_id g = f_id f \<and> f_next f < f_next g
    \<and> filter (\<lambda>i. i_id i < f_next f) (func_insts g) = map H (func_insts f)
    \<and> (\<forall>i \<in> set (func_insts g). i \<in> H ` set (func_insts f) \<or> i_kind i = Br (f_next f))
    \<and> (\<exists>eb bs. f_blocks g = eb # bs \<and> b_id eb \<noteq> f_next f)
    \<and> (\<forall>c \<in> set cs. c < f_next f \<and> (\<exists>ci. find_inst g c = Some ci
          \<and> i_kind ci = Call (f_type callee) (argv c) (FuncVal (Fn (f_id callee)) (f_type callee))))
    \<and> (settled_blocks {} f \<longrightarrow> settled_blocks {f_next f} g)"
proof -
  let ?n = "f_next f" and ?F0 = "new_block ''.fuse.callblock'' f"
  have wf: "wf_func f" and ne: "\<forall>b \<in> set (f_blocks f). b_insts b \<noteq> []" and cs: "cs \<noteq> []" "subseq cs (map i_id (func_insts f))"
    and site: "\<forall>c \<in> set cs. site_ready f c \<and> map_option i_kind (find_inst f c) = Some (Call (f_type callee) (argv c) (FuncVal (Fn (f_id callee)) (f_type callee)))"
    and split: "split_ok split"
    using pre by (auto simp: new_call_block_pre_def)
  have blocks: "f_blocks ?F0 = f_blocks f @ [\<lparr>b_id = ?n, b_name = ''.fuse.callblock'', b_insts = []\<rparr>]"
    and nxt: "f_next ?F0 = Suc ?n" "f_id ?F0 = f_id f"
    by (simp_all add: new_block_def append_block_def)
  have insts: "func_insts ?F0 = func_insts f" by (simp add: func_insts_def blocks)
  have bids: "?n \<notin> b_id ` set (f_blocks f)" using wf by (force simp: wf_func_def fresh_ids_def)
  have wf0: "wf_func ?F0"
    using wf bids unfolding wf_func_def insts nxt blocks by (auto simp: fresh_ids_def less_Suc_eq)
  have ids: "i_id i < ?n" if "i \<in> set (func_insts f)" for i
    using wf that by (auto simp: wf_func_def fresh_ids_def)
  have "distinct cs" using cs(2) wf_func_distinct[OF wf] by (auto simp: subseq_conv_nths distinct_nthsI)
  moreover have "site_ready ?F0 c" if "c \<in> set cs" for c using site that by (auto simp: site_ready_def blocks)
  moreover have "find_block ?F0 ?n = Some \<lparr>b_id = ?n, b_name = ''.fuse.callblock'', b_insts = []\<rparr>"
    using find_block_member[OF wf0, of "\<lparr>b_id = ?n, b_name = ''.fuse.callblock'', b_insts = []\<rparr>"] by (simp add: blocks)
  ultimately have inv0: "split_inv ?n ?F0 [] cs"
    using wf0 cs(2) ne by (auto simp: split_inv_def insts blocks)
  from split_loop[OF split inv0, of ?n] nxt obtain g links H where loop:
    "rfold (split_call_site split ?n) cs (?F0, [], []) = Inr (g, links_orig links, links_ret links)"
    "split_inv ?n g links []" "map fst links = cs" "renames_phis H" "f_id g = f_id f" "Suc ?n \<le> f_next g"
    "filter (\<lambda>i. i_id i < ?n) (func_insts g) = map H (filter (\<lambda>i. i_id i < ?n) (func_insts f))"
    "\<forall>i \<in> set (func_insts g). i \<in> H ` set (func_insts f) \<or> i_kind i = Br ?n"
    "map b_id (take 1 (f_blocks g)) = map b_id (take 1 (f_blocks ?F0))"
    by (auto simp: links_orig_def links_ret_def insts)
  have flt: "filter (\<lambda>i. i_id i < ?n) (func_insts f) = func_insts f" using ids by (simp add: filter_True)
  have wfg: "wf_func g" using loop(2) by (simp add: split_inv_def)
  have "\<exists>ci. find_inst g c = Some ci \<and> i_kind ci = Call (f_type callee) (argv c) (FuncVal (Fn (f_id callee)) (f_type callee)) \<and> c < ?n"
    if c: "c \<in> set cs" for c
  proof -
    obtain ci where ci: "find_inst f c = Some ci" "i_kind ci = Call (f_type callee) (argv c) (FuncVal (Fn (f_id callee)) (f_type callee))"
      using site c by fastforce
    have "H ci = ci" using ci(2) by (intro renames_phis_simps(2)[OF loop(4)]) simp
    then have "ci \<in> set (filter (\<lambda>i. i_id i < ?n) (func_insts g))"
      unfolding loop(7) flt using find_inst_Some[OF ci(1)] by force
    then show ?thesis using find_inst_member[OF wfg, of ci] find_inst_Some[OF ci(1)] ci(2) by auto
  qed
  moreover have "\<exists>eb bs. f_blocks g = eb # bs \<and> b_id eb \<noteq> ?n"
  proof -
    obtain c where "c \<in> set cs" using cs(1) by (meson list.set_sel(1))
    then have "f_blocks f \<noteq> []" using site by (auto simp: site_ready_def)
    then show ?thesis using loop(9) bids by (cases "f_blocks f"; cases "f_blocks g") (auto simp: blocks)
  qed
  moreover have "settled_blocks {?n} g" if "settled_blocks {} f"
  proof -
    have "settled_blocks {?n} ?F0" using that by (auto simp: settled_blocks_def blocks)
    then show ?thesis using split_loop_settled[OF split inv0, of g] loop(1) by (simp add: links_orig_def links_ret_def)
  qed
  ultimately show ?thesis using loop flt by (intro exI[of _ g] exI[of _ links] exI[of _ H]) auto
qed

section \<open>The whole call block\<close>

text \<open>The base is the split caller, with the variable for the return value where there is one.\<close>

definition with_buffer :: "bool \<Rightarrow> nat \<Rightarrow> ir_inst \<Rightarrow> ir_func \<Rightarrow> ir_func" where
  "with_buffer void x al g = (if void then g else insert_before x al g)"

definition buffer_edit :: "bool \<Rightarrow> nat \<Rightarrow> ir_inst \<Rightarrow> ir_inst list \<Rightarrow> ir_inst list" where
  "buffer_edit void x al is = (if void then is else ins_before i_id x al is)"

lemma with_buffer_map: "with_buffer void x al g = map_blocks (on_insts (buffer_edit void x al)) g"
  unfolding with_buffer_def by (cases void) (simp_all add: buffer_edit_def[abs_def] map_blocks_id insert_before_def)

lemma add_buffer_or_not:
  assumes st: "cbstate cb g (L @ [call]) n" and call: "i_id call = comb" and entry: "f_blocks g = eb # bs" "b_id eb \<noteq> cb"
    and ne: "\<forall>b \<in> set (f_blocks g). b_id b \<noteq> cb \<longrightarrow> b_insts b \<noteq> []"
  shows "\<exists>x al S n'. (if rty \<noteq> VoidTy then add_return_buffer comb name rty (with_block cb (L @ [call]) n g) else Inr (with_block cb (L @ [call]) n g))
      = Inr (with_block cb (L @ call # S) n' (with_buffer (rty = VoidTy) x al g))
    \<and> cbstate cb (with_buffer (rty = VoidTy) x al g) (L @ call # S) n'
    \<and> i_id al = n \<and> is_alloca (i_kind al) \<and> n \<le> n' \<and> (\<forall>i \<in> set S. n \<le> i_id i)
    \<and> map i_kind S = (if rty = VoidTy then [] else [Store (InstVal comb) (InstVal n)])"
proof (cases "rty = VoidTy")
  case True
  then show ?thesis
    using st by (intro exI[of _ 0] exI[of _ "buffer_alloca name n rty"] exI[of _ "[]"] exI[of _ n]) (simp add: with_buffer_def)
next
  case False
  obtain front rest where "b_insts eb = front # rest" using ne entry by (cases "b_insts eb") auto
  from add_return_buffer_ok[OF st call entry(1) this, of name rty] False show ?thesis
    by (intro exI[of _ "i_id front"] exI[of _ "buffer_alloca name n rty"] exI[of _ "[buffer_store name comb n]"] exI[of _ "Suc (Suc n)"])
      (simp add: with_buffer_def)
qed

lemma buffer_edit_last: "\<exists>is'. buffer_edit void x al (is @ [i]) = is' @ [i]"
  using ins_before_last[of i_id x al "is" i] by (auto simp: buffer_edit_def)

lemma buffer_edit_old:
  "\<not> i_id al < n0 \<Longrightarrow> filter (\<lambda>i. i_id i < n0) (buffer_edit void x al is) = filter (\<lambda>i. i_id i < n0) is"
  by (simp add: buffer_edit_def filter_ins_before)

lemma retire_buffer_old:
  assumes "\<not> i_id al < n0"
  shows "filter (\<lambda>i. i_id i < n0) (retire_list cs comb (buffer_edit void x al is)) =
    map (fused_inst cs comb) (kept cs (filter (\<lambda>i. i_id i < n0) is))"
proof -
  have "filter (\<lambda>i. i_id i < n0) (retire_list cs comb js) = map (fused_inst cs comb) (kept cs (filter (\<lambda>i. i_id i < n0) js))" for js
    by (induction js) (auto simp: retire_list_def kept_def)
  then show ?thesis by (simp add: buffer_edit_old[OF assms])
qed

lemma retire_list_last:
  "i_kind br = Br b \<Longrightarrow> i_id br \<notin> set cs \<Longrightarrow> retire_list cs comb (is @ [br]) = retire_list cs comb is @ [br]"
  by (simp add: retire_list_def fused_inst_def)

lemma fused_arguments:
  assumes "\<forall>x \<in> set xs. x \<notin> set cs"
  shows "map (fused_value cs comb) (map InstVal xs) = map InstVal xs"
  using assms by (auto simp: fused_value_def)

definition call_kind :: "ir_func \<Rightarrow> ir_inst list \<Rightarrow> ir_value ikind" where
  "call_kind callee nodes =
     Call (f_type callee) (map (\<lambda>i. InstVal (i_id i)) nodes) (FuncVal (Fn (f_id callee)) (f_type callee))"

definition fused_incoming :: "nat list \<Rightarrow> nat \<Rightarrow> (ir_value \<times> nat) list \<Rightarrow> (ir_value \<times> nat) list" where
  "fused_incoming cs comb ins = map (\<lambda>(v, b). (fused_value cs comb v, b)) ins"

text \<open>The contents of the call block, up to names, types and metadata.\<close>

definition call_block_of :: "ir_func \<Rightarrow> (nat \<Rightarrow> ir_value list) \<Rightarrow> nat list \<Rightarrow> link list \<Rightarrow> nat \<Rightarrow> ir_func \<Rightarrow> nat \<Rightarrow> bool" where
  "call_block_of callee argv cs links cb g comb \<longleftrightarrow>
     (\<exists>nm nodes from m1 call st m2 sw u buf ub. find_block g cb = Some \<lparr>b_id = cb, b_name = nm, b_insts = nodes @ [from, m1, call] @ st @ [m2, sw]\<rparr>
        \<and> map i_kind nodes = map (\<lambda>k. PHI (fused_incoming cs comb (arg_values argv links k))) [0..<length (param_types (f_type callee))]
        \<and> i_kind from = PHI (return_numbers (links_ret links)) \<and> i_kind m1 = donothing_call
        \<and> i_kind call = call_kind callee nodes \<and> i_id call = comb
        \<and> map i_kind st = (if return_type (f_type callee) = VoidTy then [] else [Store (InstVal comb) (InstVal buf)])
        \<and> i_kind m2 = donothing_call \<and> i_kind sw = Switch (InstVal (i_id from)) u (return_cases (links_ret links))
        \<and> find_block g u = Some ub \<and> is_unreachable_block ub)"

lemma build_call_block:
  assumes pre: "new_call_block_pre split callee argv cs f"
  shows "\<exists>g0 links H x al comb L n F. rfold (split_call_site split (f_next f)) cs (new_block ''.fuse.callblock'' f, [], []) = Inr (g0, links_orig links, links_ret links)
    \<and> split_inv (f_next f) g0 links [] \<and> map fst links = cs \<and> renames_phis H \<and> f_id g0 = f_id f
    \<and> filter (\<lambda>i. i_id i < f_next f) (func_insts g0) = map H (func_insts f)
    \<and> (\<forall>i \<in> set (func_insts g0). i \<in> H ` set (func_insts f) \<or> i_kind i = Br (f_next f))
    \<and> (\<forall>c \<in> set cs. c < f_next f \<and> (\<exists>ci. find_inst g0 c = Some ci \<and> is_call (i_kind ci)))
    \<and> f_next f < i_id al \<and> f_next f < comb \<and> is_alloca (i_kind al)
    \<and> new_call_block split callee cs f = Inr (add_dispatch (f_next f) comb (f_name callee) (links_ret links) (with_block (f_next f) L n F), comb)
    \<and> F = map_blocks (on_insts (\<lambda>is. retire_list cs comb (buffer_edit (return_type (f_type callee) = VoidTy) x al is))) g0
    \<and> (settled_blocks {} f \<longrightarrow> settled_blocks {f_next f} g0)
    \<and> cbstate (f_next f) F L n \<and> (\<forall>i \<in> set L. f_next f < i_id i)
    \<and> (\<exists>nodes call S buf. L = nodes @ call # S
        \<and> map i_kind nodes = map (\<lambda>k. PHI (fused_incoming cs comb (arg_values argv links k))) [0..<length (param_types (f_type callee))]
        \<and> i_kind call = call_kind callee nodes \<and> i_id call = comb \<and> f_next f < buf
        \<and> map i_kind S = (if return_type (f_type callee) = VoidTy then [] else [Store (InstVal comb) (InstVal buf)]))"
proof -
  let ?cb = "f_next f" and ?ps = "param_types (f_type callee)" and ?rty = "return_type (f_type callee)" and ?nm = "f_name callee"
  from start_split[OF pre] obtain g0 links H where g0:
    "rfold (split_call_site split ?cb) cs (new_block ''.fuse.callblock'' f, [], []) = Inr (g0, links_orig links, links_ret links)"
    "split_inv ?cb g0 links []" "map fst links = cs" "renames_phis H" "f_id g0 = f_id f" "?cb < f_next g0"
    "filter (\<lambda>i. i_id i < ?cb) (func_insts g0) = map H (func_insts f)"
    "\<forall>i \<in> set (func_insts g0). i \<in> H ` set (func_insts f) \<or> i_kind i = Br ?cb"
    "\<exists>eb bs. f_blocks g0 = eb # bs \<and> b_id eb \<noteq> ?cb"
    "\<forall>c \<in> set cs. c < ?cb \<and> (\<exists>ci. find_inst g0 c = Some ci
          \<and> i_kind ci = Call (f_type callee) (argv c) (FuncVal (Fn (f_id callee)) (f_type callee)))"
    "settled_blocks {} f \<longrightarrow> settled_blocks {?cb} g0"
    by blast
  obtain nmb where wf0: "wf_func g0" "find_block g0 ?cb = Some \<lparr>b_id = ?cb, b_name = nmb, b_insts = []\<rparr>"
    using g0(2) by (auto simp: split_inv_def)
  note st0 = find_block_cb_state[OF wf0]
  have dist: "distinct (map fst links)" using g0(2) by (simp add: split_inv_def)
  let ?N = "f_next g0"
  let ?n1 = "?N + length ?ps"
  have "\<exists>ci. find_inst g0 c = Some ci \<and> i_kind ci = Call (f_type callee) (argv c) (FuncVal (Fn (f_id callee)) (f_type callee))
       \<and> 0 + length ?ps \<le> length (argv c)" if "c \<in> fst ` set links" for c
    using that g0(3,10) pre unfolding new_call_block_pre_def by fastforce
  from arg_loop[OF st0(1) this dist, of ?nm "[]"] st0(2) g0(3) obtain nodes where nodes:
    "rfold (add_arg_node ?cb ?nm (links_orig links) cs) (enumerate 0 ?ps) (g0, []) =
      Inr (with_block ?cb nodes ?n1 g0, map InstVal [?N..<?n1])"
    "cbstate ?cb g0 nodes ?n1"
    "nodes = map (\<lambda>j. arg_node ?nm (?N + j) (0 + j) (?ps ! j) (arg_values argv links (0 + j))) [0..<length ?ps]"
    by auto
  have node_ids: "map i_id nodes = [?N..<?n1]"
    unfolding nodes(3) by (simp add: comp_def map_add_upt del: upt_Suc) (simp add: add.commute map_add_upt)
  let ?call = "mk_inst ?n1 (Call (f_type callee) (map InstVal [?N..<?n1]) (FuncVal (Fn (f_id callee)) (f_type callee))) ?rty ''''"
  have st1: "cbstate ?cb g0 (nodes @ [?call]) (Suc ?n1)" by (rule cbstate_append[OF nodes(2)]) simp
  obtain eb bs where entry: "f_blocks g0 = eb # bs" "b_id eb \<noteq> ?cb" using g0(9) by blast
  have ne: "\<forall>b \<in> set (f_blocks g0). b_id b \<noteq> ?cb \<longrightarrow> b_insts b \<noteq> []" using g0(2) by (simp add: split_inv_def)
  from add_buffer_or_not[OF st1 _ entry ne, of ?n1 ?rty ?nm] obtain x al S n where buf:
    "(if ?rty \<noteq> VoidTy then add_return_buffer ?n1 ?nm ?rty (with_block ?cb (nodes @ [?call]) (Suc ?n1) g0) else Inr (with_block ?cb (nodes @ [?call]) (Suc ?n1) g0))
      = Inr (with_block ?cb (nodes @ ?call # S) n (with_buffer (?rty = VoidTy) x al g0))"
    "cbstate ?cb (with_buffer (?rty = VoidTy) x al g0) (nodes @ ?call # S) n"
    "i_id al = Suc ?n1" "is_alloca (i_kind al)" "Suc ?n1 \<le> n" "\<forall>i \<in> set S. Suc ?n1 \<le> i_id i"
    "map i_kind S = (if ?rty = VoidTy then [] else [Store (InstVal ?n1) (InstVal (Suc ?n1))])"
    by auto
  let ?B = "with_buffer (?rty = VoidTy) x al g0" and ?L = "nodes @ ?call # S" and ?K = "fused_inst cs ?n1"
  have csn: "\<forall>c \<in> set cs. c < ?cb" using g0(10) by blast
  have comb: "?n1 \<notin> set cs" using csn g0(6) by force
  have Lids: "\<forall>i \<in> set ?L. ?cb < i_id i"
  proof
    fix i assume "i \<in> set ?L"
    then consider "i_id i \<in> set (map i_id nodes)" | "i_id i = ?n1" | "i \<in> set S" by auto
    then show "?cb < i_id i"
    proof cases
      case 1
      then show ?thesis unfolding node_ids using g0(6) by simp
    next
      case 3
      then have "Suc ?n1 \<le> i_id i" using buf(6) by blast
      then show ?thesis using g0(6) by simp
    qed (use g0(6) in simp)
  qed
  then have away: "\<forall>i \<in> set ?L. i_id i \<notin> set cs" using csn by fastforce
  note ret = cbstate_retire[OF buf(2) away, of ?n1]
  let ?F = "map_blocks (on_insts (retire_list cs ?n1)) ?B"
  have F: "?F = map_blocks (on_insts (\<lambda>is. retire_list cs ?n1 (buffer_edit (?rty = VoidTy) x al is))) g0"
    unfolding with_buffer_map map_blocks_comp on_insts_comp by (simp add: comp_def)
  have retired: "fold (retire_call ?n1) cs (with_block ?cb ?L n ?B) = with_block ?cb (map ?K ?L) n ?F"
    unfolding retire_calls_map[OF comb] with_block_map ret(2) ..
  have run: "new_call_block split callee cs f = Inr (add_dispatch ?cb ?n1 ?nm (links_ret links) (with_block ?cb (map ?K ?L) n ?F), ?n1)"
    unfolding new_call_block_def Let_def g0(1) rbind.simps prod.case nodes(1) with_block_frame with_block_new_at_end
      buf(1) rmap_simps retired ..
  have "map i_kind (map ?K nodes) = map (\<lambda>k. PHI (fused_incoming cs ?n1 (arg_values argv links k))) [0..<length ?ps]"
    by (simp add: nodes(3) fused_incoming_def comp_def map_prod_def)
  moreover have "i_kind (?K ?call) = call_kind callee (map ?K nodes)"
  proof -
    have "\<forall>x \<in> set [?N..<?n1]. x \<notin> set cs" using csn g0(6) by force
    from fused_arguments[OF this, of ?n1] have "map (fused_value cs ?n1) (map InstVal [?N..<?n1]) = map InstVal [?N..<?n1]" .
    moreover have "map (\<lambda>i. InstVal (i_id i)) (map ?K nodes) = map InstVal (map i_id nodes)" by simp
    moreover have "FuncVal h t \<notin> InstVal ` set cs" for h t by auto
    ultimately show ?thesis unfolding node_ids by (simp add: call_kind_def fused_value_def)
  qed
  moreover have "map i_kind (map ?K S) = (if ?rty = VoidTy then [] else [Store (InstVal ?n1) (InstVal (Suc ?n1))])"
  proof -
    have "Suc ?n1 \<notin> set cs" using csn g0(6) by force
    moreover have "map i_kind (map ?K S) = map (map_ikind (fused_value cs ?n1)) (map i_kind S)" by simp
    ultimately show ?thesis unfolding buf(7) using comb by (auto simp: fused_value_def)
  qed
  moreover have "map ?K ?L = map ?K nodes @ ?K ?call # map ?K S" "i_id (?K ?call) = ?n1" by simp_all
  moreover have "\<forall>i \<in> set (map ?K ?L). ?cb < i_id i" using Lids by auto
  moreover have "?cb < Suc ?n1" "?cb < i_id al" "?cb < ?n1" using g0(6) buf(3) by simp_all
  moreover have "\<forall>c \<in> set cs. c < ?cb \<and> (\<exists>ci. find_inst g0 c = Some ci \<and> is_call (i_kind ci))" using g0(10) by fastforce
  moreover note ret(1) run F g0(1-5,7,8,11) buf(4)
  ultimately show ?thesis by blast
qed

text \<open>After the edits outside the call block every instruction is a renamed survivor, or the new
  unreachable terminator.\<close>

lemma edited_insts:
  assumes blocks: "f_blocks F = map (on_insts (\<lambda>is. retire_list cs comb (E is))) bs @ ub"
    and ub: "\<forall>b \<in> set ub. is_unreachable_block b \<and> (\<forall>i \<in> set (b_insts b). n \<le> i_id i)"
    and i: "i \<in> set (func_insts F)"
  shows "(\<exists>j. i_id j \<notin> set cs \<and> i = fused_inst cs comb j) \<or> n \<le> i_id i \<and> i_kind i = Unreachable"
proof -
  from i obtain bl where bl: "bl \<in> set (f_blocks F)" "i \<in> set (b_insts bl)" by (auto simp: func_insts_def)
  show ?thesis
  proof (cases "bl \<in> set ub")
    case True
    then have "is_unreachable_block bl" "n \<le> i_id i" using ub bl(2) by blast+
    moreover obtain j js where "b_insts bl = j # js" using bl(2) by (cases "b_insts bl") auto
    ultimately show ?thesis using bl(2) by (cases js) (auto simp: is_unreachable_block_def)
  next
    case False
    then show ?thesis using bl by (auto simp: blocks retire_list_def)
  qed
qed

lemma fused_value_avoids:
  assumes "comb \<notin> set cs" "c \<in> set cs"
  shows "InstVal c \<notin> fused_value cs comb ` A"
  using assms by (auto simp: fused_value_def)

text \<open>The instructions of the call block use none of the calls.\<close>

lemma call_block_avoids:
  assumes c: "c \<in> set cs" "c < cb" "comb \<notin> set cs" "cb < buf"
    and ids: "\<forall>i \<in> set (nodes @ [fr, m1, call] @ S @ [m2, sw]). cb < i_id i"
    and kinds: "map i_kind nodes = map (\<lambda>k. PHI (fused_incoming cs comb (A k))) ks" "i_kind call = call_kind callee nodes"
      "map i_kind S = (if void then [] else [Store (InstVal comb) (InstVal buf)])" "i_kind fr = PHI (return_numbers rets)"
      "i_kind sw = Switch (InstVal (i_id fr)) u (return_cases rets)" "i_kind m1 = donothing_call" "i_kind m2 = donothing_call"
    and i: "i \<in> set (nodes @ [fr, m1, call] @ S @ [m2, sw])"
  shows "\<not> uses (InstVal c) i"
proof -
  consider "i \<in> set nodes" | "i \<in> set S" | "i \<in> {fr, m1, m2, sw}" | "i = call" using i by auto
  then show ?thesis
  proof cases
    case 1
    then have "i_kind i \<in> set (map i_kind nodes)" by simp
    then obtain k where "i_kind i = PHI (fused_incoming cs comb (A k))" unfolding kinds(1) by auto
    moreover have "fst ` set (fused_incoming cs comb ins) = fused_value cs comb ` fst ` set ins" for ins
      by (force simp: fused_incoming_def)
    ultimately show ?thesis using fused_value_avoids[OF c(3,1)] by (simp add: uses_def)
  next
    case 2
    then have "i_kind i \<in> set (map i_kind S)" by simp
    then have "i_kind i = Store (InstVal comb) (InstVal buf)" unfolding kinds(3) by (auto split: if_splits)
    then show ?thesis using c by (auto simp: uses_def)
  next
    case 3
    have "InstVal c \<notin> fst ` set (return_numbers rets)" by (auto simp: return_numbers_def)
    moreover have "c \<noteq> i_id fr" using ids c(2) by auto
    ultimately show ?thesis using 3 kinds(4-7) by (auto simp: uses_def donothing_call_def)
  next
    case 4
    have "InstVal c \<noteq> InstVal (i_id j)" if "j \<in> set nodes" for j
    proof -
      have "cb < i_id j" using ids that by simp
      then show ?thesis using c(2) by simp
    qed
    then show ?thesis using kinds(2) by (auto simp: 4 uses_def call_kind_def)
  qed
qed

lemma calls_gone:
  assumes insts: "set (func_insts g) \<subseteq> set (func_insts F) \<union> set L"
    and rest: "\<And>i. i \<in> set (func_insts F) \<Longrightarrow>
      (\<exists>j. i_id j \<notin> set cs \<and> i = fused_inst cs comb j) \<or> n \<le> i_id i \<and> i_kind i = Unreachable"
    and L: "\<And>i. i \<in> set L \<Longrightarrow> cb < i_id i \<and> \<not> uses (InstVal c) i"
    and c: "c \<in> set cs" "c < cb" "comb \<notin> set cs" "cb < n"
  shows "find_inst g c = None \<and> users g (InstVal c) = []"
proof -
  have each: "i_id i \<noteq> c \<and> \<not> uses (InstVal c) i" if i: "i \<in> set (func_insts g)" for i
  proof (cases "i \<in> set L")
    case True
    then show ?thesis using L c(2) by fastforce
  next
    case False
    then have "i \<in> set (func_insts F)" using i insts by blast
    from rest[OF this] show ?thesis
      using c fused_value_avoids[OF c(3,1)] by (auto simp: uses_def operands_map)
  qed
  then have "c \<notin> i_id ` set (func_insts g)" by blast
  then have "find_inst g c = None" by (simp add: find_inst_def at_id_None)
  moreover have "set (users g (InstVal c)) = {}" using each by (auto simp: set_users)
  ultimately show ?thesis by simp
qed

lemma settled_retired:
  assumes "settled is" and "i_id (last is) \<notin> set cs"
  shows "settled (retire_list cs comb is)"
proof -
  obtain js j where "is": "is = js @ [j]" using assms(1) by (cases "is" rule: rev_cases) (auto simp: settled_def)
  have "settled (filter (\<lambda>i. i_id i \<notin> set cs) is)"
    using assms unfolding settled_def "is" by (auto simp: sorted_wrt_append sorted_wrt_filter)
  moreover have "is_call (map_ikind h k) = is_call k" "is_phi (map_ikind h k) = is_phi k" "is_terminator (map_ikind h k) = is_terminator k"
    for h and k :: "ir_value ikind" by (cases k; simp)+
  ultimately show ?thesis unfolding retire_list_def by (intro settled_map) simp_all
qed

lemma call_block_settled:
  assumes "map i_kind nodes = map (\<lambda>k. PHI (A k)) ks" and "i_kind call = call_kind callee ns"
    and "map i_kind S = (if void then [] else [Store a b])" and "i_kind fr = PHI rs" and "i_kind sw = Switch v u rc"
    and "i_kind m1 = donothing_call" and "i_kind m2 = donothing_call"
  shows "settled (nodes @ [fr, m1, call] @ S @ [m2, sw])"
proof -
  have n: "\<not> is_call (i_kind i)" if "i \<in> set nodes" for i
  proof -
    have "i_kind i \<in> set (map i_kind nodes)" using that by simp
    then show ?thesis unfolding assms(1) by auto
  qed
  have s: "\<not> is_phi (i_kind i)" if "i \<in> set S" for i
  proof -
    have "i_kind i \<in> set (map i_kind S)" using that by simp
    then show ?thesis unfolding assms(3) by (auto split: if_splits)
  qed
  have "sorted_wrt (\<lambda>a b. is_call (i_kind a) \<longrightarrow> \<not> is_phi (i_kind b)) nodes"
    using n by (induction nodes) auto
  moreover have "sorted_wrt (\<lambda>a b. is_call (i_kind a) \<longrightarrow> \<not> is_phi (i_kind b)) S"
    using s by (induction S) auto
  ultimately show ?thesis
    using n s assms(2,4-7) by (auto simp: settled_def sorted_wrt_append call_kind_def donothing_call_def)
qed

lemma new_call_block_facts:
  assumes pre: "new_call_block_pre split callee argv cs f"
  shows "\<exists>g comb links K. new_call_block split callee cs f = Inr (g, comb) \<and> wf_func g \<and> f_id g = f_id f \<and> f_next f < comb
    \<and> map fst links = cs \<and> distinct (map (\<lambda>(c, P, R). P) links) \<and> fusion K cs comb
    \<and> (\<forall>(c, P, R) \<in> set links. resumes f cs K (f_next f) g c P R)
    \<and> call_block_of callee argv cs links (f_next f) g comb
    \<and> (\<forall>c \<in> set cs. find_inst g c = None \<and> users g (InstVal c) = [])
    \<and> (settled_blocks {} f \<longrightarrow> settled_blocks {} g)"
proof -
  let ?cb = "f_next f" and ?rty = "return_type (f_type callee)"
  from build_call_block[OF pre] obtain g0 links H x al comb L n F nodes call S buf where b:
    "split_inv ?cb g0 links []" "map fst links = cs" "renames_phis H" "f_id g0 = f_id f"
    "filter (\<lambda>i. i_id i < ?cb) (func_insts g0) = map H (func_insts f)"
    "\<forall>i \<in> set (func_insts g0). i \<in> H ` set (func_insts f) \<or> i_kind i = Br ?cb"
    "\<forall>c \<in> set cs. c < ?cb \<and> (\<exists>ci. find_inst g0 c = Some ci \<and> is_call (i_kind ci))"
    "?cb < i_id al" "?cb < comb" "is_alloca (i_kind al)"
    "new_call_block split callee cs f = Inr (add_dispatch ?cb comb (f_name callee) (links_ret links) (with_block ?cb L n F), comb)"
    "F = map_blocks (on_insts (\<lambda>is. retire_list cs comb (buffer_edit (?rty = VoidTy) x al is))) g0"
    "cbstate ?cb F L n" "\<forall>i \<in> set L. ?cb < i_id i" and set0: "settled_blocks {} f \<longrightarrow> settled_blocks {?cb} g0"
    and L: "L = nodes @ call # S"
    "map i_kind nodes = map (\<lambda>k. PHI (fused_incoming cs comb (arg_values argv links k))) [0..<length (param_types (f_type callee))]"
    "i_kind call = call_kind callee nodes" "i_id call = comb" "?cb < buf"
    "map i_kind S = (if ?rty = VoidTy then [] else [Store (InstVal comb) (InstVal buf)])"
    by blast
  from add_dispatch_ok[OF b(13)[unfolded L(1)] L(4), of "f_name callee" "links_ret links"] obtain F' n' u fr m1 m2 sw where d:
    "add_dispatch ?cb comb (f_name callee) (links_ret links) (with_block ?cb (nodes @ call # S) n F) =
      with_block ?cb (nodes @ [fr, m1, call] @ S @ [m2, sw]) n' F'"
    "i_kind fr = PHI (return_numbers (links_ret links))" "i_kind sw = Switch (InstVal (i_id fr)) u (return_cases (links_ret links))"
    "i_kind m1 = donothing_call" "i_kind m2 = donothing_call" "\<forall>i \<in> {fr, m1, m2, sw}. n \<le> i_id i"
    "cbstate ?cb F' (nodes @ [fr, m1, call] @ S @ [m2, sw]) n'" "f_id F' = f_id F"
    "F' = F \<or> (\<exists>ub. f_blocks F' = f_blocks F @ [ub] \<and> is_unreachable_block ub \<and> (\<forall>i \<in> set (b_insts ub). n \<le> i_id i))"
    "\<exists>b \<in> set (f_blocks F'). b_id b = u \<and> u \<noteq> ?cb \<and> is_unreachable_block b"
    by blast
  let ?L = "nodes @ [fr, m1, call] @ S @ [m2, sw]" and ?K = "fused_inst cs comb"
  let ?g = "with_block ?cb ?L n' F'"
  let ?e = "\<lambda>is. retire_list cs comb (buffer_edit (?rty = VoidTy) x al is)"
  have wf: "wf_func f" using pre by (simp add: new_call_block_pre_def)
  have wf0: "wf_func g0" using b(1) by (simp add: split_inv_def)
  have run: "new_call_block split callee cs f = Inr (?g, comb)" using b(11) d(1) by (simp add: L(1))
  note g = cbstate_wf[OF d(7)]
  obtain nm0 where cbg0: "find_block g0 ?cb = Some \<lparr>b_id = ?cb, b_name = nm0, b_insts = []\<rparr>" using b(1) by (auto simp: split_inv_def)
  have cb0: "b_insts b = []" if "b \<in> set (f_blocks g0)" "b_id b = ?cb" for b
    using find_block_member[OF wf0 that(1)] cbg0 unfolding that(2) by (metis ir_block.select_convs(3) option.inject)
  obtain ub where ub: "f_blocks F' = map (on_insts ?e) (f_blocks g0) @ ub"
    "\<forall>b \<in> set ub. is_unreachable_block b \<and> (\<forall>i \<in> set (b_insts b). n \<le> i_id i)"
    using d(9) by (auto simp: b(12))
  have n: "comb < n" using b(13) L(1,4) by (auto simp: cbstate_def fresh_ids_def)
  have dist: "distinct (map b_id (f_blocks F'))" using d(7) by (simp add: cbstate_def fresh_ids_def)
  have "?cb \<in> b_id ` set (f_blocks g0)" using find_block_Some[OF cbg0] by force
  then have "?cb \<notin> b_id ` set ub" using dist by (auto simp: ub(1))
  then have blocks: "f_blocks ?g = map (\<lambda>b. if b_id b = ?cb then on_insts (\<lambda>_. ?L) b else on_insts ?e b) (f_blocks g0) @ ub"
    by (simp add: with_block_def ub(1) upd_at_notin) (simp add: upd_at_def on_insts_def)
  have Lids: "\<forall>i \<in> set ?L. ?cb < i_id i" using b(14) d(6) n b(9) unfolding L(1) by auto
  have oldL: "\<forall>i \<in> set ?L. \<not> i_id i < ?cb" using Lids less_asym by blast
  have oldal: "\<not> i_id al < ?cb" using b(8) by simp
  have old_ub: "old_insts ?cb ub = []"
  proof -
    have "\<forall>i \<in> set (concat (map b_insts ub)). \<not> i_id i < ?cb" using ub(2) n b(9) by fastforce
    then show ?thesis by (simp add: old_insts_def filter_empty_conv)
  qed
  have brs: "\<exists>is'. ?e (is @ [br]) = is' @ [br]" if br: "br \<in> set (func_insts g0)" "i_kind br = Br ?cb" for "is" br
  proof -
    have "i_id br \<notin> set cs"
    proof
      assume "i_id br \<in> set cs"
      then obtain ci where "find_inst g0 (i_id br) = Some ci" "is_call (i_kind ci)" using b(7) by blast
      then show False using find_inst_member[OF wf0 br(1)] br(2) by simp
    qed
    moreover obtain is' where "buffer_edit (?rty = VoidTy) x al (is @ [br]) = is' @ [br]" using buffer_edit_last by blast
    ultimately show ?thesis using retire_list_last[OF br(2)] by auto
  qed
  have res: "resumes f cs (?K \<circ> H) ?cb ?g c P R" if in_links: "(c, P, R) \<in> set links" for c P R
  proof (rule resumes_of_linked[OF _ wf0 cb0 wf b(5) b(3) _ _ _ _ oldL blocks old_ub])
    show "linked ?cb g0 c P R" using b(1) in_links by (auto simp: split_inv_def)
    show "c \<in> set cs" using in_links b(2) by force
    then show "c < ?cb" using b(7) by blast
  qed (use retire_buffer_old[OF oldal] brs in auto)
  have cbo: "call_block_of callee argv cs links ?cb ?g comb"
  proof -
    obtain bu where bu: "bu \<in> set (f_blocks F')" "b_id bu = u" "u \<noteq> ?cb" "is_unreachable_block bu" using d(10) by blast
    then have "bu \<in> set (f_blocks ?g)" by (force simp: with_block_def upd_at_def)
    then have "find_block ?g u = Some bu" using find_block_member[OF g(1)] bu(2) by blast
    then show ?thesis
      unfolding call_block_of_def using g(3) d(2-5) L(2-6) bu(4) by blast
  qed
  have combcs: "comb \<notin> set cs" using b(7,9) by fastforce
  have gone: "find_inst ?g c = None \<and> users ?g (InstVal c) = []" if c: "c \<in> set cs" for c
  proof (rule calls_gone[where F = F' and L = ?L, OF _ _ _ c _ combcs])
    show "set (func_insts ?g) \<subseteq> set (func_insts F') \<union> set ?L" using g(2) by blast
    show "c < ?cb" using b(7) c by blast
    then show "?cb < i_id i \<and> \<not> uses (InstVal c) i" if "i \<in> set ?L" for i
      using call_block_avoids[OF c _ combcs L(5) Lids L(2,3,6) d(2-5) that] Lids that by blast
    show "?cb < n" using n b(9) by simp
  qed (rule edited_insts[OF ub])
  have "settled_blocks {} ?g" if "settled_blocks {} f"
  proof -
    have calls: "is_call (i_kind i)" if "i \<in> set (func_insts g0)" "i_id i \<in> set cs" for i
      using b(7) that find_inst_member[OF wf0 that(1)] by fastforce
    have "settled (?e (b_insts bl))" if "bl \<in> set (f_blocks g0)" "b_id bl \<noteq> ?cb" for bl
    proof -
      have s: "settled (b_insts bl)" using set0 \<open>settled_blocks {} f\<close> that by (simp add: settled_blocks_def)
      have l: "last (b_insts bl) \<in> set (func_insts g0)" "\<not> is_call (i_kind (last (b_insts bl)))"
        using s that(1) terminator_no_call by (auto simp: settled_def func_insts_def intro!: bexI[of _ bl])
      then have "i_id (last (b_insts bl)) \<notin> set cs" using calls by blast
      moreover have "settled (buffer_edit (?rty = VoidTy) x al (b_insts bl))"
        using s settled_insert[OF s, of al] b(10) by (cases "i_kind al") (simp_all add: buffer_edit_def)
      moreover have "last (buffer_edit (?rty = VoidTy) x al (b_insts bl)) = last (b_insts bl)"
        using s last_ins_before[of "b_insts bl" i_id x al] by (simp add: buffer_edit_def settled_def)
      ultimately show ?thesis by (intro settled_retired) simp_all
    qed
    moreover have "settled ?L" using call_block_settled[OF L(2,3,6) d(2-5)] .
    moreover have "settled (b_insts bl)" if "bl \<in> set ub" for bl
      using ub(2)[rule_format, OF that] unfolding is_unreachable_block_def by (auto simp: settled_def split: list.splits)
    ultimately show ?thesis unfolding settled_blocks_def blocks by auto
  qed
  moreover have "f_id ?g = f_id f" using d(8) b(4) by (simp add: b(12))
  moreover have "distinct (map (\<lambda>(c, P, R). P) links)" using b(1) by (simp add: split_inv_def)
  moreover have "\<forall>(c, P, R) \<in> set links. resumes f cs (?K \<circ> H) ?cb ?g c P R" using res by blast
  ultimately show ?thesis
    using run g(1) b(2,9) cbo gone fusion_renames[OF b(3), of cs comb] by blast
qed

section \<open>Entering and leaving the call block\<close>

text \<open>The value of a \<open>phi\<close> on entry from a block.\<close>

definition phi_value :: "(ir_value \<times> nat) list \<Rightarrow> nat \<Rightarrow> ir_value option" where
  "phi_value ins b = map_of (map (\<lambda>(v, b). (b, v)) ins) b"

text \<open>The block that the switch at the end of \<open>cb\<close> leads to, where \<open>cb\<close> was entered from \<open>P\<close>.\<close>

definition return_target :: "ir_func \<Rightarrow> nat \<Rightarrow> nat \<Rightarrow> nat option" where
  "return_target g cb P =
     (case find_block g cb of
        None \<Rightarrow> None
      | Some blk \<Rightarrow>
          (case map_option i_kind (terminator blk) of
             Some (Switch (InstVal x) d cs) \<Rightarrow>
               (case map_option i_kind (find_inst g x) of
                  Some (PHI ins) \<Rightarrow>
                    (case phi_value ins P of Some (ConstInt c) \<Rightarrow> Some (switch_target d cs c) | _ \<Rightarrow> None)
                | _ \<Rightarrow> None)
           | _ \<Rightarrow> None))"

text \<open>The arguments the call \<open>x\<close> gets, where its block was entered from \<open>P\<close>.\<close>

definition passed_argument :: "ir_func \<Rightarrow> nat \<Rightarrow> ir_value \<Rightarrow> ir_value option" where
  "passed_argument g P v =
     (case v of
        InstVal a \<Rightarrow> (case map_option i_kind (find_inst g a) of Some (PHI ins) \<Rightarrow> phi_value ins P | _ \<Rightarrow> None)
      | _ \<Rightarrow> None)"

definition passed_arguments :: "ir_func \<Rightarrow> nat \<Rightarrow> nat \<Rightarrow> ir_value option list option" where
  "passed_arguments g x P =
     (case map_option i_kind (find_inst g x) of
        Some (Call t as c) \<Rightarrow> Some (map (passed_argument g P) as)
      | _ \<Rightarrow> None)"

lemma phi_value_in: "distinct (map snd ins) \<Longrightarrow> (v, b) \<in> set ins \<Longrightarrow> phi_value ins b = Some v"
  unfolding phi_value_def by (rule map_of_is_SomeI) (force simp: comp_def split_def)+

lemma return_numbers_facts:
  assumes "distinct (map fst ret)" and "(P, R) \<in> set ret" and "length ret \<le> 2 ^ 32"
  shows "\<exists>c. phi_value (return_numbers ret) P = Some (ConstInt c) \<and> switch_target d (return_cases ret) c = R"
proof -
  obtain k where k: "k < length ret" "ret ! k = (P, R)" using assms(2) by (auto simp: in_set_conv_nth)
  let ?c = "\<lambda>k. cint_get 32 (of_nat k)"
  have "map snd (return_numbers ret) = map fst (map snd (enumerate 0 ret))"
    by (simp add: return_numbers_def comp_def split_def del: map_snd_enumerate)
  then have "map snd (return_numbers ret) = map fst ret" by simp
  moreover have "(k, P, R) \<in> set (enumerate 0 ret)" using k by (simp add: in_set_enumerate_eq)
  then have "(ConstInt (?c k), P) \<in> set (return_numbers ret)" "(?c k, R) \<in> set (return_cases ret)"
    by (force simp: return_numbers_def return_cases_def)+
  moreover have "distinct (map fst (return_cases ret))"
  proof -
    have "map fst (return_cases ret) = map ?c (map fst (enumerate 0 ret))"
      by (simp add: return_cases_def comp_def split_def del: map_fst_enumerate)
    then have "map fst (return_cases ret) = map ?c [0..<length ret]" by simp
    moreover have "inj_on ?c (set [0..<length ret])"
      by (rule inj_onI) (use assms(3) in \<open>auto simp: cint_get_inj\<close>)
    ultimately show ?thesis by (simp add: distinct_map)
  qed
  ultimately have "phi_value (return_numbers ret) P = Some (ConstInt (?c k))"
    and "find_case (return_cases ret) (?c k) = Some R"
    using phi_value_in assms(1) sw.target_added[of "[]" "return_cases ret" "?c k" R]
    by (auto simp: add_all_append case_values_def)
  then show ?thesis by (auto simp: switch_target_def)
qed

lemma arg_values_phi:
  assumes "distinct (map (\<lambda>(c, P, R). P) links)" and "(c, P, R) \<in> set links"
  shows "phi_value (fused_incoming cs comb (arg_values argv links k)) P = Some (fused_value cs comb (argv c ! k))"
proof (rule phi_value_in)
  show "distinct (map snd (fused_incoming cs comb (arg_values argv links k)))"
    using assms(1) by (simp add: fused_incoming_def arg_values_def comp_def split_def)
  show "(fused_value cs comb (argv c ! k), P) \<in> set (fused_incoming cs comb (arg_values argv links k))"
    using assms(2) by (force simp: fused_incoming_def arg_values_def)
qed

lemma call_block_inst:
  assumes "wf_func g" and "find_block g cb = Some blk" and "i \<in> set (b_insts blk)"
  shows "find_inst g (i_id i) = Some i"
  using assms find_block_Some[OF assms(2)] block_inst_func by (intro find_inst_member) auto

lemma call_block_call:
  assumes "wf_func g" and "call_block_of callee argv cs links cb g comb"
  shows "\<exists>nodes call. find_inst g comb = Some call \<and> i_kind call = call_kind callee nodes"
proof -
  obtain nm nodes fr m1 call st m2 sw where b:
    "find_block g cb = Some \<lparr>b_id = cb, b_name = nm, b_insts = nodes @ [fr, m1, call] @ st @ [m2, sw]\<rparr>"
    "i_kind call = call_kind callee nodes" "i_id call = comb"
    using assms(2) unfolding call_block_of_def by blast
  have "find_inst g (i_id call) = Some call" by (rule call_block_inst[OF assms(1) b(1)]) simp
  then show ?thesis using b(2,3) by blast
qed

lemma call_block_of_dispatch:
  assumes wf: "wf_func g" and cbo: "call_block_of callee argv cs links cb g comb"
    and dist: "distinct (map (\<lambda>(c, P, R). P) links)" and link: "(c, P, R) \<in> set links" and len: "length links \<le> 2 ^ 32"
    and args: "length (argv c) = length (param_types (f_type callee))"
  shows "return_target g cb P = Some R" and "passed_arguments g comb P = Some (map (\<lambda>v. Some (fused_value cs comb v)) (argv c))"
proof -
  obtain nm nodes fr m1 call st m2 sw u where b:
    "find_block g cb = Some \<lparr>b_id = cb, b_name = nm, b_insts = nodes @ [fr, m1, call] @ st @ [m2, sw]\<rparr>"
    "map i_kind nodes = map (\<lambda>k. PHI (fused_incoming cs comb (arg_values argv links k))) [0..<length (param_types (f_type callee))]"
    "i_kind fr = PHI (return_numbers (links_ret links))" "i_kind call = call_kind callee nodes" "i_id call = comb"
    "i_kind sw = Switch (InstVal (i_id fr)) u (return_cases (links_ret links))"
    using cbo unfolding call_block_of_def by blast
  note find = call_block_inst[OF wf b(1)]
  have fr: "find_inst g (i_id fr) = Some fr" by (rule find) simp
  have "distinct (map fst (links_ret links))" "(P, R) \<in> set (links_ret links)" "length (links_ret links) \<le> 2 ^ 32"
    using dist link len by (force simp: links_ret_def comp_def split_def)+
  from return_numbers_facts[OF this] obtain n where
    "phi_value (return_numbers (links_ret links)) P = Some (ConstInt n)" "switch_target u (return_cases (links_ret links)) n = R" by blast
  then show "return_target g cb P = Some R"
    by (simp add: return_target_def b(1,3,6) terminator_def fr)
  have call: "find_inst g comb = Some call" using find[of call] b(5) by simp
  have lens: "length nodes = length (argv c)" using arg_cong[OF b(2), of length] args by simp
  have "passed_argument g P (InstVal (i_id (nodes ! k))) = Some (fused_value cs comb (argv c ! k))" if "k < length nodes" for k
  proof -
    have "find_inst g (i_id (nodes ! k)) = Some (nodes ! k)" using that by (intro find) simp
    moreover have "i_kind (nodes ! k) = PHI (fused_incoming cs comb (arg_values argv links k))"
      using arg_cong[OF b(2), of "\<lambda>xs. xs ! k"] that lens args by simp
    ultimately show ?thesis using arg_values_phi[OF dist link] by (simp add: passed_argument_def)
  qed
  then have "map (passed_argument g P) (map (\<lambda>i. InstVal (i_id i)) nodes) = map (\<lambda>v. Some (fused_value cs comb v)) (argv c)"
    using lens by (intro nth_equalityI) simp_all
  then show "passed_arguments g comb P = Some (map (\<lambda>v. Some (fused_value cs comb v)) (argv c))"
    by (simp add: passed_arguments_def call b(4) call_kind_def)
qed

lemma resumes_branch:
  assumes "wf_func g" and "resumes f cs K cb g c P R"
  shows "\<exists>pb br. find_block g P = Some pb \<and> terminator pb = Some br \<and> i_kind br = Br cb"
proof -
  obtain pb br where "pb \<in> set (f_blocks g)" "b_id pb = P" "terminator pb = Some br" "i_kind br = Br cb"
    using assms(2) unfolding resumes_def by (metis in_set_conv_decomp)
  then show ?thesis using find_block_member[OF assms(1)] by blast
qed


text \<open>
  C3: A new call block leaves the order of the caller's instructions as it was: up to the block that was
  split at a call stand, in their order, the instructions from before the call, from the block right
  behind it on those from after the call, and only the calls themselves are missing. An instruction other
  than a \<open>phi\<close> keeps its address and all but the results of the calls among its operands.
\<close>

theorem call_block_keeps_order:
  assumes "new_call_block_pre split callee argv cs f"
  shows "\<exists>g comb links K. new_call_block split callee cs f = Inr (g, comb) \<and> map fst links = cs \<and> fusion K cs comb \<and>
    (\<forall>(c, P, R) \<in> set links. resumes f cs K (f_next f) g c P R)"
  using new_call_block_facts[OF assms] by blast

text \<open>
  C4: The results of all calls become the one result of the new call: an instruction that used the
  results of two different calls, and so needs both at once, uses the same value twice, and the result of
  the earlier call is lost.
\<close>

theorem call_block_merges_results:
  assumes "new_call_block_pre split callee argv cs f"
    and "find_inst f x = Some i" and "operands (i_kind i) = [InstVal c1, InstVal c2]" and "\<not> is_phi (i_kind i)"
    and "x \<notin> set cs" and "c1 \<in> set cs" and "c2 \<in> set cs"
  shows "\<exists>g comb j. new_call_block split callee cs f = Inr (g, comb) \<and> find_inst g x = Some j \<and>
    operands (i_kind j) = [InstVal comb, InstVal comb] \<and>
    users g (InstVal c1) = [] \<and> users g (InstVal c2) = []"
proof -
  from new_call_block_facts[OF assms(1)] obtain g comb links K where g:
    "new_call_block split callee cs f = Inr (g, comb)" "wf_func g" "map fst links = cs" "fusion K cs comb"
    "\<forall>(c, P, R) \<in> set links. resumes f cs K (f_next f) g c P R" "\<forall>c \<in> set cs. find_inst g c = None \<and> users g (InstVal c) = []"
    by blast
  obtain c P R where "(c, P, R) \<in> set links" using assms(6) g(3) by force
  then have "resumes f cs K (f_next f) g c P R" using g(5) by blast
  then obtain xs pb rb ys A ci B where r: "f_blocks g = xs @ pb # rb # ys" "func_insts f = A @ ci # B" "i_id ci = c"
    "old_insts (f_next f) (xs @ [pb]) = map K (kept cs A)" "old_insts (f_next f) (rb # ys) = map K (kept cs B)"
    unfolding resumes_def by blast
  have i: "i \<in> set (func_insts f)" "i_id i = x" using find_inst_Some[OF assms(2)] by auto
  have "c \<in> set cs" using \<open>(c, P, R) \<in> set links\<close> g(3) by force
  then have "i \<noteq> ci" using assms(5) i(2) r(3) by auto
  then have "i \<in> set (kept cs A) \<union> set (kept cs B)" using i assms(5) by (auto simp: r(2) kept_def)
  then have "K i \<in> set (old_insts (f_next f) (xs @ [pb])) \<union> set (old_insts (f_next f) (rb # ys))"
    unfolding r(4,5) by auto
  then have "K i \<in> set (func_insts g)" by (auto simp: func_insts_def r(1) old_insts_def)
  then have "find_inst g (i_id (K i)) = Some (K i)" by (rule find_inst_member[OF g(2)])
  moreover have "i_id (K i) = x" "operands (i_kind (K i)) = map (fused_value cs comb) (operands (i_kind i))"
    using g(4) i(2) by (simp_all add: fusion_def)
  ultimately show ?thesis using g(1,6) assms(3,6,7) by (simp add: fused_value_def)
qed

section \<open>Instances\<close>

lemma sum_caller_pre: "new_call_block_pre cut_block sum_callee sum_args [2, 3] sum_caller"
  unfolding new_call_block_pre_def
  by (simp add: cut_block_ok wf_func_def fresh_ids_def site_ready_def sum_eval)

lemma sum_links:
  assumes "map fst links = [2, 3 :: nat]"
  shows "\<exists>P R P' R'. links = [(2, P, R), (3, P', R')]"
  using assms by (cases links rule: remdups_adj.cases) auto


theorem call_block_keeps_order_witness:
  "\<exists>g comb K P R. new_call_block cut_block sum_callee [2, 3] sum_caller = Inr (g, comb) \<and> fusion K [2, 3] comb \<and>
    resumes sum_caller [2, 3] K (f_next sum_caller) g 2 P R"
proof -
  from call_block_keeps_order[OF sum_caller_pre] obtain g comb links K where g:
    "new_call_block cut_block sum_callee [2, 3] sum_caller = Inr (g, comb)" "map fst links = [2, 3]" "fusion K [2, 3] comb"
    "\<forall>(c, P, R) \<in> set links. resumes sum_caller [2, 3] K (f_next sum_caller) g c P R"
    by (elim exE conjE) (rule that; assumption)
  obtain P R P' R' where "links = [(2, P, R), (3, P', R')]" using sum_links[OF g(2)] by blast
  with g show ?thesis by auto
qed

theorem call_block_merges_results_witness:
  "\<exists>g comb j. new_call_block cut_block sum_callee [2, 3] sum_caller = Inr (g, comb) \<and> find_inst g 4 = Some j \<and>
    operands (i_kind j) = [InstVal comb, InstVal comb] \<and>
    users g (InstVal 2) = [] \<and> users g (InstVal 3) = []"
  by (rule call_block_merges_results[OF sum_caller_pre, of _ "demo_inst 4 (OtherInst ''add'' [InstVal 2, InstVal 3])"])
    (simp_all add: sum_eval)

end
