(* ===== verification/Fuse_Driver.thy ===== *)
theory Fuse_Driver
  imports Fuse_Functions
begin

text \<open>
  The driver of \<open>fuse-functions\<close>: its loop need not end. Inlining a function that calls itself leaves a call
  of it in the caller, which is a candidate again.
\<close>

section \<open>Inlining a straight-line function\<close>

text \<open>
  What the code relies on of \<open>InlineFunction\<close>, for a callee without parameters and result that consists of
  one block, whose instructions use no value of the callee and allocate nothing: it succeeds, and the call
  is replaced by copies of the instructions before the return, with new addresses.
\<close>

definition closed_inst :: "ir_inst \<Rightarrow> bool" where
  "closed_inst i \<longleftrightarrow> \<not> is_alloca (i_kind i) \<and> \<not> is_phi (i_kind i) \<and> \<not> is_terminator (i_kind i)
     \<and> (\<forall>v \<in> set (operands (i_kind i)). case v of InstVal x \<Rightarrow> False | ArgVal a \<Rightarrow> False | _ \<Rightarrow> True)"

definition inlines_straight_line :: "(call_site \<Rightarrow> ir_module \<Rightarrow> ir_module option) \<Rightarrow> bool" where
  "inlines_straight_line inline \<longleftrightarrow>
     (\<forall>m h caller xs b ys pre ci post g callee eb body ret.
        find_func m h = Some caller \<longrightarrow> wf_func caller \<longrightarrow> f_blocks caller = xs @ b # ys \<longrightarrow> b_insts b = pre @ ci # post \<longrightarrow>
        i_kind ci = Call (FuncTy VoidTy [] False) [] (FuncVal (Fn g) (FuncTy VoidTy [] False)) \<longrightarrow>
        find_func m g = Some callee \<longrightarrow> f_blocks callee = [eb] \<longrightarrow> b_insts eb = body @ [ret] \<longrightarrow>
        i_kind ret = Ret None \<longrightarrow> (\<forall>i \<in> set body. closed_inst i) \<longrightarrow>
        (\<exists>caller' copies. inline (h, i_id ci) m = Some (upd_func h (\<lambda>_. caller') m)
           \<and> map i_kind copies = map i_kind body \<and> wf_func caller'
           \<and> f_blocks caller' = xs @ b\<lparr>b_insts := pre @ copies @ post\<rparr> # ys
           \<and> f_id caller' = f_id caller \<and> f_optnone caller' = f_optnone caller \<and> f_noinline caller' = f_noinline caller))"

section \<open>A caller of a function that calls itself\<close>

definition void_call :: "nat \<Rightarrow> ir_value ikind" where
  "void_call g = Call (FuncTy VoidTy [] False) [] (FuncVal (Fn g) (FuncTy VoidTy [] False))"

text \<open>The function is a call of \<open>g\<close> and a return.\<close>

definition calls_and_returns :: "nat \<Rightarrow> nat \<Rightarrow> ir_func \<Rightarrow> bool" where
  "calls_and_returns g x f \<longleftrightarrow> wf_func f
     \<and> (\<exists>b ci ret. f_blocks f = [b] \<and> b_insts b = [ci, ret] \<and> i_id ci = x \<and> i_kind ci = void_call g \<and> i_kind ret = Ret None)"

definition recursive_pair :: "bool \<Rightarrow> ir_module \<Rightarrow> call_site \<Rightarrow> bool" where
  "recursive_pair ig m c \<longleftrightarrow>
     (\<exists>caller callee y. m_funcs m = [caller, callee] \<and> f_id caller = fst c \<and> f_id callee \<noteq> fst c
        \<and> considered_func ig caller \<and> calls_and_returns (f_id callee) (snd c) caller \<and> calls_and_returns (f_id callee) y callee)"

definition stuck :: "bool \<Rightarrow> fuse_state \<times> call_site list \<Rightarrow> bool" where
  "stuck ig st \<longleftrightarrow> failedInlineCallSites (fst st) = [] \<and> (\<exists>c. snd st = [c] \<and> recursive_pair ig (fs_module (fst st)) c)"

lemma void_call_simps [simp]: "is_call (void_call g)" "call_parts (void_call g) = Some (FuncTy VoidTy [] False, [], FuncVal (Fn g) (FuncTy VoidTy [] False))"
  "called_function (void_call g) = Some (Fn g)" "is_inline_asm (void_call g) = False"
  by (simp_all add: void_call_def called_function_def is_inline_asm_def)

lemma pair_find:
  assumes "m_funcs m = [caller, callee]" and "f_id callee \<noteq> f_id caller"
  shows "find_func m (f_id caller) = Some caller" "find_func m (f_id callee) = Some callee"
    and "f_id f' = f_id caller \<Longrightarrow> m_funcs (upd_func (f_id caller) (\<lambda>_. f') m) = [f', callee]"
    and "upd_func (f_id caller) (\<lambda>_. caller) m = m"
  using assms by (auto simp: find_func_def upd_func_def)

text \<open>The caller's one candidate is its call; the callee's call of itself is none.\<close>

lemma pair_candidates:
  assumes "m_funcs m = [caller, callee]" and "f_id callee \<noteq> f_id caller" and "considered_func ig caller"
    and "calls_and_returns (f_id callee) x caller" and "calls_and_returns (f_id callee) y callee"
  shows "get_candidate_call_sites m ig [] = [(f_id caller, [(f_id callee, [x])])]"
proof -
  have dec: "\<not> is_declaration callee" using assms(5) by (auto simp: is_declaration_def func_empty_def calls_and_returns_def)
  have cands: "candidate_call m [] f i = (if i_kind i = void_call (f_id callee) \<and> f_id f \<noteq> f_id callee then Some (f_id callee) else None)"
    if "i_kind i = void_call (f_id callee) \<or> i_kind i = Ret None" for f i
    using that pair_find(2)[OF assms(1,2)] dec by (auto simp: candidate_call_def)
  have fn: "get_candidate_call_sites_fn m ig [] f cm = (if f_id f \<noteq> f_id callee then push_call (f_id f) (f_id callee) z cm else cm)"
    if "calls_and_returns (f_id callee) z f" for f z cm
    using that cands by (auto simp: calls_and_returns_def get_candidate_call_sites_fn_def void_call_def)
  have "fold (get_candidate_call_sites_fn m ig []) (filter (considered_func ig) [caller, callee]) [] = [(f_id caller, [(f_id callee, [x])])]"
    using fn[OF assms(4)] fn[OF assms(5)] assms(2,3) by (auto simp: push_call_def push_back_def)
  then show ?thesis by (simp add: get_candidate_call_sites_def assms(1))
qed

lemma no_call_blocks: "calls_and_returns g x f \<Longrightarrow> map_combined_call_sites f = Inr []"
  by (auto simp: calls_and_returns_def map_combined_call_sites_def find_combined_call_sites_def find_metadata_fn_def
      find_metadata_bb_def is_switch_def void_call_def)

text \<open>Inlining the call leaves the same situation.\<close>

lemma inline_pair:
  assumes "inlines_straight_line inline" and "recursive_pair ig m c"
  shows "\<exists>m' x. inline c m = Some m' \<and> recursive_pair ig m' (fst c, x)"
proof -
  obtain caller callee y where p: "m_funcs m = [caller, callee]" "f_id caller = fst c" "f_id callee \<noteq> f_id caller"
    "considered_func ig caller" "calls_and_returns (f_id callee) (snd c) caller" "calls_and_returns (f_id callee) y callee"
    using assms(2) by (auto simp: recursive_pair_def)
  obtain b ci ret where b: "f_blocks caller = [b]" "b_insts b = [ci, ret]" "i_id ci = snd c" "i_kind ci = void_call (f_id callee)"
    "i_kind ret = Ret None" "wf_func caller"
    using p(5) by (auto simp: calls_and_returns_def)
  obtain eb ci' ret' where e: "f_blocks callee = [eb]" "b_insts eb = [ci', ret']" "i_kind ci' = void_call (f_id callee)" "i_kind ret' = Ret None"
    using p(6) by (auto simp: calls_and_returns_def)
  have closed: "\<forall>i \<in> set [ci']. closed_inst i" using e(3) by (simp add: closed_inst_def void_call_def)
  note find = pair_find[OF p(1,3)]
  have "\<exists>caller' copies. inline (f_id caller, i_id ci) m = Some (upd_func (f_id caller) (\<lambda>_. caller') m)
       \<and> map i_kind copies = map i_kind [ci'] \<and> wf_func caller'
       \<and> f_blocks caller' = [] @ b\<lparr>b_insts := [] @ copies @ [ret]\<rparr> # []
       \<and> f_id caller' = f_id caller \<and> f_optnone caller' = f_optnone caller \<and> f_noinline caller' = f_noinline caller"
    by (rule assms(1)[unfolded inlines_straight_line_def, rule_format, where g = "f_id callee" and callee = callee and eb = eb and ret = ret'])
      (use find b e closed in \<open>simp_all add: void_call_def\<close>)
  then obtain caller' copies where c': "inline (f_id caller, i_id ci) m = Some (upd_func (f_id caller) (\<lambda>_. caller') m)"
    "map i_kind copies = [void_call (f_id callee)]" "wf_func caller'" "f_blocks caller' = [b\<lparr>b_insts := copies @ [ret]\<rparr>]"
    "f_id caller' = f_id caller" "f_optnone caller' = f_optnone caller" "f_noinline caller' = f_noinline caller"
    unfolding append_Nil append_Nil2 list.map e(3) by (elim exE conjE) (rule that; assumption)
  obtain copy where copy: "copies = [copy]" "i_kind copy = void_call (f_id callee)" using c'(2) by (cases copies) auto
  have "calls_and_returns (f_id callee) (i_id copy) caller'"
    using c'(3,4) copy b(5) by (simp add: calls_and_returns_def)
  moreover have "considered_func ig caller'"
    using p(4) c'(4,6,7) by (simp add: considered_func_def is_declaration_def func_empty_def)
  moreover have "m_funcs (upd_func (f_id caller) (\<lambda>_. caller') m) = [caller', callee]" by (rule find(3)) (rule c'(5))
  ultimately have "recursive_pair ig (upd_func (f_id caller) (\<lambda>_. caller') m) (fst c, i_id copy)"
    unfolding recursive_pair_def using p(2,3,6) c'(5) by auto
  then show ?thesis using c'(1) b(3) p(2) by auto
qed

lemma stuck_round:
  assumes "inlines_straight_line (u_inline u)" and "reordering (u_dense u)" and "stuck ig st"
  shows "\<exists>st'. fuse_round u ig st = Inr st' \<and> snd st' \<noteq> [] \<and> stuck ig st'"
proof -
  obtain c where c: "snd st = [c]" "recursive_pair ig (fs_module (fst st)) c" "failedInlineCallSites (fst st) = []"
    using assms(3) by (auto simp: stuck_def)
  obtain m' x where m': "u_inline u c (fs_module (fst st)) = Some m'" "recursive_pair ig m' (fst c, x)"
    using inline_pair[OF assms(1) c(2)] by blast
  \<comment> \<open>the call that is inlined\<close>
  obtain caller callee where p0: "m_funcs (fs_module (fst st)) = [caller, callee]" "f_id caller = fst c" "f_id callee \<noteq> fst c"
    "calls_and_returns (f_id callee) (snd c) caller"
    using c(2) unfolding recursive_pair_def by (elim exE conjE) (rule that; assumption)
  then have p: "find_func (fs_module (fst st)) (fst c) = Some caller" "calls_and_returns (f_id callee) (snd c) caller"
    using pair_find(1)[OF p0(1)] by simp_all
  obtain ci where ci: "find_inst caller (snd c) = Some ci" "i_kind ci = void_call (f_id callee)"
    using p(2) by (auto simp: calls_and_returns_def find_inst_def func_insts_def)
  let ?s = "(fst st)\<lparr>fs_module := m', fs_result := PA_none, callTargets := setv_insert (f_id callee) (callTargets (fst st))\<rparr>"
  have inl: "rfold (inline_call u) (rev (snd st)) (fst st) = Inr ?s"
    by (simp add: c(1) inline_call_def p(1) deref_def get_inst_def ci m'(1))
  \<comment> \<open>the module it leaves\<close>
  obtain caller' callee' y where q: "m_funcs m' = [caller', callee']" "f_id caller' = fst c" "f_id callee' \<noteq> f_id caller'"
    "considered_func ig caller'" "calls_and_returns (f_id callee') x caller'" "calls_and_returns (f_id callee') y callee'"
    using m'(2) by (auto simp: recursive_pair_def)
  note find = pair_find[OF q(1,3)]
  have cands: "get_candidate_call_sites m' ig [] = [(f_id caller', [(f_id callee', [x])])]"
    by (rule pair_candidates[OF q(1,3-6)])
  have dense: "u_dense u [] = []" using reordering_set[OF assms(2), of "[]"] by simp
  have clean: "clean_caller u (f_id caller', [(f_id callee', [x])]) ([], m') = Inr ([], m')"
    using find(4) by (simp add: clean_caller_def find(1) deref_def no_call_blocks[OF q(5)] dense)
  have comb: "combine_calls (u_split u) (u_ord u) [(f_id caller', [(f_id callee', [x])])] m' =
      Inr (m', \<lparr>ModifiedCallers = [], CallSites = [(f_id caller', x)]\<rparr>)"
    using find(4) by (simp add: combine_calls_def combine_caller_def find(1) deref_def no_call_blocks[OF q(5)] combine_callee_def setv_insert_def)
  have "fuse_round u ig st = Inr (?s\<lparr>fs_module := m'\<rparr>, [(f_id caller', x)])"
    by (simp add: fuse_round_def inl c(3) cands clean comb demote_callers_def Let_def)
  then show ?thesis using c(3) m'(2) q(2) by (auto simp: stuck_def)
qed

text \<open>
  C14: The driver does not end on a module with a function that calls itself and another one that calls
  it: each round inlines the call and finds the call that came with the inlined body.
\<close>

theorem fuse_loop_recursion_never_ends:
  assumes "inlines_straight_line (u_inline u)" and "reordering (u_dense u)"
    and "failedInlineCallSites s = []" and "recursive_pair ig (fs_module s) c"
  shows "fuse_loop u ig (s, [c]) = None"
proof -
  have "u' = u \<longrightarrow> ig' = ig \<longrightarrow> \<not> stuck ig st" if returns: "fuse_loop u' ig' st = Some r" for u' ig' st r
  proof (rule fuse_loop.raw_induct[where P = "\<lambda>u' ig' st r. u' = u \<longrightarrow> ig' = ig \<longrightarrow> \<not> stuck ig st", OF _ returns], intro impI notI)
    fix loop u' ig' st r
    assume IH: "\<And>u' ig' st r. loop u' ig' st = Some r \<Longrightarrow> u' = u \<longrightarrow> ig' = ig \<longrightarrow> \<not> stuck ig st"
      and body: "(case fuse_round u' ig' st of Inl e \<Rightarrow> Some (Inl e)
        | Inr st' \<Rightarrow> if snd st' = [] then Some (Inr (fst st')) else loop u' ig' st') = Some r"
      and here: "u' = u" "ig' = ig" "stuck ig st"
    obtain st' where "fuse_round u ig st = Inr st'" "snd st' \<noteq> []" "stuck ig st'"
      using stuck_round[OF assms(1,2) here(3)] by blast
    with IH[of u ig st' r] body here show False by simp
  qed
  moreover have "stuck ig (s, [c])" using assms(3,4) by (simp add: stuck_def)
  ultimately show ?thesis by (metis option.exhaust)
qed

section \<open>An inliner of straight-line functions\<close>

text \<open>The hypothesis can hold: an inliner that splices copies of the body, less its return, in place of the call.\<close>

definition splice_inst :: "nat \<Rightarrow> ir_inst list \<Rightarrow> ir_inst list \<Rightarrow> ir_inst list" where
  "splice_inst x copies is = concat (map (\<lambda>i. if i_id i = x then copies else [i]) is)"

definition copies_from :: "nat \<Rightarrow> ir_inst list \<Rightarrow> ir_inst list" where
  "copies_from n is = map (\<lambda>(k, i). i\<lparr>i_id := n + k\<rparr>) (enumerate 0 is)"

definition splice_func :: "nat \<Rightarrow> ir_inst list \<Rightarrow> ir_func \<Rightarrow> ir_func" where
  "splice_func x body f =
     f\<lparr>f_blocks := map (on_insts (splice_inst x (copies_from (f_next f) body))) (f_blocks f), f_next := f_next f + length body\<rparr>"

definition splice_inline :: "call_site \<Rightarrow> ir_module \<Rightarrow> ir_module option" where
  "splice_inline c m =
     (case find_func m (fst c) of
        None \<Rightarrow> None
      | Some f \<Rightarrow>
          (case map_option (\<lambda>ci. called_function (i_kind ci)) (find_inst f (snd c)) of
             Some (Some (Fn g)) \<Rightarrow>
               map_option (\<lambda>callee. upd_func (fst c) (\<lambda>_. splice_func (snd c) (butlast (func_insts callee)) f) m) (find_func m g)
           | _ \<Rightarrow> None))"

lemma splice_inst_notin: "x \<notin> set (map i_id is) \<Longrightarrow> splice_inst x copies is = is"
  by (induction "is") (auto simp: splice_inst_def)

lemma splice_inst_at:
  assumes "x \<notin> set (map i_id pre)" and "x \<notin> set (map i_id post)" and "i_id ci = x"
  shows "splice_inst x copies (pre @ ci # post) = pre @ copies @ post"
  using splice_inst_notin[OF assms(1)] splice_inst_notin[OF assms(2)] assms(3) by (simp add: splice_inst_def)

lemma copies_from_kinds: "map i_kind (copies_from n is) = map i_kind is"
  by (simp add: copies_from_def comp_def case_prod_beta flip: map_map[of i_kind snd, unfolded comp_def])

lemma copies_from_ids: "map i_id (copies_from n is) = [n..<n + length is]"
  by (rule nth_equalityI) (simp_all add: copies_from_def case_prod_beta nth_enumerate_eq)

lemma fresh_ids_splice: "fresh_ids (as @ x # bs) n \<Longrightarrow> fresh_ids (as @ [n..<n + k] @ bs) (n + k)"
  unfolding fresh_ids_def by (auto, (meson UnCI leD trans_less_add1)+)

lemma splice_func_block:
  assumes "wf_func f" and "f_blocks f = xs @ b # ys" and "b_insts b = pre @ ci # post" and "i_id ci = x"
  shows "f_blocks (splice_func x body f) = xs @ b\<lparr>b_insts := pre @ copies_from (f_next f) body @ post\<rparr> # ys"
    and "wf_func (splice_func x body f)"
proof -
  define before where "before = concat (map b_insts xs) @ pre"
  define behind where "behind = post @ concat (map b_insts ys)"
  have insts: "func_insts f = before @ ci # behind" by (simp add: func_insts_def assms(2,3) before_def behind_def)
  have fresh: "fresh_ids (map i_id before @ x # map i_id behind) (f_next f)"
    using assms(1,4) by (simp add: wf_func_def insts)
  then have x: "x \<notin> set (map i_id before)" "x \<notin> set (map i_id behind)" by (simp_all add: fresh_ids_def)
  have other: "on_insts (splice_inst x cs) c = c" if in_rest: "c \<in> set xs \<or> c \<in> set ys" for c cs
  proof -
    have "x \<notin> set (map i_id (b_insts c))" using x in_rest by (auto simp: before_def behind_def)
    then show ?thesis by (simp add: on_insts_def splice_inst_notin)
  qed
  have "x \<notin> set (map i_id pre)" "x \<notin> set (map i_id post)" using x by (auto simp: before_def behind_def)
  then have this_block: "on_insts (splice_inst x cs) b = b\<lparr>b_insts := pre @ cs @ post\<rparr>" for cs
    by (simp add: on_insts_def assms(3) splice_inst_at[OF _ _ assms(4)])
  show blocks: "f_blocks (splice_func x body f) = xs @ b\<lparr>b_insts := pre @ copies_from (f_next f) body @ post\<rparr> # ys"
    using other this_block by (simp add: splice_func_def assms(2) map_idI)
  have "func_insts (splice_func x body f) = before @ copies_from (f_next f) body @ behind"
    unfolding func_insts_def blocks by (simp add: before_def behind_def)
  moreover have "f_next (splice_func x body f) = f_next f + length body" by (simp add: splice_func_def)
  moreover have "map b_id (f_blocks (splice_func x body f)) = map b_id (f_blocks f)" by (simp add: blocks assms(2))
  ultimately show "wf_func (splice_func x body f)"
    using fresh_ids_splice[OF fresh, of "length body"] assms(1)
    by (auto simp: wf_func_def copies_from_ids fresh_ids_def)
qed

lemma splice_inlines: "inlines_straight_line splice_inline"
  unfolding inlines_straight_line_def
proof (intro allI impI)
  fix m h caller xs b ys pre ci post g callee eb body ret
  assume a: "find_func m h = Some caller" "wf_func caller" "f_blocks caller = xs @ b # ys" "b_insts b = pre @ ci # post"
    "i_kind ci = Call (FuncTy VoidTy [] False) [] (FuncVal (Fn g) (FuncTy VoidTy [] False))"
    "find_func m g = Some callee" "f_blocks callee = [eb]" "b_insts eb = body @ [ret]"
  have find: "find_inst caller (i_id ci) = Some ci"
    unfolding find_inst_def by (rule at_id_distinct) (use a wf_func_distinct[OF a(2)] in \<open>auto simp: func_insts_def\<close>)
  have "butlast (func_insts callee) = body" by (simp add: func_insts_def a(7,8))
  then have "splice_inline (h, i_id ci) m = Some (upd_func h (\<lambda>_. splice_func (i_id ci) body caller) m)"
    using find a(1,5,6) by (simp add: splice_inline_def called_function_def)
  then show "\<exists>caller' copies. splice_inline (h, i_id ci) m = Some (upd_func h (\<lambda>_. caller') m)
           \<and> map i_kind copies = map i_kind body \<and> wf_func caller'
           \<and> f_blocks caller' = xs @ b\<lparr>b_insts := pre @ copies @ post\<rparr> # ys
           \<and> f_id caller' = f_id caller \<and> f_optnone caller' = f_optnone caller \<and> f_noinline caller' = f_noinline caller"
    using splice_func_block[OF a(2,3,4) refl] copies_from_kinds
    by (intro exI[of _ "splice_func (i_id ci) body caller"] exI[of _ "copies_from (f_next caller) body"])
      (simp add: splice_func_def)
qed

text \<open>A function that calls itself, and its caller.\<close>

definition rec_func :: "nat \<Rightarrow> string \<Rightarrow> ir_func" where
  "rec_func n name = mk_func n name (FuncTy VoidTy [] False) True [mk_block 0 [demo_inst 1 (void_call 9), demo_inst 2 (Ret None)]] 3"

definition rec_module :: ir_module where
  "rec_module = \<lparr>m_funcs = [rec_func 5 ''main'', rec_func 9 ''loop''], m_globals = [], m_named_md = [],
     m_arch_bits = 64, m_intptr_bits = 64, m_next = 10\<rparr>"

definition rec_llvm :: fuse_llvm where
  "rec_llvm = \<lparr>u_split = (\<lambda>b x nm f. (f, b)), u_del_dead = (\<lambda>b f. f), u_ord = rev,
     u_demote_reg = (\<lambda>x p f. (f, None)), u_demote_phi = (\<lambda>x p f. (f, None)), u_inline = splice_inline,
     u_pipeline = (\<lambda>s m. (m, PA_none, [])), u_dense = rev, u_trivially_dead = (\<lambda>m g. False)\<rparr>"

definition rec_state :: fuse_state where
  "rec_state = \<lparr>fs_module = rec_module, failedInlineCallSites = [], callTargets = [], fs_result = PA_none\<rparr>"

lemma rec_calls: "calls_and_returns 9 1 (rec_func n name)"
  by (simp add: calls_and_returns_def rec_func_def wf_func_def fresh_ids_def void_call_def demo_eval)

lemma rec_pair: "recursive_pair False rec_module (5, 1)"
  unfolding recursive_pair_def
  by (intro exI[of _ "rec_func 5 ''main''"] exI[of _ "rec_func 9 ''loop''"] exI[of _ 1])
    (use rec_calls in \<open>simp add: rec_module_def considered_func_def is_declaration_def func_empty_def\<close>,
      simp add: rec_func_def mk_func_def)

theorem fuse_loop_recursion_never_ends_witness:
  "fuse_loop rec_llvm False (rec_state, [(5, 1)]) = None \<and> recursive_pair False rec_module (5, 1)"
  using fuse_loop_recursion_never_ends[of rec_llvm rec_state False "(5, 1)"] rec_pair
  by (simp add: rec_llvm_def rec_state_def splice_inlines reordering_rev)

end
