(* ===== verification/Call_Graph.thy ===== *)
theory Call_Graph
  imports Fuse_Functions
begin

text \<open>
  The calls of a function and of a module, and the edits that add none. Most of what \<open>fuse-functions\<close> does to
  a function moves, removes or decorates instructions; only a new call block adds a call, and it takes
  the place of the calls it is built for.
\<close>

section \<open>The calls of a function\<close>

text \<open>
  The function that a call or invoke calls, \<open>None\<close> inside where the called operand is not known. Intrinsics
  and inline assembly are no calls here.
\<close>

definition call_target :: "ir_inst \<Rightarrow> nat option option" where
  "call_target i =
     (case call_parts (i_kind i) of
        None \<Rightarrow> None
      | Some (t, as, FuncVal (Fn g) ty) \<Rightarrow> Some (Some g)
      | Some (t, as, FuncVal (Intrinsic s) ty) \<Rightarrow> None
      | Some (t, as, InlineAsm s) \<Rightarrow> None
      | _ \<Rightarrow> Some None)"

definition func_calls :: "ir_func \<Rightarrow> (nat \<times> nat option) set" where
  "func_calls f = {(i_id i, t) | i t. i \<in> set (func_insts f) \<and> call_target i = Some t}"

definition ids_below :: "ir_func \<Rightarrow> bool" where
  "ids_below f \<longleftrightarrow> (\<forall>i \<in> set (func_insts f). i_id i < f_next f)"

lemma func_callsI: "i \<in> set (func_insts f) \<Longrightarrow> call_target i = Some t \<Longrightarrow> (i_id i, t) \<in> func_calls f"
  by (auto simp: func_calls_def)

lemma finite_func_calls: "finite (func_calls f)"
proof -
  have "func_calls f \<subseteq> (\<lambda>i. (i_id i, the (call_target i))) ` set (func_insts f)" by (force simp: func_calls_def)
  then show ?thesis by (rule finite_subset) simp
qed

lemma call_target_noncall: "call_parts (i_kind i) = None \<Longrightarrow> call_target i = None"
  by (simp add: call_target_def)

lemma call_target_called: "called_function (i_kind i) = Some (Fn g) \<Longrightarrow> call_target i = Some (Some g)"
  by (auto simp: called_function_Some call_target_def)

text \<open>The target only depends on the called operand, and not on which instruction's result that is.\<close>

lemma call_target_map:
  assumes "\<And>g ty. h (FuncVal g ty) = FuncVal g ty" and "\<And>s. h (InlineAsm s) = InlineAsm s"
    and "\<And>v. (\<forall>g ty. v \<noteq> FuncVal g ty) \<Longrightarrow> (\<forall>s. v \<noteq> InlineAsm s) \<Longrightarrow> (\<forall>g ty. h v \<noteq> FuncVal g ty) \<and> (\<forall>s. h v \<noteq> InlineAsm s)"
  shows "call_target (i\<lparr>i_kind := map_ikind h (i_kind i)\<rparr>) = call_target i"
proof -
  have v: "(case h v of FuncVal (Fn g) ty \<Rightarrow> Some (Some g) | FuncVal (Intrinsic s) ty \<Rightarrow> None | InlineAsm s \<Rightarrow> None | _ \<Rightarrow> Some None) =
      (case v of FuncVal (Fn g) ty \<Rightarrow> Some (Some g) | FuncVal (Intrinsic s) ty \<Rightarrow> None | InlineAsm s \<Rightarrow> None | _ \<Rightarrow> Some None)" for v
    using assms(1,2) assms(3)[of v] by (cases v; cases "h v") auto
  show ?thesis by (cases "i_kind i") (simp_all add: call_target_def v)
qed

section \<open>Edits that add no call\<close>

abbreviation func_sig :: "ir_func \<Rightarrow> nat \<times> ir_type" where
  "func_sig f \<equiv> (f_id f, f_type f)"

text \<open>From \<open>f\<close> to \<open>g\<close> at most the calls \<open>N\<close> are added, and new instructions get new addresses.\<close>

definition adds_calls :: "(nat \<times> nat option) set \<Rightarrow> ir_func \<Rightarrow> ir_func \<Rightarrow> bool" where
  "adds_calls N f g \<longleftrightarrow> func_sig g = func_sig f \<and> f_next f \<le> f_next g \<and> (ids_below f \<longrightarrow> ids_below g) \<and> func_calls g \<subseteq> func_calls f \<union> N"

abbreviation quiet :: "ir_func \<Rightarrow> ir_func \<Rightarrow> bool" where
  "quiet \<equiv> adds_calls {}"

named_theorems quiet_intros

lemma quiet_refl [simp, quiet_intros]: "quiet f f"
  by (simp add: adds_calls_def)

lemma adds_calls_trans: "adds_calls N f g \<Longrightarrow> adds_calls N' g h \<Longrightarrow> adds_calls (N \<union> N') f h"
  unfolding adds_calls_def by auto

lemma quiet_trans: "quiet f g \<Longrightarrow> quiet g h \<Longrightarrow> quiet f h"
  using adds_calls_trans[of "{}" f g "{}" h] by simp

lemma adds_quiet: "adds_calls N f g \<Longrightarrow> quiet g h \<Longrightarrow> adds_calls N f h"
  using adds_calls_trans[of N f g "{}" h] by simp

lemma adds_callsI:
  assumes "func_sig g = func_sig f" and "f_next f \<le> f_next g"
    and "\<And>i. i \<in> set (func_insts g) \<Longrightarrow> i_id i < f_next g \<or> i_id i \<in> i_id ` set (func_insts f)"
    and "\<And>i t. i \<in> set (func_insts g) \<Longrightarrow> call_target i = Some t \<Longrightarrow> (i_id i, t) \<in> func_calls f \<union> N"
  shows "adds_calls N f g"
proof -
  have "ids_below f \<longrightarrow> ids_below g" using assms(2,3) by (fastforce simp: ids_below_def)
  moreover have "func_calls g \<subseteq> func_calls f \<union> N"
  proof
    fix c assume "c \<in> func_calls g"
    then obtain i t where "c = (i_id i, t)" "i \<in> set (func_insts g)" "call_target i = Some t" by (auto simp: func_calls_def)
    then show "c \<in> func_calls f \<union> N" using assms(4) by blast
  qed
  ultimately show ?thesis using assms(1,2) by (simp add: adds_calls_def)
qed

text \<open>Every instruction is one of \<open>f\<close>, or one with the address and target of one, or a new one.\<close>

lemma quietI:
  assumes "func_sig g = func_sig f" and "f_next f \<le> f_next g"
    and "\<And>i. i \<in> set (func_insts g) \<Longrightarrow>
      (\<exists>j \<in> set (func_insts f). i_id i = i_id j \<and> (call_target i = None \<or> call_target i = call_target j))
      \<or> i_id i < f_next g \<and> call_target i = None"
  shows "quiet f g"
proof (rule adds_callsI[OF assms(1,2)])
  fix i assume i: "i \<in> set (func_insts g)"
  show "i_id i < f_next g \<or> i_id i \<in> i_id ` set (func_insts f)" using assms(3)[OF i] by auto
  show "(i_id i, t) \<in> func_calls f \<union> {}" if "call_target i = Some t" for t
    using assms(3)[OF i] that by (auto simp: func_calls_def)
qed

lemma quiet_subset:
  assumes "func_sig g = func_sig f" and "f_next f \<le> f_next g" and "set (func_insts g) \<subseteq> set (func_insts f)"
  shows "quiet f g"
  by (rule quietI[OF assms(1,2)]) (use assms(3) in blast)

lemma set_func_insts_map: "set (func_insts (map_blocks (on_insts e) f)) = (\<Union>b \<in> set (f_blocks f). set (e (b_insts b)))"
  by (simp add: func_insts_map_blocks)

lemma insts_insert:
  "set (func_insts (insert_before x n f)) \<subseteq> insert n (set (func_insts f))"
  "set (func_insts (insert_after x n f)) \<subseteq> insert n (set (func_insts f))"
  "set (func_insts (append_inst b n f)) \<subseteq> insert n (set (func_insts f))"
proof -
  have "set (ins_before i_id x n xs) \<subseteq> insert n (set xs)" "set (ins_after i_id x n xs) \<subseteq> insert n (set xs)" for xs
    by (induction xs) auto
  then show "set (func_insts (insert_before x n f)) \<subseteq> insert n (set (func_insts f))"
    "set (func_insts (insert_after x n f)) \<subseteq> insert n (set (func_insts f))"
    unfolding insert_before_def insert_after_def set_func_insts_map func_insts_def by fastforce+
  show "set (func_insts (append_inst b n f)) \<subseteq> insert n (set (func_insts f))"
    by (auto simp: append_inst_def func_insts_def upd_at_def on_insts_def split: if_splits)
qed

lemma insts_frame [simp]: "f_id (insert_before x n f) = f_id f" "f_id (insert_after x n f) = f_id f"
  "f_id (append_inst b n f) = f_id f" "f_next (append_inst b n f) = f_next f" "f_id (erase_inst x f) = f_id f"
  "f_type (insert_before x n f) = f_type f" "f_type (insert_after x n f) = f_type f"
  "f_type (append_inst b n f) = f_type f" "f_type (erase_inst x f) = f_type f"
  by (simp_all add: insert_before_def insert_after_def append_inst_def erase_inst_def)

lemma quiet_one_more:
  assumes "call_target n = None" and "i_id n = f_next f" and "func_sig g = func_sig f" and "f_next g = Suc (f_next f)"
    and "set (func_insts g) \<subseteq> insert n (set (func_insts f))"
  shows "quiet f g"
proof (rule quietI)
  fix i assume "i \<in> set (func_insts g)"
  then have "i = n \<or> i \<in> set (func_insts f)" using assms(5) by blast
  then show "(\<exists>j \<in> set (func_insts f). i_id i = i_id j \<and> (call_target i = None \<or> call_target i = call_target j))
      \<or> i_id i < f_next g \<and> call_target i = None"
    using assms by auto
qed (use assms in simp_all)

lemma quiet_insert:
  assumes "call_target n = None" and "i_id n = f_next f"
  shows "quiet f (insert_before x n f\<lparr>f_next := Suc (f_next f)\<rparr>)" "quiet f (insert_after x n f\<lparr>f_next := Suc (f_next f)\<rparr>)"
    "quiet f (append_inst b n f\<lparr>f_next := Suc (f_next f)\<rparr>)"
  by (rule quiet_one_more[OF assms]; simp add: insts_insert)+

lemma call_target_mk: "call_parts k = None \<Longrightarrow> call_target (mk_inst x k t nm) = None"
  by (simp add: call_target_noncall)

lemma quiet_new [quiet_intros]:
  assumes "call_parts k = None"
  shows "quiet f (new_before x k t f)" "quiet f (new_at_end b k t f)" "quiet f (new_named_before x k t nm f)"
  using quiet_insert call_target_mk[OF assms] by (simp_all add: new_before_def new_at_end_def new_named_before_def)

lemma quiet_new_block [quiet_intros]: "quiet f (new_block nm f)"
  by (rule quiet_subset) (simp_all add: new_block_def append_block_def func_insts_def)

lemma quiet_upd_inst:
  assumes "\<And>i. i_id (h i) = i_id i" and "\<And>i. call_target (h i) = None \<or> call_target (h i) = call_target i"
  shows "quiet f (upd_inst x h f)"
proof (rule quietI)
  fix i assume "i \<in> set (func_insts (upd_inst x h f))"
  then obtain j where "j \<in> set (func_insts f)" "i = j \<or> i = h j"
    by (auto simp: func_insts_upd_inst upd_at_def)
  then show "(\<exists>j \<in> set (func_insts f). i_id i = i_id j \<and> (call_target i = None \<or> call_target i = call_target j))
      \<or> i_id i < f_next (upd_inst x h f) \<and> call_target i = None"
    using assms by (intro disjI1 bexI[of _ j]) auto
qed simp_all

text \<open>An instruction gets the operation of one with the same address, or one that calls nothing.\<close>

lemma quiet_set_kind:
  assumes "call_target (i\<lparr>i_kind := k\<rparr>) = None \<or> i \<in> set (func_insts f) \<and> i_id i = x \<and> call_target (i\<lparr>i_kind := k\<rparr>) = call_target i"
  shows "quiet f (set_kind x k f)"
proof (rule adds_callsI)
  have k: "call_target (j\<lparr>i_kind := k\<rparr>) = call_target (i\<lparr>i_kind := k\<rparr>)" for j by (simp add: call_target_def)
  fix j assume "j \<in> set (func_insts (set_kind x k f))"
  then obtain j0 where j: "j0 \<in> set (func_insts f)" "j = (if i_id j0 = x then j0\<lparr>i_kind := k\<rparr> else j0)"
    by (auto simp: set_kind_def func_insts_upd_inst upd_at_def)
  then show "i_id j < f_next (set_kind x k f) \<or> i_id j \<in> i_id ` set (func_insts f)" by auto
  fix t assume t: "call_target j = Some t"
  show "(i_id j, t) \<in> func_calls f \<union> {}"
  proof (cases "i_id j0 = x")
    case True
    then have "call_target i = Some t" "i \<in> set (func_insts f)" "i_id j = i_id i"
      using assms j(2) t k[of j0] by auto
    then show ?thesis by (simp add: func_callsI)
  next
    case False
    then show ?thesis using j t by (simp add: func_callsI)
  qed
qed (simp_all add: set_kind_def)

lemma quiet_set_plain: "call_parts k = None \<Longrightarrow> quiet f (set_kind x k f)"
  by (rule quiet_set_kind[where i = "mk_inst 0 k VoidTy ''''"]) (simp add: call_target_noncall)

lemma quiet_erase [quiet_intros]: "quiet f (erase_inst x f)"
  by (rule quiet_subset) (auto simp: func_insts_erase_inst del_at_def)

lemma erase_no_call: "(x, t) \<notin> func_calls (erase_inst x f)"
  by (auto simp: func_calls_def func_insts_erase_inst del_at_def)

lemma quiet_move [quiet_intros]: "quiet f (move_before x y f)" "quiet f (move_after x y f)"
proof -
  have del: "set (func_insts (erase_inst x f)) \<subseteq> set (func_insts f)" by (auto simp: func_insts_erase_inst del_at_def)
  show "quiet f (move_before x y f)"
  proof (cases "find_inst f x")
    case (Some i)
    then show ?thesis
      using find_inst_Some[OF Some] insts_insert(1)[of y i "erase_inst x f"] del
      by (intro quiet_subset) (auto simp: move_before_def)
  qed (simp add: move_before_def)
  show "quiet f (move_after x y f)"
  proof (cases "find_inst f x")
    case (Some i)
    then show ?thesis
      using find_inst_Some[OF Some] insts_insert(2)[of y i "erase_inst x f"] del
      by (intro quiet_subset) (auto simp: move_after_def)
  qed (simp add: move_after_def)
qed

lemma call_target_replace: "call_target (i\<lparr>i_kind := replace_uses (InstVal a) (InstVal b) (i_kind i)\<rparr>) = call_target i"
  unfolding replace_uses_def by (rule call_target_map) auto

lemma quiet_replace_all [quiet_intros]: "quiet f (replace_all_uses (InstVal a) (InstVal b) f)"
proof (rule quietI)
  fix i assume "i \<in> set (func_insts (replace_all_uses (InstVal a) (InstVal b) f))"
  then obtain j where "j \<in> set (func_insts f)" "i = j\<lparr>i_kind := replace_uses (InstVal a) (InstVal b) (i_kind j)\<rparr>"
    by (auto simp: replace_all_uses_def func_insts_edit_kinds)
  then show "(\<exists>j \<in> set (func_insts f). i_id i = i_id j \<and> (call_target i = None \<or> call_target i = call_target j))
      \<or> i_id i < f_next (replace_all_uses (InstVal a) (InstVal b) f) \<and> call_target i = None"
    using call_target_replace by auto
qed (simp_all add: replace_all_uses_def edit_kinds_def)

section \<open>The operations of the pass\<close>

lemma quiet_tag [quiet_intros]: "quiet f (tag_inst x name v f)"
  unfolding tag_inst_def by (rule quiet_upd_inst) (simp_all add: call_target_def attach_metadata_def Let_def)

lemma quiet_tag_option [quiet_intros]: "quiet f (tag_option x name v f)"
  by (simp add: tag_option_def quiet_tag split: option.split)

lemma donothing_target: "call_target (mk_inst x donothing_call t nm) = None"
  "call_target ((mk_inst x donothing_call t nm)\<lparr>i_md := d\<rparr>) = None"
  by (simp_all add: call_target_def mk_inst_def donothing_call_def)

lemma quiet_metadata [quiet_intros]:
  "quiet f (fst (create_metadata_before f p name v))" "quiet f (fst (create_metadata_end f b name v))"
proof -
  have tag: "quiet h (upd_inst x (\<lambda>i. fst (attach_metadata i name v)) h)" for h x
    by (rule quiet_tag[unfolded tag_inst_def])
  have "quiet f (insert_before p ((mk_inst (f_next f) donothing_call VoidTy '''')\<lparr>i_md := debug_loc_of f p\<rparr>) f\<lparr>f_next := Suc (f_next f)\<rparr>)"
    by (rule quiet_insert(1)[OF donothing_target(2)]) (simp add: mk_inst_def)
  from quiet_trans[OF this tag] show "quiet f (fst (create_metadata_before f p name v))"
    by (simp add: create_metadata_before_def create_metadata_marker_before_def Let_def)
  have "quiet f (append_inst b (mk_inst (f_next f) donothing_call VoidTy '''') f\<lparr>f_next := Suc (f_next f)\<rparr>)"
    by (rule quiet_insert(3)[OF donothing_target(1)]) simp
  from quiet_trans[OF this tag] show "quiet f (fst (create_metadata_end f b name v))"
    by (simp add: create_metadata_end_def create_metadata_marker_end_def Let_def)
qed

lemma quiet_unreachable [quiet_intros]: "quiet f (fst (get_or_create_unreachable_block f))"
  by (auto simp: get_or_create_unreachable_block_def Let_def split: list.split
      intro: quiet_trans[OF quiet_new_block quiet_new(2)])

text \<open>The functions of LLVM that edit a function: splitting a block, deleting a dead one, demoting a value.\<close>

definition split_quiet :: "block_split \<Rightarrow> bool" where
  "split_quiet split \<longleftrightarrow> (\<forall>b x nm f. quiet f (fst (split b x nm f)))"

definition edit_quiet :: "(nat \<Rightarrow> ir_func \<Rightarrow> ir_func) \<Rightarrow> bool" where
  "edit_quiet del \<longleftrightarrow> (\<forall>b f. quiet f (del b f))"

definition demotion_quiet :: "demotion \<Rightarrow> bool" where
  "demotion_quiet demote \<longleftrightarrow> (\<forall>x p f. quiet f (fst (demote x p f)))"

lemma quiet_fold:
  assumes "\<And>x g. quiet g (h x g)"
  shows "quiet f (fold h xs f)"
  using assms by (induction xs arbitrary: f) (auto intro: quiet_trans)

lemma quiet_rfold:
  assumes "rfold h xs f = Inr g" and "\<And>x f g. x \<in> set xs \<Longrightarrow> h x f = Inr g \<Longrightarrow> quiet (p f) (p g)"
  shows "quiet (p f) (p g)"
  by (rule rfold_invariant[OF assms(1), where I = "\<lambda>g. quiet (p f) (p g)"]) (auto intro: quiet_trans assms(2))

lemma quiet_add_case: "quiet f (upd_inst x (\<lambda>i. i\<lparr>i_kind := add_switch_case c b (i_kind i)\<rparr>) f)"
proof (rule quiet_upd_inst)
  fix i show "call_target (i\<lparr>i_kind := add_switch_case c b (i_kind i)\<rparr>) = None \<or>
      call_target (i\<lparr>i_kind := add_switch_case c b (i_kind i)\<rparr>) = call_target i"
    by (cases "i_kind i") (simp_all add: call_target_def)
qed simp

lemma quiet_add_incoming: "quiet f (upd_inst x (\<lambda>i. i\<lparr>i_kind := add_incoming v b (i_kind i)\<rparr>) f)"
proof (rule quiet_upd_inst)
  fix i show "call_target (i\<lparr>i_kind := add_incoming v b (i_kind i)\<rparr>) = None \<or>
      call_target (i\<lparr>i_kind := add_incoming v b (i_kind i)\<rparr>) = call_target i"
    by (cases "i_kind i") (simp_all add: call_target_def)
qed simp

section \<open>A new call block\<close>

lemma split_call_site_quiet:
  assumes "split_quiet split" and "split_call_site split cb c st = Inr st'"
  shows "quiet (fst st) (fst st')"
proof -
  obtain f orig ret where st: "st = (f, orig, ret)" by (cases st) auto
  have "quiet f (fst (split pb nx nm f))" for pb nx nm using assms(1) unfolding split_quiet_def by blast
  then show ?thesis
    using assms(2) by (auto simp: split_call_site_def st Let_def split_def intro!: quiet_trans[OF _ quiet_erase]
        quiet_trans[OF _ quiet_new(2)] quiet_trans[OF _ quiet_move(1)])
qed

lemma add_arg_node_quiet:
  assumes "add_arg_node cb nm orig cs a st = Inr st'"
  shows "quiet (fst st) (fst st')"
  using assms by (cases a; cases st) (auto simp: add_arg_node_def Let_def intro!: quiet_trans[OF _ quiet_tag] quiet_new)

lemma add_return_buffer_quiet: "add_return_buffer comb nm t f = Inr g \<Longrightarrow> quiet f g"
  by (auto simp: add_return_buffer_def Let_def intro!: quiet_trans[OF _ quiet_tag] quiet_trans[OF _ quiet_move(2)]
      quiet_trans[OF _ quiet_new(1)] quiet_new(3))

lemma retire_call_quiet: "quiet f (retire_call comb c f)"
  unfolding retire_call_def by (rule quiet_trans[OF quiet_replace_all quiet_erase])

lemma retired_calls: "c \<in> set cs \<Longrightarrow> (c, t) \<notin> func_calls (fold (retire_call comb) cs f)"
proof (induction cs arbitrary: f)
  case (Cons d cs)
  show ?case
  proof (cases "c \<in> set cs")
    case False
    then have "(c, t) \<notin> func_calls (retire_call comb d f)" using Cons.prems erase_no_call by (simp add: retire_call_def)
    moreover have "quiet (retire_call comb d f) (fold (retire_call comb) cs (retire_call comb d f))"
      by (rule quiet_fold) (rule retire_call_quiet)
    ultimately show ?thesis by (auto simp: adds_calls_def)
  qed (use Cons.IH in simp)
qed simp

lemma add_dispatch_quiet: "quiet f (add_dispatch cb comb nm ret f)"
proof -
  have br: "quiet g (add_return_branch a b e g)" for a b e g
    by (cases e) (simp add: add_return_branch_def Let_def quiet_trans[OF quiet_add_incoming quiet_add_case])
  obtain f4 u where u: "get_or_create_unreachable_block (fst (create_metadata_end
      (fst (create_metadata_before (tag_inst (f_next f) FuseFunctionName nm (new_before comb (PHI []) (IntTy 32) f)) comb FuseFunctionStart nm))
      cb FuseFunctionEnd nm)) = (f4, u)" by (cases "get_or_create_unreachable_block (fst (create_metadata_end
      (fst (create_metadata_before (tag_inst (f_next f) FuseFunctionName nm (new_before comb (PHI []) (IntTy 32) f)) comb FuseFunctionStart nm))
      cb FuseFunctionEnd nm))")
  then have f4: "f4 = fst (get_or_create_unreachable_block (fst (create_metadata_end
      (fst (create_metadata_before (tag_inst (f_next f) FuseFunctionName nm (new_before comb (PHI []) (IntTy 32) f)) comb FuseFunctionStart nm))
      cb FuseFunctionEnd nm)))" by simp
  have "quiet f f4"
    unfolding f4 by (intro quiet_trans[OF _ quiet_unreachable] quiet_trans[OF _ quiet_metadata(2)]
        quiet_trans[OF _ quiet_metadata(1)] quiet_trans[OF _ quiet_tag] quiet_new) simp
  then show ?thesis
    unfolding add_dispatch_def Let_def u prod.case
    by (intro quiet_trans[OF _ quiet_fold[OF br]] quiet_trans[OF _ quiet_tag] quiet_trans[OF _ quiet_new(2)]) simp_all
qed

text \<open>A new call block adds one call, at a new address, and removes those it is built for.\<close>

lemma new_call_block_calls:
  assumes "split_quiet split" and "new_call_block split callee cs f = Inr (g, comb)"
  shows "adds_calls {(comb, Some (f_id callee))} f g" and "f_next f \<le> comb"
    and "func_calls g \<subseteq> {(x, t) \<in> func_calls f. x \<notin> set cs} \<union> {(comb, Some (f_id callee))}"
proof -
  let ?cb = "f_next f" and ?ty = "f_type callee"
  obtain f1 orig ret f2 args f4 where s:
    "rfold (split_call_site split ?cb) cs (new_block ''.fuse.callblock'' f, [], []) = Inr (f1, orig, ret)"
    "rfold (add_arg_node ?cb (f_name callee) orig cs) (enumerate 0 (param_types ?ty)) (f1, []) = Inr (f2, args)"
    "(if return_type ?ty \<noteq> VoidTy
      then add_return_buffer (f_next f2) (f_name callee) (return_type ?ty)
             (new_at_end ?cb (Call ?ty args (FuncVal (Fn (f_id callee)) ?ty)) (return_type ?ty) f2)
      else Inr (new_at_end ?cb (Call ?ty args (FuncVal (Fn (f_id callee)) ?ty)) (return_type ?ty) f2)) = Inr f4"
    and comb: "comb = f_next f2" and g: "g = add_dispatch ?cb comb (f_name callee) ret (fold (retire_call comb) cs f4)"
    using assms(2) by (auto simp: new_call_block_def Let_def)
  have "quiet (new_block ''.fuse.callblock'' f) f1"
    using quiet_rfold[where p = fst, OF s(1) split_call_site_quiet[OF assms(1)]] by simp
  moreover have "quiet f1 f2" using quiet_rfold[where p = fst, OF s(2) add_arg_node_quiet] by simp
  ultimately have q2: "quiet f f2" by (rule quiet_trans[OF quiet_new_block quiet_trans])
  then show "f_next f \<le> comb" by (simp add: comb adds_calls_def)
  let ?f3 = "new_at_end ?cb (Call ?ty args (FuncVal (Fn (f_id callee)) ?ty)) (return_type ?ty) f2"
  have a3: "adds_calls {(comb, Some (f_id callee))} f2 ?f3"
  proof (rule adds_callsI)
    fix i assume "i \<in> set (func_insts ?f3)"
    then have i: "i \<in> set (func_insts f2) \<or> i = mk_inst (f_next f2) (Call ?ty args (FuncVal (Fn (f_id callee)) ?ty)) (return_type ?ty) ''''"
      using insts_insert(3) by (auto simp: new_at_end_def)
    then show "i_id i < f_next ?f3 \<or> i_id i \<in> i_id ` set (func_insts f2)" by (auto simp: new_at_end_def)
    show "(i_id i, t) \<in> func_calls f2 \<union> {(comb, Some (f_id callee))}" if "call_target i = Some t" for t
      using i that by (auto simp: comb func_callsI) (simp add: call_target_def)
  qed (simp_all add: new_at_end_def)
  have q4: "quiet ?f3 f4" using s(3) add_return_buffer_quiet by (auto split: if_splits)
  have a4: "adds_calls {(comb, Some (f_id callee))} f f4"
    using adds_calls_trans[OF q2 adds_quiet[OF a3 q4]] by simp
  have q5: "quiet f4 (fold (retire_call comb) cs f4)" by (rule quiet_fold) (rule retire_call_quiet)
  have q6: "quiet (fold (retire_call comb) cs f4) g" unfolding g by (rule add_dispatch_quiet)
  show "adds_calls {(comb, Some (f_id callee))} f g" by (rule adds_quiet[OF adds_quiet[OF a4 q5] q6])
  then have "func_calls g \<subseteq> func_calls f \<union> {(comb, Some (f_id callee))}" by (simp add: adds_calls_def)
  moreover have "(c, t) \<notin> func_calls g" if "c \<in> set cs" for c t
    using retired_calls[OF that] q6 by (auto simp: adds_calls_def)
  ultimately show "func_calls g \<subseteq> {(x, t) \<in> func_calls f. x \<notin> set cs} \<union> {(comb, Some (f_id callee))}" by auto
qed

section \<open>Adding a call to a call block, and merging two\<close>

lemma set_successor0_plain: "set_successor0 b k = Inr k' \<Longrightarrow> call_parts k' = None"
  by (cases k) auto

lemma split_after_quiet:
  assumes "split_quiet split" and "split_after split c f = Inr (g, r)"
  shows "quiet f g"
proof -
  have "quiet f (fst (split pb nx nm f))" for pb nx nm using assms(1) unfolding split_quiet_def by blast
  then show ?thesis
    using assms(2) by (auto simp: split_after_def Let_def split_def intro!: quiet_trans[OF _ quiet_set_plain] set_successor0_plain)
qed

lemma load_incoming_quiet: "load_incoming c t buf ins loads f = Inr (ins', g) \<Longrightarrow> quiet f g"
proof (induction c t buf ins loads f arbitrary: ins' g rule: load_incoming.induct)
  case (2 call t buf v b ins loads f)
  show ?case
  proof (cases "v = InstVal call \<and> map_of loads b = None")
    case True
    then obtain tm a ins'' where "load_incoming call t buf ins ((b, InstVal (f_next f)) # loads) (new_load (i_id tm) a t f) = Inr (ins'', g)"
      "get_terminator f b = Inr tm" "deref buf = Inr a"
      using 2(4) by (auto simp: Let_def)
    with 2(1) True have "quiet (new_load (i_id tm) a t f) g" by blast
    then show ?thesis by (rule quiet_trans[rotated]) (simp add: new_load_def quiet_new)
  qed (use 2 in \<open>auto split: if_splits option.splits\<close>)
qed simp

lemma redirect_user_quiet:
  assumes "redirect_user c t buf u f = Inr g" and "u \<in> set (func_insts f)"
  shows "quiet f g"
proof -
  have other: "quiet f (set_kind (i_id u) (replace_uses (InstVal c) (InstVal (f_next f)) (i_kind u)) (new_load (i_id u) a t f))" for a
  proof -
    have "set (ins_before i_id x n xs) \<supseteq> set xs" for x n and xs :: "ir_inst list" by (induction xs) auto
    then have "u \<in> set (func_insts (new_load (i_id u) a t f))"
      using assms(2) unfolding new_load_def new_before_def insert_before_def func_insts_next set_func_insts_map
      by (fastforce simp: func_insts_def)
    then have "quiet (new_load (i_id u) a t f)
        (set_kind (i_id u) (replace_uses (InstVal c) (InstVal (f_next f)) (i_kind u)) (new_load (i_id u) a t f))"
      using quiet_set_kind[of "replace_uses (InstVal c) (InstVal (f_next f)) (i_kind u)" u] call_target_replace by simp
    then show ?thesis by (rule quiet_trans[rotated]) (simp add: new_load_def quiet_new)
  qed
  show ?thesis
  proof (cases "is_store (i_kind u) \<or> is_phi (i_kind u)")
    case True
    then show ?thesis
      using assms(1) by (cases "i_kind u") (auto simp: redirect_user_def quiet_erase
          intro!: quiet_trans[OF load_incoming_quiet quiet_set_plain])
  next
    case False
    then obtain a where "g = set_kind (i_id u) (replace_uses (InstVal c) (InstVal (f_next f)) (i_kind u)) (new_load (i_id u) a t f)"
      using assms(1) by (cases "i_kind u") (auto simp: redirect_user_def)
    then show ?thesis using other by simp
  qed
qed

lemma redirect_users_quiet:
  "reordering ord \<Longrightarrow> redirect_users ord c t buf n f = Inr g \<Longrightarrow> quiet f g"
proof (induction n arbitrary: f)
  case 0
  then show ?case by (simp add: redirect_users.simps split: list.splits)
next
  case (Suc n)
  show ?case
  proof (cases "ord (users f (InstVal c))")
    case Nil
    then show ?thesis using Suc.prems(2) by (simp add: redirect_users.simps)
  next
    case (Cons u us)
    then obtain f' where f': "redirect_user c t buf u f = Inr f'" "redirect_users ord c t buf n f' = Inr g"
      using Suc.prems(2) by (auto simp: redirect_users.simps[of ord c t buf "Suc n"])
    have "u \<in> set (users f (InstVal c))" using Cons reordering_set[OF Suc.prems(1)] by (metis list.set_intros(1))
    then have "u \<in> set (func_insts f)" by (simp add: set_users)
    from quiet_trans[OF redirect_user_quiet[OF f'(1) this] Suc.IH[OF Suc.prems(1) f'(2)]] show ?thesis .
  qed
qed

lemma store_arguments_quiet:
  assumes "store_arguments pm c args f = Inr g"
  shows "quiet f g"
proof (cases "pm = []")
  case False
  then have run: "rfold (\<lambda>k g. case map_of pm (of_nat k) of None \<Rightarrow> Inl Terminated
      | Some a \<Rightarrow> Inr (new_store c (args ! k) (InstVal a) g)) [0..<length args] f = Inr g"
    using assms by (simp add: store_arguments_def)
  show ?thesis
    by (rule quiet_rfold[where p = "\<lambda>f. f", OF run]) (auto simp: new_store_def quiet_new split: option.splits)
qed (use assms in \<open>simp add: store_arguments_def\<close>)

lemma combine_call_quiet:
  assumes "split_quiet split" and "reordering ord" and "combine_call split ord nm s c f = Inr (b, g)"
  shows "quiet f g"
proof -
  have body: "quiet f g" if run: "combine_call_body split ord s pm ci t args f = Inr g" for pm ci t args
  proof -
    obtain p v f1 f2 f3 r k where s:
      "store_arguments pm (i_id ci) args (new_store (i_id ci) v p f) = Inr f1"
      "(if users f1 (InstVal (i_id ci)) \<noteq> [] \<and> return_type t \<noteq> VoidTy
        then rbind (get_return_pointer f1 s) (\<lambda>buf. redirect_users ord (i_id ci) (i_type ci) buf (length (users f1 (InstVal (i_id ci)))) f1)
        else Inr f1) = Inr f2"
      "split_after split (i_id ci) f2 = Inr (f3, r)" "add_return_case s k r (erase_inst (i_id ci) f3) = g"
      using run unfolding combine_call_body_def Let_def rbind_eq_Inr split_paired_Ex prod.case sum.inject
      by (elim exE conjE) (rule that; assumption)
    have "quiet f (new_store (i_id ci) v p f)" by (simp add: new_store_def quiet_new)
    moreover have "quiet (new_store (i_id ci) v p f) f1"
      using s(1) by (rule store_arguments_quiet)
    moreover have "quiet f1 f2" using s(2) redirect_users_quiet[OF assms(2)] by (auto split: if_splits)
    moreover have "quiet f2 f3" by (rule split_after_quiet[OF assms(1) s(3)])
    moreover have "quiet f3 g" unfolding s(4)[symmetric] add_return_case_def by (rule quiet_trans[OF quiet_erase quiet_add_case])
    ultimately show ?thesis by (rule quiet_trans[OF quiet_trans[OF quiet_trans[OF quiet_trans]]])
  qed
  show ?thesis
  proof (cases "fst c = ccs_caller s")
    case True
    then obtain ci where ci: "get_inst f (snd c) = Inr ci" using assms(3) by (auto simp: combine_call_def)
    then show ?thesis
      using assms(3) body True
      by (cases "called_function (i_kind ci)"; cases "call_parts (i_kind ci)") (auto simp: combine_call_def split: if_splits)
  qed (use assms(3) in \<open>simp add: combine_call_def\<close>)
qed

lemma merge_block_id_quiet:
  assumes "merge_block_id s other n e f = Inr g"
  shows "quiet f g"
proof -
  obtain n' x where e: "e = (n', x)" by (cases e)
  obtain st where st: "get_inst f x = Inr st" using assms by (auto simp: merge_block_id_def e Let_def)
  obtain v p where kind: "i_kind st = Store v p"
    using assms by (cases "i_kind st") (simp_all add: merge_block_id_def e Let_def st)
  show ?thesis
    using assms by (auto simp: merge_block_id_def e Let_def st kind add_return_case_def new_store_def quiet_new
        intro!: quiet_trans[OF _ quiet_add_case] quiet_trans[OF _ quiet_erase] quiet_trans[OF _ quiet_set_plain[OF set_successor0_plain]])
qed

lemma retire_call_block_quiet:
  assumes "edit_quiet del" and "retire_call_block del s other f = Inr g"
  shows "quiet f g"
proof -
  have dflt: "quiet h (upd_inst x (\<lambda>i. i\<lparr>i_kind := set_default_dest d (i_kind i)\<rparr>) h)" for h x d
  proof (rule quiet_upd_inst)
    fix i show "call_target (i\<lparr>i_kind := set_default_dest d (i_kind i)\<rparr>) = None \<or>
        call_target (i\<lparr>i_kind := set_default_dest d (i_kind i)\<rparr>) = call_target i"
      by (cases "i_kind i") (simp_all add: call_target_def)
  qed simp
  have del: "quiet h (if c then del b h else h)" for h c b using assms(1) by (simp add: edit_quiet_def)
  show ?thesis
    using assms(2) unfolding retire_call_block_def Let_def
    by (auto simp: quiet_new simp del: if_split intro!: quiet_trans[OF _ del] quiet_trans[OF _ quiet_erase] quiet_trans[OF _ dflt])
qed

lemma combine_quiet:
  assumes "edit_quiet del" and "combine del ord s other f = Inr (b, g)"
  shows "quiet f g"
proof (cases "ccs_callee_name other \<noteq> ccs_callee_name s \<or> ccs_caller other \<noteq> ccs_caller s")
  case False
  then obtain n stores f1 where s: "rfold (merge_block_id s other n) stores f = Inr f1" "retire_call_block del s other f1 = Inr g"
    using assms(2) by (auto simp: combine_def)
  have "quiet f f1" by (rule quiet_rfold[where p = "\<lambda>f. f", OF s(1)]) (rule merge_block_id_quiet)
  then show ?thesis by (rule quiet_trans) (rule retire_call_block_quiet[OF assms(1) s(2)])
qed (use assms(2) in \<open>auto simp: combine_def split: if_splits\<close>)

end
