(* ===== verification/Fuse_Termination.thy ===== *)
theory Fuse_Termination
  imports Call_Graph Combined_Call Fuse_Driver "HOL-Library.Multiset_Order"
begin

text \<open>
  The driver of \<open>fuse-functions\<close> ends on programs without recursion. Every round inlines or gives up the calls
  of its work list, an inlined call is replaced by calls of functions that are lower in the call graph, and
  nothing else adds a call but a call block, which takes the place of others: the ranks of the called
  functions get smaller as a multiset.
\<close>

section \<open>Demoting registers adds no call\<close>

lemma tag_return_user_quiet: "tag_return_user nm u f = Inr g \<Longrightarrow> quiet f g"
  by (auto simp: tag_return_user_def quiet_tag split: if_splits)

lemma tag_loads_quiet: "quiet f (tag_loads nm ix us f)"
proof -
  have "quiet g (case i_kind u of Load p \<Rightarrow> tag_option (i_id u) FuseFunctionArgIdx ix (tag_option (i_id u) FuseFunctionName nm g) | _ \<Rightarrow> g)" for u g
    by (cases "i_kind u") (auto intro: quiet_trans[OF quiet_tag_option quiet_tag_option])
  then show ?thesis unfolding tag_loads_def by (rule quiet_fold)
qed

lemma demote_escaped_quiet:
  assumes "demotion_quiet demote" and "demote_escaped demote ord m p x f = Inr g"
  shows "quiet f g"
proof -
  have d: "quiet f (fst (demote x p f))" using assms(1) unfolding demotion_quiet_def by blast
  have tags: "quiet f g" if "rfold (tag_return_user nm) us (tag_inst a n v (fst (demote x p f))) = Inr g" for nm us a n v
    by (rule quiet_trans[OF quiet_trans[OF d quiet_tag] quiet_rfold[where p = "\<lambda>f. f", OF that]]) (rule tag_return_user_quiet)
  show ?thesis
    using assms(2) d by (auto simp: demote_escaped_def Let_def split_def split: if_splits dest: tags)
qed

lemma demote_phi_node_quiet:
  assumes "demotion_quiet demote" and "demote_phi_node demote ord p x f = Inr g"
  shows "quiet f g"
proof -
  have d: "quiet f (fst (demote x p f))" using assms(1) unfolding demotion_quiet_def by blast
  show ?thesis
    using assms(2) d by (auto simp: demote_phi_node_def Let_def split_def split: if_splits intro!: quiet_trans[OF d tag_loads_quiet])
qed

lemma demote_registers_quiet:
  assumes "demotion_quiet dr" and "demotion_quiet dp" and "demote_registers dr dp ord m f = Inr g"
  shows "quiet f g"
proof -
  obtain a xs ys f2 where s: "rfold (demote_escaped dr ord m a) xs (new_named_before ys (BitCast (ConstInt (CInt 32 0))) (IntTy 32) ''reg2mem alloca point'' f) = Inr f2"
    "rfold (demote_phi_node dp ord a) (rev (map i_id (filter (\<lambda>i. is_phi (i_kind i)) (func_insts f2)))) f2 = Inr g"
    using assms(3) by (auto simp: demote_registers_def Let_def)
  have "quiet f (new_named_before ys (BitCast (ConstInt (CInt 32 0))) (IntTy 32) ''reg2mem alloca point'' f)" by (simp add: quiet_new)
  moreover have "quiet (new_named_before ys (BitCast (ConstInt (CInt 32 0))) (IntTy 32) ''reg2mem alloca point'' f) f2"
    by (rule quiet_rfold[where p = "\<lambda>f. f", OF s(1)]) (rule demote_escaped_quiet[OF assms(1)])
  moreover have "quiet f2 g" by (rule quiet_rfold[where p = "\<lambda>f. f", OF s(2)]) (rule demote_phi_node_quiet[OF assms(2)])
  ultimately show ?thesis by (rule quiet_trans[OF quiet_trans])
qed

section \<open>The calls of a module\<close>

type_synonym call_triple = "nat \<times> nat \<times> nat option"

definition module_calls :: "ir_module \<Rightarrow> call_triple set" where
  "module_calls m = {(f_id f, x, t) | f x t. f \<in> set (m_funcs m) \<and> (x, t) \<in> func_calls f}"

lemma module_callsI: "f \<in> set (m_funcs m) \<Longrightarrow> (x, t) \<in> func_calls f \<Longrightarrow> (f_id f, x, t) \<in> module_calls m"
  by (auto simp: module_calls_def)

definition module_ids_below :: "ir_module \<Rightarrow> bool" where
  "module_ids_below m \<longleftrightarrow> (\<forall>f \<in> set (m_funcs m). ids_below f)"

definition quiet_module :: "ir_module \<Rightarrow> ir_module \<Rightarrow> bool" where
  "quiet_module m m' \<longleftrightarrow> (module_ids_below m \<longrightarrow> module_ids_below m') \<and> module_calls m' \<subseteq> module_calls m"

lemma finite_module_calls: "finite (module_calls m)"
proof -
  have "module_calls m = (\<Union>f \<in> set (m_funcs m). Pair (f_id f) ` func_calls f)" by (auto simp: module_calls_def)
  then show ?thesis by (simp add: finite_func_calls)
qed

lemma quiet_module_refl [simp]: "quiet_module m m"
  by (simp add: quiet_module_def)

lemma quiet_module_trans: "quiet_module m m' \<Longrightarrow> quiet_module m' m'' \<Longrightarrow> quiet_module m m''"
  unfolding quiet_module_def by blast

lemma upd_func_funcs: "h \<in> set (m_funcs (upd_func g (\<lambda>_. f') m)) \<Longrightarrow> h = f' \<or> h \<in> set (m_funcs m) \<and> f_id h \<noteq> g"
  by (auto simp: upd_func_def upd_at_def split: if_splits)

lemma upd_func_calls:
  assumes "find_func m g = Some f" and "f_id f' = f_id f"
  shows "module_calls (upd_func g (\<lambda>_. f') m) \<subseteq> {(h, x, t) \<in> module_calls m. h \<noteq> g} \<union> Pair g ` func_calls f'"
proof
  fix c assume "c \<in> module_calls (upd_func g (\<lambda>_. f') m)"
  then obtain h x t where c: "c = (f_id h, x, t)" "h \<in> set (m_funcs (upd_func g (\<lambda>_. f') m))" "(x, t) \<in> func_calls h"
    by (auto simp: module_calls_def)
  then show "c \<in> {(h, x, t) \<in> module_calls m. h \<noteq> g} \<union> Pair g ` func_calls f'"
    using upd_func_funcs[OF c(2)] find_func_Some[OF assms(1)] assms(2) by (auto simp: module_calls_def)
qed

lemma upd_func_quiet:
  assumes "find_func m g = Some f" and "quiet f f'"
  shows "quiet_module m (upd_func g (\<lambda>_. f') m)"
proof -
  note f = find_func_Some[OF assms(1)]
  have q: "f_id f' = f_id f" "ids_below f \<longrightarrow> ids_below f'" "func_calls f' \<subseteq> func_calls f"
    using assms(2) by (auto simp: adds_calls_def)
  have "Pair g ` func_calls f' \<subseteq> module_calls m" using q(3) f by (auto simp: module_calls_def)
  then have "module_calls (upd_func g (\<lambda>_. f') m) \<subseteq> module_calls m" using upd_func_calls[OF assms(1) q(1)] by blast
  moreover have "module_ids_below m \<longrightarrow> module_ids_below (upd_func g (\<lambda>_. f') m)"
    using upd_func_funcs[of _ g f' m] q(2) f by (auto simp: module_ids_below_def)
  ultimately show ?thesis by (simp add: quiet_module_def)
qed

lemma quiet_module_rfold:
  assumes "rfold h xs s = Inr s'" and "\<And>x s s'. x \<in> set xs \<Longrightarrow> h x s = Inr s' \<Longrightarrow> quiet_module (p s) (p s')"
  shows "quiet_module (p s) (p s')"
  by (rule rfold_invariant[OF assms(1), where I = "\<lambda>t. quiet_module (p s) (p t)"]) (auto intro: quiet_module_trans assms(2))

section \<open>What the driver calls in LLVM\<close>

text \<open>
  The inliner puts the body of the called function in the place of the call: the call is gone, and the only
  new calls are those that come with the body. This is said for programs without calls of unknown
  functions, where inlining cannot find out which function is called.
\<close>

definition inlines_bodies :: "(call_site \<Rightarrow> ir_module \<Rightarrow> ir_module option) \<Rightarrow> bool" where
  "inlines_bodies inline \<longleftrightarrow>
     (\<forall>c m m'. inline c m = Some m' \<longrightarrow> (\<forall>(f, x, t) \<in> module_calls m. t \<noteq> None) \<longrightarrow>
        (module_ids_below m \<longrightarrow> module_ids_below m') \<and>
        (\<forall>(f, x, t) \<in> module_calls m'. (f, x, t) \<in> module_calls m \<and> (f, x) \<noteq> c \<or>
           f = fst c \<and> (\<exists>g y. (fst c, snd c, Some g) \<in> module_calls m \<and> (g, y, t) \<in> module_calls m)))"

definition fuse_llvm_ok :: "fuse_llvm \<Rightarrow> bool" where
  "fuse_llvm_ok u \<longleftrightarrow> split_quiet (u_split u) \<and> edit_quiet (u_del_dead u) \<and> reordering (u_ord u)
     \<and> demotion_quiet (u_demote_reg u) \<and> demotion_quiet (u_demote_phi u) \<and> inlines_bodies (u_inline u)"

lemma demote_callers_quiet:
  assumes "fuse_llvm_ok u" and "demote_callers u gs m = Inr m'"
  shows "quiet_module m m'"
proof -
  have run: "rfold (\<lambda>g m. on_func g (demote_registers (u_demote_reg u) (u_demote_phi u) (u_ord u) m) m) gs m = Inr m'"
    using assms(2) by (simp add: demote_callers_def)
  have d: "demotion_quiet (u_demote_reg u)" "demotion_quiet (u_demote_phi u)" using assms(1) by (simp_all add: fuse_llvm_ok_def)
  show ?thesis
  proof (rule quiet_module_rfold[where p = "\<lambda>m. m", OF run])
    fix g m m' assume "on_func g (demote_registers (u_demote_reg u) (u_demote_phi u) (u_ord u) m) m = Inr m'"
    then show "quiet_module m m'"
      by (auto simp: on_func_def deref_def split: option.splits intro!: upd_func_quiet demote_registers_quiet[OF d])
  qed
qed

lemma merge_sites_quiet:
  assumes "fuse_llvm_ok u" and "merge_sites u e st = Inr st'"
  shows "quiet (snd st) (snd st')"
proof (cases "snd e")
  case (Cons s others)
  then have run: "rfold (\<lambda>other (b, f). rmap (\<lambda>(merged, f'). (b \<or> merged, f')) (combine (u_del_dead u) (u_ord u) s other f)) others st = Inr st'"
    using assms(2) by (simp add: merge_sites_def)
  have del: "edit_quiet (u_del_dead u)" using assms(1) by (simp add: fuse_llvm_ok_def)
  show ?thesis by (rule quiet_rfold[where p = snd, OF run]) (auto intro: combine_quiet[OF del])
qed (use assms(2) in \<open>simp add: merge_sites_def\<close>)

lemma clean_caller_quiet:
  assumes "fuse_llvm_ok u" and "clean_caller u e st = Inr st'"
  shows "quiet_module (snd st) (snd st')"
proof -
  obtain g xs gs m where e: "e = (g, xs)" "st = (gs, m)" by (cases e; cases st) auto
  obtain f ccs b f' where s: "find_func m g = Some f" "rfold (merge_sites u) (u_dense u ccs) (False, f) = Inr (b, f')"
    "snd st' = upd_func g (\<lambda>_. f') m"
    using assms(2) by (auto simp: clean_caller_def e deref_def split: option.splits)
  have "quiet (snd (False, f)) (snd (b, f'))"
    by (rule quiet_rfold[where p = snd, OF s(2)]) (rule merge_sites_quiet[OF assms(1)])
  then show ?thesis using upd_func_quiet[OF s(1)] by (simp add: s(3) e)
qed

section \<open>Ranks\<close>

text \<open>Every called function is known and has a smaller rank than its caller: there is no recursion.\<close>

definition ranked :: "(nat \<Rightarrow> nat) \<Rightarrow> call_triple set \<Rightarrow> bool" where
  "ranked \<rho> C \<longleftrightarrow> (\<forall>(f, x, t) \<in> C. \<exists>g. t = Some g \<and> \<rho> g < \<rho> f)"

definition weight :: "(nat \<Rightarrow> nat) \<Rightarrow> call_triple set \<Rightarrow> nat multiset" where
  "weight \<rho> B = image_mset (\<lambda>(f, x, t). \<rho> (the t)) (mset_set B)"

lemma ranked_subset: "ranked \<rho> C \<Longrightarrow> D \<subseteq> C \<Longrightarrow> ranked \<rho> D"
  unfolding ranked_def by blast

lemma ranked_Un: "ranked \<rho> (C \<union> D) \<longleftrightarrow> ranked \<rho> C \<and> ranked \<rho> D"
  unfolding ranked_def by blast

lemma weight_mono: "finite B \<Longrightarrow> A \<subseteq> B \<Longrightarrow> weight \<rho> A \<le> weight \<rho> B"
  unfolding weight_def by (intro subset_eq_imp_le_multiset image_mset_subseteq_mono) (simp add: subset_imp_msubset_mset_set)

lemma weight_Un: "finite A \<Longrightarrow> finite B \<Longrightarrow> A \<inter> B = {} \<Longrightarrow> weight \<rho> (A \<union> B) = weight \<rho> A + weight \<rho> B"
  by (simp add: weight_def mset_set_Union)

lemma weight_replace:
  assumes "finite B" and "X \<subseteq> B" and "finite Y" and "B' \<subseteq> (B - X) \<union> Y" and "weight \<rho> Y < weight \<rho> X \<or> weight \<rho> Y = weight \<rho> X"
  shows "weight \<rho> B' \<le> weight \<rho> B" and "weight \<rho> Y < weight \<rho> X \<Longrightarrow> weight \<rho> B' < weight \<rho> B"
proof -
  have fin: "finite (B - X)" "finite (Y - (B - X))" "finite X" using assms(1-3) finite_subset by auto
  have "weight \<rho> B' \<le> weight \<rho> ((B - X) \<union> (Y - (B - X)))" using assms(4) fin by (intro weight_mono) auto
  also have "\<dots> = weight \<rho> (B - X) + weight \<rho> (Y - (B - X))" by (rule weight_Un) (use fin in auto)
  also have "\<dots> \<le> weight \<rho> (B - X) + weight \<rho> Y" using weight_mono[OF assms(3), of "Y - (B - X)"] by simp
  finally have le: "weight \<rho> B' \<le> weight \<rho> (B - X) + weight \<rho> Y" .
  have B: "weight \<rho> B = weight \<rho> (B - X) + weight \<rho> X"
  proof -
    have "(B - X) \<inter> X = {}" "(B - X) \<union> X = B" using assms(2) by blast+
    then show ?thesis using weight_Un[OF fin(1,3)] by metis
  qed
  show "weight \<rho> B' < weight \<rho> B" if "weight \<rho> Y < weight \<rho> X"
    using le that unfolding B by (simp add: le_less_trans)
  then show "weight \<rho> B' \<le> weight \<rho> B" using le assms(5) unfolding B by auto
qed

lemma weight_dominated:
  assumes "finite X" and "finite Y" and "X \<noteq> {}" and "\<And>y. y \<in> Y \<Longrightarrow> \<exists>x \<in> X. \<rho> (the (snd (snd y))) < \<rho> (the (snd (snd x)))"
  shows "weight \<rho> Y < weight \<rho> X"
proof -
  have X: "weight \<rho> X \<noteq> {#}" using assms(1,3) by (simp add: weight_def mset_set_empty_iff)
  have "\<forall>k \<in> set_mset (weight \<rho> Y). \<exists>j \<in> set_mset (weight \<rho> X). k < j"
  proof
    fix k assume "k \<in># weight \<rho> Y"
    then obtain y where y: "y \<in> Y" "k = \<rho> (the (snd (snd y)))" using assms(2) by (auto simp: weight_def)
    then obtain x where "x \<in> X" "k < \<rho> (the (snd (snd x)))" using assms(4) by blast
    then show "\<exists>j \<in> set_mset (weight \<rho> X). k < j" using assms(1) by (force simp: weight_def case_prod_beta)
  qed
  from one_step_implies_multp[OF X this, of "{#}"] show ?thesis by (simp add: less_multiset_def)
qed

section \<open>The calls that are still to inline\<close>

text \<open>The calls that are not given up, or that are on the work list.\<close>

definition live_calls :: "call_site set \<Rightarrow> call_site set \<Rightarrow> ir_module \<Rightarrow> call_triple set" where
  "live_calls ign pend m = {(f, x, t) \<in> module_calls m. (f, x) \<notin> ign \<or> (f, x) \<in> pend}"

lemma finite_live: "finite (live_calls ign pend m)"
  by (rule finite_subset[OF _ finite_module_calls[of m]]) (auto simp: live_calls_def)

lemma live_quiet: "quiet_module m m' \<Longrightarrow> live_calls ign pend m' \<subseteq> live_calls ign pend m"
  by (auto simp: quiet_module_def live_calls_def)

definition good_module :: "(nat \<Rightarrow> nat) \<Rightarrow> ir_module \<Rightarrow> bool" where
  "good_module \<rho> m \<longleftrightarrow> module_ids_below m \<and> ranked \<rho> (module_calls m)"

lemma good_quiet: "good_module \<rho> m \<Longrightarrow> quiet_module m m' \<Longrightarrow> good_module \<rho> m'"
  unfolding good_module_def quiet_module_def using ranked_subset by blast

text \<open>The candidates are calls that are not given up.\<close>

lemma candidate_call_target: "candidate_call m ign f i = Some g \<Longrightarrow> call_target i = Some (Some g) \<and> (f_id f, i_id i) \<notin> set ign"
  by (auto simp: candidate_call_def call_target_called split: if_splits option.splits fn_id.splits)

lemma push_call_all:
  assumes "\<And>a inner g xs x. (a, inner) \<in> set cm \<Longrightarrow> (g, xs) \<in> set inner \<Longrightarrow> x \<in> set xs \<Longrightarrow> R a g x" and "R c h y"
    and "(a, inner) \<in> set (push_call c h y cm)" and "(g, xs) \<in> set inner" and "x \<in> set xs"
  shows "R a g x"
proof -
  define D where "D = (case map_of cm c of None \<Rightarrow> [] | Some inner \<Rightarrow> inner)"
  define V where "V = (case map_of D h of None \<Rightarrow> [] | Some vs \<Rightarrow> vs)"
  have old: "R c g x" if "(g, xs) \<in> set D" "x \<in> set xs" for g xs x
  proof (cases "map_of cm c")
    case (Some inner)
    then show ?thesis using that assms(1)[OF map_of_SomeD[OF Some]] by (simp add: D_def)
  qed (use that in \<open>simp add: D_def\<close>)
  have vs: "R c h x" if "x \<in> set V" for x
  proof (cases "map_of D h")
    case (Some vs)
    then show ?thesis using that old[OF map_of_SomeD[OF Some]] by (simp add: V_def)
  qed (use that in \<open>simp add: V_def\<close>)
  have push: "push_call c h y cm = AList.update c (push_back h y D) cm" "push_back h y D = AList.update h (V @ [y]) D"
    by (simp_all add: push_call_def push_back_def D_def V_def)
  consider "(a, inner) \<in> set cm" | "a = c" "inner = AList.update h (V @ [y]) D"
    using assms(3) set_update[of c "push_back h y D" cm] unfolding push by auto
  then show ?thesis
  proof cases
    case 2
    then have "(g, xs) \<in> set D \<or> g = h \<and> xs = V @ [y]" using assms(4) set_update[of h "V @ [y]" D] by auto
    then show ?thesis using old vs assms(2,5) 2(1) by auto
  qed (use assms(1,4,5) in blast)
qed

definition candidate_map :: "call_site list \<Rightarrow> ir_module \<Rightarrow> call_site_map \<Rightarrow> bool" where
  "candidate_map ign m cm \<longleftrightarrow> call_map_ok cm \<and>
     (\<forall>a inner g xs x. (a, inner) \<in> set cm \<longrightarrow> (g, xs) \<in> set inner \<longrightarrow> x \<in> set xs \<longrightarrow>
        (a, x, Some g) \<in> module_calls m \<and> (a, x) \<notin> set ign)"

lemma candidates_sound: "candidate_map ign m (get_candidate_call_sites m ig ign)"
proof -
  have push: "candidate_map ign m (push_call c h y cm)"
    if "candidate_map ign m cm" "(c, y, Some h) \<in> module_calls m" "(c, y) \<notin> set ign" for cm c h y
  proof -
    let ?R = "\<lambda>a g x. (a, x, Some g) \<in> module_calls m \<and> (a, x) \<notin> set ign"
    have "?R a g x" if "(a, inner) \<in> set (push_call c h y cm)" "(g, xs) \<in> set inner" "x \<in> set xs" for a inner g xs x
      by (rule push_call_all[where R = ?R, OF _ _ that])
        (use \<open>candidate_map ign m cm\<close> \<open>(c, y, Some h) \<in> module_calls m\<close> \<open>(c, y) \<notin> set ign\<close> in \<open>auto simp: candidate_map_def\<close>)
    then show ?thesis using push_call_ok \<open>candidate_map ign m cm\<close> unfolding candidate_map_def by blast
  qed
  have one: "candidate_map ign m (fold (\<lambda>i cm. case candidate_call m ign f i of None \<Rightarrow> cm | Some g \<Rightarrow> push_call (f_id f) g (i_id i) cm) is cm)"
    if "f \<in> set (m_funcs m)" "set is \<subseteq> set (func_insts f)" "candidate_map ign m cm" for f "is" cm
    using that(2,3)
  proof (induction "is" arbitrary: cm)
    case (Cons i "is")
    show ?case
    proof (cases "candidate_call m ign f i")
      case (Some g)
      have "(f_id f, i_id i, Some g) \<in> module_calls m" "(f_id f, i_id i) \<notin> set ign"
        using candidate_call_target[OF Some] that(1) Cons.prems(1) by (auto simp: module_calls_def func_callsI)
      then show ?thesis using Some Cons push by simp
    qed (use Cons in simp)
  qed simp
  have "candidate_map ign m (fold (get_candidate_call_sites_fn m ig ign) fs cm)"
    if "set fs \<subseteq> set (m_funcs m)" "candidate_map ign m cm" for fs cm
    using that by (induction fs arbitrary: cm) (simp_all add: get_candidates_fn_insts one)
  moreover have "candidate_map ign m []" by (simp add: candidate_map_def call_map_ok_def)
  ultimately show ?thesis unfolding get_candidate_call_sites_def by (metis filter_is_subset)
qed

section \<open>The calls of the work list\<close>

lemma weight_drop:
  assumes "finite B" and "B' \<subseteq> B - X" and "X \<subseteq> B"
  shows "weight \<rho> B' \<le> weight \<rho> B" and "X \<noteq> {} \<Longrightarrow> weight \<rho> B' < weight \<rho> B"
proof -
  have "finite X" using assms(1,3) finite_subset by blast
  have lt: "X \<noteq> {} \<Longrightarrow> weight \<rho> {} < weight \<rho> X" using weight_dominated[of X "{}"] \<open>finite X\<close> by simp
  then have or: "weight \<rho> {} < weight \<rho> X \<or> weight \<rho> {} = weight \<rho> X" by (cases "X = {}") auto
  have sub: "B' \<subseteq> (B - X) \<union> {}" using assms(2) by blast
  note w = weight_replace[OF assms(1,3) finite.emptyI sub or]
  show "weight \<rho> B' \<le> weight \<rho> B" by (rule w(1))
  show "X \<noteq> {} \<Longrightarrow> weight \<rho> B' < weight \<rho> B" using lt w(2) by blast
qed

lemma inlined_calls:
  assumes inl: "inlines_bodies inline" and run: "inline c m = Some m'" and good: "good_module \<rho> m"
    and B: "finite B" "live_calls ign (insert c P) m \<subseteq> B" and c: "c \<notin> P" "(fst c, snd c, Some g) \<in> module_calls m"
  shows "good_module \<rho> m'" and "weight \<rho> (live_calls ign P m') < weight \<rho> B"
proof -
  have rk: "ranked \<rho> (module_calls m)" and ids: "module_ids_below m" using good by (simp_all add: good_module_def)
  have known: "\<forall>(f, x, t) \<in> module_calls m. t \<noteq> None" using rk unfolding ranked_def by blast
  note body = inl[unfolded inlines_bodies_def, THEN spec, THEN spec, THEN spec, THEN mp, THEN mp, OF run known]
  have below: "module_ids_below m'" by (rule mp[OF conjunct1[OF body] ids])
  have origin: "(f, x, t) \<in> module_calls m \<and> (f, x) \<noteq> c \<or>
        f = fst c \<and> (\<exists>g y. (fst c, snd c, Some g) \<in> module_calls m \<and> (g, y, t) \<in> module_calls m)"
    if "(f, x, t) \<in> module_calls m'" for f x t
    using bspec[OF conjunct2[OF body] that] by simp
  have new: "\<exists>h. t = Some h \<and> \<rho> h < \<rho> g \<and> \<rho> g < \<rho> (fst c)"
    if "(fst c, snd c, Some g) \<in> module_calls m" "(g, y, t) \<in> module_calls m" for g y t
    using bspec[OF rk[unfolded ranked_def] that(1)] bspec[OF rk[unfolded ranked_def] that(2)] by auto
  have "ranked \<rho> (module_calls m')"
    unfolding ranked_def
  proof (intro ballI, clarify)
    fix f x t assume "(f, x, t) \<in> module_calls m'"
    from origin[OF this] show "\<exists>g. t = Some g \<and> \<rho> g < \<rho> f"
    proof
      assume "f = fst c \<and> (\<exists>g y. (fst c, snd c, Some g) \<in> module_calls m \<and> (g, y, t) \<in> module_calls m)"
      then show ?thesis using new less_trans by blast
    qed (use rk in \<open>auto simp: ranked_def\<close>)
  qed
  with below show "good_module \<rho> m'" by (simp add: good_module_def)
  let ?X = "{(fst c, snd c, t) | t. (fst c, snd c, t) \<in> B}"
  let ?Y = "{(f, x, t) \<in> module_calls m'. f = fst c \<and> (\<exists>g y. (fst c, snd c, Some g) \<in> module_calls m \<and> (g, y, t) \<in> module_calls m)}"
  have inX: "(fst c, snd c, Some g) \<in> ?X" if "(fst c, snd c, Some g) \<in> module_calls m" for g
    using that B(2) by (auto simp: live_calls_def)
  have sub: "?X \<subseteq> B" by blast
  have fin: "finite ?X" "finite ?Y" using finite_subset[OF sub B(1)] finite_subset[OF _ finite_module_calls[of m'], of ?Y] by auto
  have "weight \<rho> ?Y < weight \<rho> ?X"
  proof (rule weight_dominated[OF fin])
    show "?X \<noteq> {}" using inX[OF c(2)] by blast
    fix y assume "y \<in> ?Y"
    then obtain x t g z where y: "y = (fst c, x, t)" "(fst c, snd c, Some g) \<in> module_calls m" "(g, z, t) \<in> module_calls m" by blast
    from new[OF y(2,3)] obtain h where "t = Some h" "\<rho> h < \<rho> g" by blast
    with y(1) have "\<rho> (the (snd (snd y))) < \<rho> (the (snd (snd (fst c, snd c, Some g))))" by simp
    then show "\<exists>x \<in> ?X. \<rho> (the (snd (snd y))) < \<rho> (the (snd (snd x)))" using inX[OF y(2)] by blast
  qed
  moreover have "live_calls ign P m' \<subseteq> (B - ?X) \<union> ?Y"
  proof
    fix e assume "e \<in> live_calls ign P m'"
    then obtain f x t where l: "e = (f, x, t)" "(f, x, t) \<in> module_calls m'" "(f, x) \<notin> ign \<or> (f, x) \<in> P"
      by (auto simp: live_calls_def)
    from origin[OF l(2)] show "e \<in> (B - ?X) \<union> ?Y"
    proof
      assume "(f, x, t) \<in> module_calls m \<and> (f, x) \<noteq> c"
      then show ?thesis using l(1,3) B(2) by (auto simp: live_calls_def)
    qed (use l(1,2) in blast)
  qed
  ultimately show "weight \<rho> (live_calls ign P m') < weight \<rho> B"
    using weight_replace(2)[OF B(1) sub fin(2)] by blast
qed

lemma inline_step:
  assumes u: "fuse_llvm_ok u" and good: "good_module \<rho> (fs_module s)" and fin: "finite B"
    and B: "live_calls (set (failedInlineCallSites s)) (insert c P) (fs_module s) \<subseteq> B" and c: "c \<notin> P"
    and run: "inline_call u c s = Inr s'"
  shows "good_module \<rho> (fs_module s')"
    and "weight \<rho> (live_calls (set (failedInlineCallSites s')) P (fs_module s')) \<le> weight \<rho> B"
    and "(fst c, snd c, t) \<in> B \<Longrightarrow> weight \<rho> (live_calls (set (failedInlineCallSites s')) P (fs_module s')) < weight \<rho> B"
proof -
  obtain f ci where f: "find_func (fs_module s) (fst c) = Some f" "find_inst f (snd c) = Some ci"
    using run by (auto simp: inline_call_def deref_def get_inst_def split: option.splits)
  have "good_module \<rho> (fs_module s') \<and>
      weight \<rho> (live_calls (set (failedInlineCallSites s')) P (fs_module s')) \<le> weight \<rho> B \<and>
      ((fst c, snd c, t) \<in> B \<longrightarrow> weight \<rho> (live_calls (set (failedInlineCallSites s')) P (fs_module s')) < weight \<rho> B)"
  proof (cases "u_inline u c (fs_module s)")
    case None
    then have s': "fs_module s' = fs_module s" "set (failedInlineCallSites s') = insert c (set (failedInlineCallSites s))"
      using run f by (auto simp: inline_call_def deref_def get_inst_def)
    let ?X = "{(fst c, snd c, t) | t. (fst c, snd c, t) \<in> B}"
    have "live_calls (set (failedInlineCallSites s')) P (fs_module s') \<subseteq> B - ?X"
      using B c unfolding s' by (auto simp: live_calls_def)
    from weight_drop[OF fin this] show ?thesis using good s'(1) by auto
  next
    case (Some m')
    then obtain g where g: "called_function (i_kind ci) = Some (Fn g)" "fs_module s' = m'" "failedInlineCallSites s' = failedInlineCallSites s"
      using run f by (auto simp: inline_call_def deref_def get_inst_def split: option.splits fn_id.splits)
    have "(fst c, snd c, Some g) \<in> module_calls (fs_module s)"
      using module_callsI[OF _ func_callsI[OF _ call_target_called[OF g(1)]]] find_inst_Some[OF f(2)] find_func_Some[OF f(1)] by metis
    moreover have "inlines_bodies (u_inline u)" using u by (simp add: fuse_llvm_ok_def)
    ultimately show ?thesis using inlined_calls[where inline = "u_inline u", OF _ Some good fin B c] g by (simp add: less_imp_le)
  qed
  then show "good_module \<rho> (fs_module s')"
    and "weight \<rho> (live_calls (set (failedInlineCallSites s')) P (fs_module s')) \<le> weight \<rho> B"
    and "(fst c, snd c, t) \<in> B \<Longrightarrow> weight \<rho> (live_calls (set (failedInlineCallSites s')) P (fs_module s')) < weight \<rho> B"
    by blast+
qed

lemma inline_phase:
  assumes "fuse_llvm_ok u" and "good_module \<rho> (fs_module s)" and "finite B"
    and "live_calls (set (failedInlineCallSites s)) (set cs) (fs_module s) \<subseteq> B" and "distinct cs"
    and "rfold (inline_call u) cs s = Inr s'"
  shows "good_module \<rho> (fs_module s') \<and> weight \<rho> (live_calls (set (failedInlineCallSites s')) {} (fs_module s')) \<le> weight \<rho> B
    \<and> (\<forall>c cs'. cs = c # cs' \<longrightarrow> (\<exists>t. (fst c, snd c, t) \<in> B) \<longrightarrow>
         weight \<rho> (live_calls (set (failedInlineCallSites s')) {} (fs_module s')) < weight \<rho> B)"
  using assms(2-)
proof (induction cs arbitrary: s B)
  case Nil
  then show ?case using weight_mono by simp
next
  case (Cons c cs)
  obtain s1 where s1: "inline_call u c s = Inr s1" "rfold (inline_call u) cs s1 = Inr s'" using Cons.prems(5) by auto
  have "live_calls (set (failedInlineCallSites s)) (insert c (set cs)) (fs_module s) \<subseteq> B" "c \<notin> set cs" using Cons.prems(3,4) by simp_all
  note step = inline_step[OF assms(1) Cons.prems(1,2) this s1(1)]
  from Cons.IH[OF step(1) finite_live subset_refl _ s1(2)] Cons.prems(4)
  have r: "good_module \<rho> (fs_module s')"
    "weight \<rho> (live_calls (set (failedInlineCallSites s')) {} (fs_module s')) \<le> weight \<rho> (live_calls (set (failedInlineCallSites s1)) (set cs) (fs_module s1))"
    by auto
  show ?case
  proof (intro conjI allI impI)
    show "weight \<rho> (live_calls (set (failedInlineCallSites s')) {} (fs_module s')) \<le> weight \<rho> B"
      using r(2) step(2) by (rule order_trans)
    fix d cs' assume "c # cs = d # cs'" "\<exists>t. (fst d, snd d, t) \<in> B"
    then obtain t where "(fst c, snd c, t) \<in> B" by auto
    from le_less_trans[OF r(2) step(3)[OF this]]
    show "weight \<rho> (live_calls (set (failedInlineCallSites s')) {} (fs_module s')) < weight \<rho> B" .
  qed (rule r(1))
qed

section \<open>Combining calls\<close>

text \<open>
  While the calls of the caller \<open>F\<close> are combined, the triples \<open>B\<close> bound what is still to inline: those of
  the entries \<open>es\<close> that are left, and one for each call on the work list.
\<close>

definition combining ::
  "(nat \<Rightarrow> nat) \<Rightarrow> call_site set \<Rightarrow> nat \<Rightarrow> (nat \<times> nat list) list \<Rightarrow> ir_func \<times> work_lists \<Rightarrow> call_triple set \<Rightarrow> bool" where
  "combining \<rho> ign F es st B \<longleftrightarrow>
     f_id (fst st) = F \<and> ids_below (fst st) \<and> ranked \<rho> (Pair F ` func_calls (fst st))
     \<and> (\<forall>x t. (x, t) \<in> func_calls (fst st) \<longrightarrow> (F, x) \<notin> ign \<or> (F, x) \<in> set (CallSites (snd st)) \<longrightarrow> (F, x, t) \<in> B)
     \<and> distinct (map fst es) \<and> (\<forall>g xs x. (g, xs) \<in> set es \<longrightarrow> x \<in> set xs \<longrightarrow> (F, x, Some g) \<in> B \<and> (F, x) \<notin> ign)
     \<and> (\<forall>x. (F, x) \<in> set (CallSites (snd st)) \<longrightarrow> (\<exists>h. (F, x, Some h) \<in> B \<and> h \<notin> fst ` set es))
     \<and> distinct (CallSites (snd st)) \<and> finite B \<and> ranked \<rho> B"

definition same_outside :: "nat \<Rightarrow> work_lists \<Rightarrow> call_triple set \<Rightarrow> work_lists \<Rightarrow> call_triple set \<Rightarrow> bool" where
  "same_outside F wl B wl' B' \<longleftrightarrow>
     (\<forall>f x t. f \<noteq> F \<longrightarrow> ((f, x, t) \<in> B' \<longleftrightarrow> (f, x, t) \<in> B)) \<and>
     (\<forall>f x. f \<noteq> F \<longrightarrow> ((f, x) \<in> set (CallSites wl') \<longleftrightarrow> (f, x) \<in> set (CallSites wl)))"

lemma combining_quiet:
  assumes "combining \<rho> ign F (e # es) (f, wl) B" and "quiet f f'" and "CallSites wl' = CallSites wl"
  shows "combining \<rho> ign F es (f', wl') B"
proof -
  have q: "f_id f' = f_id f" "ids_below f \<longrightarrow> ids_below f'" "func_calls f' \<subseteq> func_calls f"
    using assms(2) by (auto simp: adds_calls_def)
  have "ranked \<rho> (Pair F ` func_calls f)" using assms(1) by (simp add: combining_def)
  then have "ranked \<rho> (Pair F ` func_calls f')" by (rule ranked_subset) (rule image_mono[OF q(3)])
  then show ?thesis using assms(1,3) q unfolding combining_def by auto
qed

lemma combining_single:
  assumes "combining \<rho> ign F ((g, [x]) # es) (f, wl) B" and "CallSites wl' = setv_insert (F, x) (CallSites wl)"
  shows "combining \<rho> ign F es (f, wl') B" and "same_outside F wl B wl' B"
proof -
  have "(F, x, Some g) \<in> B" "(F, x) \<notin> ign" "g \<notin> fst ` set es" using assms(1) by (auto simp: combining_def)
  then show "combining \<rho> ign F es (f, wl') B" using assms unfolding combining_def by auto
  show "same_outside F wl B wl' B" by (simp add: same_outside_def assms(2))
qed

lemma combining_block:
  assumes inv: "combining \<rho> ign F ((g, xs) # es) (f, wl) B" and xs: "xs \<noteq> []"
    and new: "adds_calls {(comb, Some g)} f f'" "f_next f \<le> comb" "func_calls f' \<subseteq> {(x, t) \<in> func_calls f. x \<notin> set xs} \<union> {(comb, Some g)}"
    and wl': "CallSites wl' = setv_insert (F, comb) (CallSites wl)"
  shows "\<exists>B'. combining \<rho> ign F es (f', wl') B' \<and> same_outside F wl B wl' B' \<and> weight \<rho> B' \<le> weight \<rho> B"
proof -
  let ?X = "{(F, x, Some g) | x. x \<in> set xs}" and ?n = "(F, comb, Some g)"
  let ?B = "(B - ?X) \<union> {?n}"
  have i: "f_id f = F" "ids_below f" "ranked \<rho> (Pair F ` func_calls f)" "finite B" "ranked \<rho> B" "distinct (CallSites wl)"
    "\<And>x t. (x, t) \<in> func_calls f \<Longrightarrow> (F, x) \<notin> ign \<or> (F, x) \<in> set (CallSites wl) \<Longrightarrow> (F, x, t) \<in> B"
    "\<And>h ys x. (h, ys) \<in> set ((g, xs) # es) \<Longrightarrow> x \<in> set ys \<Longrightarrow> (F, x, Some h) \<in> B \<and> (F, x) \<notin> ign"
    "\<And>x. (F, x) \<in> set (CallSites wl) \<Longrightarrow> \<exists>h. (F, x, Some h) \<in> B \<and> h \<notin> fst ` set ((g, xs) # es)"
    and g: "g \<notin> fst ` set es" "distinct (map fst es)"
    using inv unfolding combining_def by auto
  obtain x0 where x0: "x0 \<in> set xs" using xs by (cases xs) auto
  then have x0B: "(F, x0, Some g) \<in> B" using i(8) by auto
  then have rg: "\<rho> g < \<rho> F" using i(5) by (auto simp: ranked_def)
  have sub: "?X \<subseteq> B" using i(8) by auto
  have finX: "finite ?X" by (rule finite_subset[OF sub i(4)])
  have "weight \<rho> {?n} = weight \<rho> {(F, x0, Some g)}" by (simp add: weight_def)
  also have "\<dots> \<le> weight \<rho> ?X" using finX x0 by (intro weight_mono) auto
  finally have "weight \<rho> {?n} < weight \<rho> ?X \<or> weight \<rho> {?n} = weight \<rho> ?X" by (simp add: order_le_less)
  from weight_replace(1)[OF i(4) sub _ subset_refl this] have le: "weight \<rho> ?B \<le> weight \<rho> B" by simp
  have fresh: "x \<noteq> comb" if xt: "(x, t) \<in> func_calls f" for x t
  proof -
    have "x < f_next f" using xt i(2) by (auto simp: func_calls_def ids_below_def)
    then show ?thesis using new(2) by simp
  qed
  have f': "f_id f' = F" "ids_below f'" using new(1) i(1,2) by (auto simp: adds_calls_def)
  have "Pair F ` func_calls f' \<subseteq> Pair F ` func_calls f \<union> {?n}" using new(3) by auto
  moreover have "ranked \<rho> (Pair F ` func_calls f \<union> {?n})" using i(3) rg by (auto simp: ranked_def)
  ultimately have rk: "ranked \<rho> (Pair F ` func_calls f')" by (rule ranked_subset[rotated])
  have live: "(F, x, t) \<in> ?B" if xt: "(x, t) \<in> func_calls f'" and l: "(F, x) \<notin> ign \<or> (F, x) \<in> set (CallSites wl')" for x t
  proof -
    consider "(x, t) \<in> func_calls f" "x \<notin> set xs" | "(x, t) = (comb, Some g)" using xt new(3) by auto
    then show ?thesis
    proof cases
      case 1
      then have "(F, x) \<notin> ign \<or> (F, x) \<in> set (CallSites wl)" using l fresh[OF 1(1)] by (auto simp: wl')
      then show ?thesis using i(7)[OF 1(1)] 1(2) by auto
    qed simp
  qed
  have rest: "(F, x, Some h) \<in> ?B \<and> (F, x) \<notin> ign" if "(h, ys) \<in> set es" "x \<in> set ys" for h ys x
    using i(8)[of h ys x] that g(1) by force
  have sites: "\<exists>h. (F, x, Some h) \<in> ?B \<and> h \<notin> fst ` set es" if "(F, x) \<in> set (CallSites wl')" for x
  proof (cases "x = comb")
    case False
    then have "(F, x) \<in> set (CallSites wl)" using that by (simp add: wl')
    from i(9)[OF this] obtain h where "(F, x, Some h) \<in> B" "h \<noteq> g" "h \<notin> fst ` set es" by auto
    then show ?thesis by auto
  qed (use g(1) in auto)
  have "ranked \<rho> ?B" using i(5) rg by (auto simp: ranked_def)
  then have "combining \<rho> ign F es (f', wl') ?B"
    unfolding combining_def using f' rk live g(2) rest sites i(4,6) by (simp add: wl')
  moreover have "same_outside F wl B wl' ?B" by (auto simp: same_outside_def wl')
  ultimately show ?thesis using le by blast
qed

lemma same_outside_refl: "CallSites wl' = CallSites wl \<Longrightarrow> same_outside F wl B wl' B"
  by (simp add: same_outside_def)

text \<open>What a callee's calls become: nothing to do, the single call, one new call block, or calls added to one.\<close>

lemma combine_callee_cases:
  assumes "split_quiet split" and "reordering ord" and run: "combine_callee split ord m ccs (g, xs) (f, wl) = Inr (f', wl')"
  obtains (none) "xs = []" "f' = f" "wl' = wl"
  | (single) x where "xs = [x]" "f' = f" "CallSites wl' = setv_insert (f_id f, x) (CallSites wl)"
  | (block) callee comb where "xs \<noteq> []" "f_id callee = g" "new_call_block split callee xs f = Inr (f', comb)"
      "CallSites wl' = setv_insert (f_id f, comb) (CallSites wl)"
  | (existing) "ccs \<noteq> []" "quiet f f'" "CallSites wl' = CallSites wl"
proof -
  consider "xs = []" | x where "xs = [x]" | x y ys where "xs = x # y # ys" by (cases xs rule: remdups_adj.cases) auto
  then show ?thesis
  proof cases
    case 1
    then show ?thesis using run none by (simp add: combine_callee_def)
  next
    case 2
    then show ?thesis using run single by (auto simp: combine_callee_def)
  next
    case 3
    then obtain callee where callee: "find_func m g = Some callee"
      using run by (auto simp: combine_callee_def deref_def split: option.splits)
    show ?thesis
    proof (cases "map_of ccs (f_name callee)")
      case None
      then obtain comb where "new_call_block split callee xs f = Inr (f', comb)" "CallSites wl' = setv_insert (f_id f, comb) (CallSites wl)"
        using run callee by (auto simp: combine_callee_def 3 deref_def Let_def)
      then show ?thesis using block[of callee comb] find_func_Some[OF callee] 3 by simp
    next
      case (Some sites)
      then obtain s where "first_of sites = Some s"
        using run callee by (auto simp: combine_callee_def 3 deref_def Let_def split: option.splits)
      then have s: "rfold (\<lambda>x h. rmap snd (combine_call split ord (func_name m) s (f_id f, x) h)) xs f = Inr f'" "CallSites wl' = CallSites wl"
        using run callee Some by (auto simp: combine_callee_def 3 deref_def Let_def simp del: rfold.simps)
      have "quiet f f'"
        by (rule quiet_rfold[where p = "\<lambda>f. f", OF s(1)]) (auto intro: combine_call_quiet[OF assms(1,2)])
      moreover have "ccs \<noteq> []" using Some by auto
      ultimately show ?thesis using existing s(2) by blast
    qed
  qed
qed

lemma combine_callee_bound:
  assumes "split_quiet split" and "reordering ord" and inv: "combining \<rho> ign F ((g, xs) # es) (f, wl) B"
    and run: "combine_callee split ord m ccs (g, xs) (f, wl) = Inr (f', wl')"
  shows "\<exists>B'. combining \<rho> ign F es (f', wl') B' \<and> same_outside F wl B wl' B' \<and> weight \<rho> B' \<le> weight \<rho> B"
proof -
  have F: "f_id f = F" using inv by (simp add: combining_def)
  show ?thesis
  proof (cases rule: combine_callee_cases[OF assms(1,2) run, case_names none single block existing])
    case none
    then show ?thesis using combining_quiet[OF inv quiet_refl, of wl] same_outside_refl[of wl wl] by auto
  next
    case (single x)
    then show ?thesis using combining_single[of \<rho> ign F g x es f wl B wl'] inv F by auto
  next
    case (block callee comb)
    show ?thesis
      by (rule combining_block[OF inv block(1) new_call_block_calls[OF assms(1) block(3), unfolded block(2)] block(4)[unfolded F]])
  next
    case existing
    then show ?thesis using combining_quiet[OF inv] same_outside_refl by blast
  qed
qed

lemma same_outside_trans:
  "same_outside F wl B wl1 B1 \<Longrightarrow> same_outside F wl1 B1 wl2 B2 \<Longrightarrow> same_outside F wl B wl2 B2"
  by (simp add: same_outside_def)

lemma combine_callees_bound:
  assumes "split_quiet split" and "reordering ord"
  shows "combining \<rho> ign F es st B \<Longrightarrow> rfold (combine_callee split ord m ccs) es st = Inr st' \<Longrightarrow>
    \<exists>B'. combining \<rho> ign F [] st' B' \<and> same_outside F (snd st) B (snd st') B' \<and> weight \<rho> B' \<le> weight \<rho> B"
proof (induction es arbitrary: st B)
  case Nil
  then show ?case by (intro exI[of _ B]) (simp add: same_outside_refl)
next
  case (Cons e es)
  obtain g xs f wl f1 wl1 where e: "e = (g, xs)" "st = (f, wl)" "combine_callee split ord m ccs e st = Inr (f1, wl1)"
    "rfold (combine_callee split ord m ccs) es (f1, wl1) = Inr st'"
    using Cons.prems(2) by (cases e; cases st) auto
  from combine_callee_bound[OF assms Cons.prems(1)[unfolded e(1,2)] e(3)[unfolded e(1,2)]] obtain B1 where B1:
    "combining \<rho> ign F es (f1, wl1) B1" "same_outside F wl B wl1 B1" "weight \<rho> B1 \<le> weight \<rho> B" by blast
  from Cons.IH[OF B1(1) e(4)] obtain B2 where
    "combining \<rho> ign F [] st' B2" "same_outside F wl1 B1 (snd st') B2" "weight \<rho> B2 \<le> weight \<rho> B1" by auto
  then show ?case using B1(2,3) e(2) same_outside_trans[of F wl B wl1 B1] by (intro exI[of _ B2]) auto
qed

text \<open>The same for the callers that are left.\<close>

definition combining_module ::
  "(nat \<Rightarrow> nat) \<Rightarrow> call_site set \<Rightarrow> call_site_map \<Rightarrow> ir_module \<times> work_lists \<Rightarrow> call_triple set \<Rightarrow> bool" where
  "combining_module \<rho> ign es st B \<longleftrightarrow>
     good_module \<rho> (fst st) \<and> live_calls ign (set (CallSites (snd st))) (fst st) \<subseteq> B
     \<and> distinct (map fst es) \<and> (\<forall>F inner. (F, inner) \<in> set es \<longrightarrow> distinct (map fst inner))
     \<and> (\<forall>F inner g xs x. (F, inner) \<in> set es \<longrightarrow> (g, xs) \<in> set inner \<longrightarrow> x \<in> set xs \<longrightarrow> (F, x, Some g) \<in> B \<and> (F, x) \<notin> ign)
     \<and> (\<forall>f x. (f, x) \<in> set (CallSites (snd st)) \<longrightarrow> f \<notin> fst ` set es \<and> (\<exists>h. (f, x, Some h) \<in> B))
     \<and> distinct (CallSites (snd st)) \<and> finite B \<and> ranked \<rho> B"

lemma combine_caller_bound:
  assumes "split_quiet split" and "reordering ord" and inv: "combining_module \<rho> ign ((F, inner) # es) (m, wl) B"
    and run: "combine_caller split ord (F, inner) (m, wl) = Inr (m', wl')"
  shows "\<exists>B'. combining_module \<rho> ign es (m', wl') B' \<and> weight \<rho> B' \<le> weight \<rho> B"
proof (cases "inner = []")
  case True
  then have "m' = m" "wl' = wl" using run by (simp_all add: combine_caller_def)
  then show ?thesis using inv unfolding combining_module_def by (intro exI[of _ B]) auto
next
  case False
  obtain f ccs f' where f: "find_func m F = Some f" "rfold (combine_callee split ord m ccs) inner (f, wl) = Inr (f', wl')"
    "m' = upd_func F (\<lambda>_. f') m"
    using run False by (auto simp: combine_caller_def deref_def split: option.splits)
  note ff = find_func_Some[OF f(1)]
  have i: "module_ids_below m" "ranked \<rho> (module_calls m)" "live_calls ign (set (CallSites wl)) m \<subseteq> B"
    "F \<notin> fst ` set es" "distinct (map fst es)" "distinct (map fst inner)" "distinct (CallSites wl)" "finite B" "ranked \<rho> B"
    "\<And>G inn. (G, inn) \<in> set es \<Longrightarrow> distinct (map fst inn)"
    "\<And>G inn g xs x. (G, inn) \<in> set ((F, inner) # es) \<Longrightarrow> (g, xs) \<in> set inn \<Longrightarrow> x \<in> set xs \<Longrightarrow> (G, x, Some g) \<in> B \<and> (G, x) \<notin> ign"
    "\<And>h x. (h, x) \<in> set (CallSites wl) \<Longrightarrow> h \<noteq> F \<and> h \<notin> fst ` set es \<and> (\<exists>k. (h, x, Some k) \<in> B)"
    using inv unfolding combining_module_def good_module_def by auto
  have calls: "Pair F ` func_calls f \<subseteq> module_calls m" using ff by (auto simp: module_calls_def)
  have "combining \<rho> ign F inner (f, wl) B"
    unfolding combining_def
  proof (intro conjI allI impI)
    show "f_id (fst (f, wl)) = F" "ids_below (fst (f, wl))" using ff i(1) by (auto simp: module_ids_below_def)
    show "ranked \<rho> (Pair F ` func_calls (fst (f, wl)))" using ranked_subset[OF i(2) calls] by simp
    show "(F, x, t) \<in> B" if "(x, t) \<in> func_calls (fst (f, wl))" "(F, x) \<notin> ign \<or> (F, x) \<in> set (CallSites (snd (f, wl)))" for x t
      using that calls i(3) by (auto simp: live_calls_def)
    show "\<exists>h. (F, x, Some h) \<in> B \<and> h \<notin> fst ` set inner" if "(F, x) \<in> set (CallSites (snd (f, wl)))" for x
      using i(12)[of F x] that by simp
  qed (use i(6-9) i(11)[of F inner] in auto)
  from combine_callees_bound[OF assms(1,2) this f(2)] obtain B' where B': "combining \<rho> ign F [] (f', wl') B'"
    "same_outside F wl B wl' B'" "weight \<rho> B' \<le> weight \<rho> B" by auto
  have c: "f_id f' = F" "ids_below f'" "ranked \<rho> (Pair F ` func_calls f')" "distinct (CallSites wl')" "finite B'" "ranked \<rho> B'"
    "\<And>x t. (x, t) \<in> func_calls f' \<Longrightarrow> (F, x) \<notin> ign \<or> (F, x) \<in> set (CallSites wl') \<Longrightarrow> (F, x, t) \<in> B'"
    "\<And>x. (F, x) \<in> set (CallSites wl') \<Longrightarrow> \<exists>h. (F, x, Some h) \<in> B'"
    using B'(1) unfolding combining_def by auto
  have out: "h \<noteq> F \<Longrightarrow> (h, x, t) \<in> B' \<longleftrightarrow> (h, x, t) \<in> B" "h \<noteq> F \<Longrightarrow> (h, x) \<in> set (CallSites wl') \<longleftrightarrow> (h, x) \<in> set (CallSites wl)" for h x t
    using B'(2) by (simp_all add: same_outside_def)
  have mc: "module_calls m' \<subseteq> {(h, x, t) \<in> module_calls m. h \<noteq> F} \<union> Pair F ` func_calls f'"
    unfolding f(3) using upd_func_calls[OF f(1)] c(1) ff by simp
  have "ranked \<rho> (module_calls m')"
    by (rule ranked_subset[OF _ mc]) (use i(2) c(3) in \<open>auto simp: ranked_def\<close>)
  moreover have "module_ids_below m'"
    using i(1) c(2) unfolding f(3) module_ids_below_def by (auto dest!: upd_func_funcs)
  ultimately have good: "good_module \<rho> m'" by (simp add: good_module_def)
  have live: "live_calls ign (set (CallSites wl')) m' \<subseteq> B'"
  proof
    fix e assume "e \<in> live_calls ign (set (CallSites wl')) m'"
    then obtain h x t where e: "e = (h, x, t)" "(h, x, t) \<in> module_calls m'" "(h, x) \<notin> ign \<or> (h, x) \<in> set (CallSites wl')"
      by (auto simp: live_calls_def)
    show "e \<in> B'"
    proof (cases "h = F")
      case True
      then show ?thesis using e mc c(7) by auto
    next
      case False
      then have "(h, x, t) \<in> module_calls m" using e(2) mc by auto
      then have "(h, x, t) \<in> B" using e(3) out(2)[OF False] i(3) by (auto simp: live_calls_def)
      then show ?thesis using out(1)[OF False] e(1) by simp
    qed
  qed
  have rest: "(G, x, Some g) \<in> B' \<and> (G, x) \<notin> ign" if "(G, inn) \<in> set es" "(g, xs) \<in> set inn" "x \<in> set xs" for G inn g xs x
  proof -
    have "G \<noteq> F" using that(1) i(4) by force
    then show ?thesis using i(11)[of G inn g xs x] that out(1) by simp
  qed
  have sites: "h \<notin> fst ` set es \<and> (\<exists>k. (h, x, Some k) \<in> B')" if "(h, x) \<in> set (CallSites wl')" for h x
  proof (cases "h = F")
    case True
    then show ?thesis using that i(4) c(8) by auto
  next
    case False
    then show ?thesis using that i(12)[of h x] out[OF False] by auto
  qed
  have "combining_module \<rho> ign es (m', wl') B'"
    unfolding combining_module_def using good live i(5,10) rest sites c(4-6) by auto
  then show ?thesis using B'(3) by blast
qed

lemma combine_calls_bound:
  assumes "split_quiet split" and "reordering ord" and good: "good_module \<rho> m0" and q: "quiet_module m0 m"
    and cm: "candidate_map ign m0 es" and run: "combine_calls split ord es m = Inr (m', wl)"
  shows "\<exists>B. good_module \<rho> m' \<and> finite B \<and> live_calls (set ign) (set (CallSites wl)) m' \<subseteq> B \<and> weight \<rho> B \<le> weight \<rho> (live_calls (set ign) {} m0)
    \<and> distinct (CallSites wl) \<and> (\<forall>c \<in> set (CallSites wl). \<exists>t. (fst c, snd c, t) \<in> B)"
proof -
  let ?B = "live_calls (set ign) {} m0"
  have loop: "\<exists>B'. combining_module \<rho> (set ign) [] st' B' \<and> weight \<rho> B' \<le> weight \<rho> B"
    if "combining_module \<rho> (set ign) es st B" "rfold (combine_caller split ord) es st = Inr st'" for es st B st'
    using that
  proof (induction es arbitrary: st B)
    case (Cons e es)
    obtain F inner m wl m1 wl1 where e: "e = (F, inner)" "st = (m, wl)" "combine_caller split ord e st = Inr (m1, wl1)"
      "rfold (combine_caller split ord) es (m1, wl1) = Inr st'"
      using Cons.prems(2) by (cases e; cases st) auto
    from combine_caller_bound[OF assms(1,2) Cons.prems(1)[unfolded e(1,2)] e(3)[unfolded e(1,2)]] obtain B1 where
      "combining_module \<rho> (set ign) es (m1, wl1) B1" "weight \<rho> B1 \<le> weight \<rho> B" by blast
    with Cons.IH[OF _ e(4)] show ?case by (meson order_trans)
  qed auto
  have "combining_module \<rho> (set ign) es (m, \<lparr>ModifiedCallers = [], CallSites = []\<rparr>) ?B"
    unfolding combining_module_def
  proof (intro conjI allI impI)
    show "distinct (map fst es)" using cm by (simp add: candidate_map_def call_map_ok_def)
    show "distinct (map fst inner)" if "(F, inner) \<in> set es" for F inner
      using cm that by (auto simp: candidate_map_def call_map_ok_def)
    show "(F, x, Some g) \<in> ?B" "(F, x) \<notin> set ign" if "(F, inner) \<in> set es" "(g, xs) \<in> set inner" "x \<in> set xs" for F inner g xs x
      using cm that unfolding candidate_map_def live_calls_def by auto
    show "ranked \<rho> ?B" using good unfolding good_module_def by (auto simp: live_calls_def intro: ranked_subset)
  qed (use good_quiet[OF good q] live_quiet[OF q] cm finite_live in \<open>auto simp: candidate_map_def call_map_ok_def\<close>)
  from loop[OF this run[unfolded combine_calls_def]] obtain B where
    "combining_module \<rho> (set ign) [] (m', wl) B" "weight \<rho> B \<le> weight \<rho> ?B" by blast
  then show ?thesis unfolding combining_module_def by (intro exI[of _ B]) fastforce
qed

section \<open>The loop\<close>

text \<open>Between two rounds: the calls that are left, and those of the work list, are among \<open>B\<close>.\<close>

definition bounded :: "(nat \<Rightarrow> nat) \<Rightarrow> fuse_state \<times> call_site list \<Rightarrow> call_triple set \<Rightarrow> bool" where
  "bounded \<rho> st B \<longleftrightarrow> good_module \<rho> (fs_module (fst st)) \<and> finite B
     \<and> live_calls (set (failedInlineCallSites (fst st))) (set (snd st)) (fs_module (fst st)) \<subseteq> B
     \<and> distinct (snd st) \<and> (\<forall>c \<in> set (snd st). \<exists>t. (fst c, snd c, t) \<in> B)"

lemma combined_bounded:
  assumes u: "fuse_llvm_ok u" and good: "good_module \<rho> m0" and q0: "quiet_module m0 m" and cm: "candidate_map ign m0 es"
    and run: "combine_calls (u_split u) (u_ord u) es m = Inr (m1, wl)"
    and demote: "demote_callers u gs m1 = Inr m2" and s: "fs_module s = m2" "failedInlineCallSites s = ign"
  shows "\<exists>B. bounded \<rho> (s, CallSites wl) B \<and> weight \<rho> B \<le> weight \<rho> (live_calls (set ign) {} m0)"
proof -
  have "split_quiet (u_split u)" "reordering (u_ord u)" using u by (simp_all add: fuse_llvm_ok_def)
  from combine_calls_bound[OF this good q0 cm run] obtain B where B: "good_module \<rho> m1" "finite B"
    "live_calls (set ign) (set (CallSites wl)) m1 \<subseteq> B" "weight \<rho> B \<le> weight \<rho> (live_calls (set ign) {} m0)"
    "distinct (CallSites wl)" "\<forall>c \<in> set (CallSites wl). \<exists>t. (fst c, snd c, t) \<in> B"
    by blast
  have q: "quiet_module m1 m2" by (rule demote_callers_quiet[OF u demote])
  have "bounded \<rho> (s, CallSites wl) B"
    unfolding bounded_def using good_quiet[OF B(1) q] live_quiet[OF q, of "set ign" "set (CallSites wl)"] B s by auto
  then show ?thesis using B(4) by blast
qed

lemma round_smaller:
  assumes u: "fuse_llvm_ok u" and st: "bounded \<rho> st B" and run: "fuse_round u ig st = Inr st'"
  shows "\<exists>B'. bounded \<rho> st' B' \<and> (snd st \<noteq> [] \<longrightarrow> weight \<rho> B' < weight \<rho> B)"
proof -
  obtain s gs m1 m2 m3 wl m4 where r: "rfold (inline_call u) (rev (snd st)) (fst st) = Inr s"
    "rfold (clean_caller u) (get_candidate_call_sites (fs_module s) ig (failedInlineCallSites s)) ([], fs_module s) = Inr (gs, m1)"
    "demote_callers u gs m1 = Inr m2"
    "combine_calls (u_split u) (u_ord u) (if gs \<noteq> [] then get_candidate_call_sites m2 ig (failedInlineCallSites s)
       else get_candidate_call_sites (fs_module s) ig (failedInlineCallSites s)) m2 = Inr (m3, wl)"
    "demote_callers u (ModifiedCallers wl) m3 = Inr m4" "st' = (s\<lparr>fs_module := m4\<rparr>, CallSites wl)"
    using run by (auto simp: fuse_round_def Let_def)
  let ?ign = "set (failedInlineCallSites s)"
  have b: "good_module \<rho> (fs_module (fst st))" "finite B"
    "live_calls (set (failedInlineCallSites (fst st))) (set (rev (snd st))) (fs_module (fst st)) \<subseteq> B" "distinct (rev (snd st))"
    "\<forall>c \<in> set (snd st). \<exists>t. (fst c, snd c, t) \<in> B"
    using st by (simp_all add: bounded_def)
  from inline_phase[OF u b(1-4) r(1)] have i: "good_module \<rho> (fs_module s)"
    "\<And>c cs'. rev (snd st) = c # cs' \<Longrightarrow> \<exists>t. (fst c, snd c, t) \<in> B \<Longrightarrow> weight \<rho> (live_calls ?ign {} (fs_module s)) < weight \<rho> B"
    by blast+
  have less: "weight \<rho> (live_calls ?ign {} (fs_module s)) < weight \<rho> B" if ne: "snd st \<noteq> []"
  proof -
    obtain c cs' where c: "rev (snd st) = c # cs'" using ne by (cases "rev (snd st)") auto
    then have "c \<in> set (snd st)" by (metis list.set_intros(1) set_rev)
    then show ?thesis using i(2)[OF c] b(5) by blast
  qed
  have "quiet_module (fs_module s) m1" using quiet_module_rfold[where p = snd, OF r(2) clean_caller_quiet[OF u]] by simp
  then have q: "quiet_module (fs_module s) m2" using quiet_module_trans demote_callers_quiet[OF u r(3)] by blast
  define m0 where "m0 = (if gs \<noteq> [] then m2 else fs_module s)"
  have "good_module \<rho> m0" "quiet_module m0 m2" "quiet_module (fs_module s) m0"
    using good_quiet[OF i(1) q] i(1) q by (simp_all add: m0_def)
  note m0 = this
  have "combine_calls (u_split u) (u_ord u) (get_candidate_call_sites m0 ig (failedInlineCallSites s)) m2 = Inr (m3, wl)"
    using r(4) by (simp add: m0_def split: if_splits)
  from combined_bounded[OF u m0(1,2) candidates_sound this r(5), where s = "s\<lparr>fs_module := m4\<rparr>"] obtain B' where
    "bounded \<rho> st' B'" "weight \<rho> B' \<le> weight \<rho> (live_calls ?ign {} m0)" by (auto simp: r(6))
  moreover have "weight \<rho> (live_calls ?ign {} m0) \<le> weight \<rho> (live_calls ?ign {} (fs_module s))"
    by (rule weight_mono[OF finite_live live_quiet[OF m0(3)]])
  ultimately show ?thesis using less by (meson le_less_trans order_trans)
qed

lemma bounded_loop_ends:
  assumes u: "fuse_llvm_ok u"
  shows "bounded \<rho> st B \<Longrightarrow> snd st \<noteq> [] \<Longrightarrow> \<exists>r. fuse_loop u ig st = Some r"
proof (induction "weight \<rho> B" arbitrary: st B rule: less_induct)
  case less
  show ?case
  proof (cases "fuse_round u ig st")
    case (Inl e)
    then show ?thesis by (simp add: fuse_loop.simps[of u ig st])
  next
    case (Inr st')
    from round_smaller[OF u less.prems(1) Inr] less.prems(2) obtain B' where B': "bounded \<rho> st' B'" "weight \<rho> B' < weight \<rho> B"
      by blast
    show ?thesis
    proof (cases "snd st' = []")
      case True
      then show ?thesis by (simp add: fuse_loop.simps[of u ig st] Inr)
    next
      case False
      from less.hyps[OF B'(2,1) this] show ?thesis by (simp add: fuse_loop.simps[of u ig st] Inr False)
    qed
  qed
qed

text \<open>The first round may start with an empty work list.\<close>

lemma bounded_loop_ends_first:
  assumes u: "fuse_llvm_ok u" and "bounded \<rho> st B"
  shows "\<exists>r. fuse_loop u ig st = Some r"
proof (cases "fuse_round u ig st")
  case (Inl e)
  then show ?thesis by (simp add: fuse_loop.simps[of u ig st])
next
  case (Inr st')
  from round_smaller[OF u assms(2) Inr] obtain B' where "bounded \<rho> st' B'" by blast
  from bounded_loop_ends[OF u this] show ?thesis
    by (cases "snd st' = []") (auto simp: fuse_loop.simps[of u ig st] Inr)
qed

text \<open>
  C13: The pass ends on programs without recursion: where the calls of the module, after the first pipeline,
  lead from a function to functions of smaller rank and no called function is unknown, the driver
  returns, with a result or at an error, whichever calls the inliner refuses.
\<close>

theorem fuse_functions_ends_without_recursion:
  assumes "fuse_llvm_ok u" and "u_pipeline u ''module(function(lowerinvoke,simplifycfg),mergefunc)'' m0 = (m, result, parseError)"
    and "module_ids_below m" and "\<forall>(f, x, t) \<in> module_calls m. \<exists>g. t = Some g \<and> (\<rho> :: nat \<Rightarrow> nat) g < \<rho> f"
  shows "\<exists>r. fuse_functions u ig m0 = Some r"
proof (cases "rbind (combine_calls (u_split u) (u_ord u) (get_candidate_call_sites m ig []) m)
    (\<lambda>(m1, combinedCalls). rmap (\<lambda>m2. (m2, CallSites combinedCalls)) (demote_callers u (ModifiedCallers combinedCalls) m1))")
  case (Inl e)
  then show ?thesis unfolding fuse_functions_def assms(2) by simp
next
  case (Inr st)
  then obtain m1 wl m2 where r: "combine_calls (u_split u) (u_ord u) (get_candidate_call_sites m ig []) m = Inr (m1, wl)"
    "demote_callers u (ModifiedCallers wl) m1 = Inr m2" "st = (m2, CallSites wl)"
    by auto
  let ?s = "\<lparr>fs_module = m2, failedInlineCallSites = [], callTargets = [], fs_result = result\<rparr>"
  have "good_module \<rho> m" using assms(3,4) by (simp add: good_module_def ranked_def)
  from combined_bounded[OF assms(1) this quiet_module_refl candidates_sound r(1,2), where s = ?s] obtain B where
    "bounded \<rho> (?s, CallSites wl) B" by auto
  from bounded_loop_ends_first[OF assms(1) this] obtain q where "fuse_loop u ig (?s, CallSites wl) = Some q" by blast
  then show ?thesis unfolding fuse_functions_def assms(2) prod.case Inr[unfolded r(3)] sum.case by simp
qed

section \<open>An instance\<close>

text \<open>The utilities of the examples meet what is asked of LLVM.\<close>

lemma cut_block_quiet: "split_quiet cut_block"
  unfolding split_quiet_def
proof (intro allI)
  fix b x nm f
  have h: "call_target (rename_phi b r i) = call_target i" for r i
    by (cases "i_kind i") (simp_all add: rename_phi_def call_target_def)
  show "quiet f (fst (cut_block b x nm f))"
  proof (rule quietI)
    fix i assume "i \<in> set (func_insts (fst (cut_block b x nm f)))"
    then have "i \<in> rename_phi b (f_next f) ` set (func_insts f) \<or> i = mk_inst (Suc (f_next f)) (Br (f_next f)) VoidTy ''''"
      by (auto simp: cut_block_def Let_def func_insts_def split: if_splits dest!: set_takeWhileD set_dropWhileD)
    then show "(\<exists>j \<in> set (func_insts f). i_id i = i_id j \<and> (call_target i = None \<or> call_target i = call_target j))
        \<or> i_id i < f_next (fst (cut_block b x nm f)) \<and> call_target i = None"
    proof
      assume "i \<in> rename_phi b (f_next f) ` set (func_insts f)"
      then show ?thesis using h by auto
    qed (simp add: cut_block_def Let_def call_target_mk)
  qed (simp_all add: cut_block_def Let_def)
qed

lemma splice_func_insts:
  assumes "i \<in> set (func_insts (splice_func x body f))"
  shows "i \<in> set (func_insts f) \<and> i_id i \<noteq> x \<or> (\<exists>j \<in> set body. call_target i = call_target j \<and> i_id i < f_next f + length body)"
proof -
  have "i \<in> set (func_insts f) \<and> i_id i \<noteq> x \<or> i \<in> set (copies_from (f_next f) body)"
    using assms by (auto simp: splice_func_def func_insts_def splice_inst_def split: if_splits)
  then show ?thesis
    by (auto simp: copies_from_def call_target_def in_set_enumerate_eq)
qed

lemma splice_inlines_bodies: "inlines_bodies splice_inline"
  unfolding inlines_bodies_def
proof (intro allI impI)
  fix c m m' assume run: "splice_inline c m = Some m'"
  then obtain f ci g callee where s: "find_func m (fst c) = Some f" "find_inst f (snd c) = Some ci"
    "called_function (i_kind ci) = Some (Fn g)" "find_func m g = Some callee"
    "m' = upd_func (fst c) (\<lambda>_. splice_func (snd c) (butlast (func_insts callee)) f) m"
    by (auto simp: splice_inline_def split: option.splits fn_id.splits)
  let ?f = "splice_func (snd c) (butlast (func_insts callee)) f"
  note f = find_func_Some[OF s(1)] and callee = find_func_Some[OF s(4)]
  have id: "f_id ?f = f_id f" by (simp add: splice_func_def)
  have call: "(fst c, snd c, Some g) \<in> module_calls m"
    using module_callsI[OF _ func_callsI[OF _ call_target_called[OF s(3)]]] find_inst_Some[OF s(2)] f by metis
  have origin: "(fst c, x, t) \<in> module_calls m \<and> x \<noteq> snd c \<or> (\<exists>y. (g, y, t) \<in> module_calls m)" if xt: "(x, t) \<in> func_calls ?f" for x t
  proof -
    obtain i where i: "i \<in> set (func_insts ?f)" "i_id i = x" "call_target i = Some t" using xt by (auto simp: func_calls_def)
    from splice_func_insts[OF i(1)] show ?thesis
    proof
      assume "i \<in> set (func_insts f) \<and> i_id i \<noteq> snd c"
      then show ?thesis using i(2,3) f module_callsI[of f m, OF _ func_callsI] by metis
    next
      assume "\<exists>j \<in> set (butlast (func_insts callee)). call_target i = call_target j \<and> i_id i < f_next f + length (butlast (func_insts callee))"
      then obtain j where "j \<in> set (func_insts callee)" "call_target j = Some t" using i(3) by (auto dest: in_set_butlastD)
      then show ?thesis using callee module_callsI[of callee m, OF _ func_callsI] by metis
    qed
  qed
  have "ids_below ?f" if "ids_below f"
    unfolding ids_below_def
  proof
    fix i assume "i \<in> set (func_insts ?f)"
    from splice_func_insts[OF this] that show "i_id i < f_next ?f" by (auto simp: ids_below_def splice_func_def)
  qed
  then have "module_ids_below m \<longrightarrow> module_ids_below m'"
    using f unfolding s(5) module_ids_below_def by (auto dest!: upd_func_funcs)
  moreover have "\<forall>(h, x, t) \<in> module_calls m'. (h, x, t) \<in> module_calls m \<and> (h, x) \<noteq> c \<or>
      h = fst c \<and> (\<exists>g y. (fst c, snd c, Some g) \<in> module_calls m \<and> (g, y, t) \<in> module_calls m)"
    using upd_func_calls[OF s(1) id] origin call unfolding s(5) by fastforce
  ultimately show "(module_ids_below m \<longrightarrow> module_ids_below m') \<and> (\<forall>(h, x, t) \<in> module_calls m'. (h, x, t) \<in> module_calls m \<and> (h, x) \<noteq> c \<or>
      h = fst c \<and> (\<exists>g y. (fst c, snd c, Some g) \<in> module_calls m \<and> (g, y, t) \<in> module_calls m))" ..
qed

text \<open>A function that calls another twice, which calls a third.\<close>

definition chain_func :: "nat \<Rightarrow> nat list \<Rightarrow> ir_func" where
  "chain_func n gs = mk_func n ''f'' (FuncTy VoidTy [] False) True
     [mk_block 0 (map (\<lambda>(k, g). demo_inst (Suc k) (void_call g)) (enumerate 0 gs) @ [demo_inst (Suc (length gs)) (Ret None)])] (length gs + 2)"

definition chain_module :: ir_module where
  "chain_module = \<lparr>m_funcs = [chain_func 5 [9, 9], chain_func 9 [10], chain_func 10 []], m_globals = [], m_named_md = [],
     m_arch_bits = 64, m_intptr_bits = 64, m_next = 11\<rparr>"

definition chain_llvm :: fuse_llvm where
  "chain_llvm = rec_llvm\<lparr>u_split := cut_block, u_ord := rev\<rparr>"

lemma chain_llvm_ok: "fuse_llvm_ok chain_llvm"
  by (simp add: fuse_llvm_ok_def chain_llvm_def rec_llvm_def cut_block_quiet splice_inlines_bodies edit_quiet_def demotion_quiet_def
      reordering_rev)

lemma func_calls_list:
  "func_calls f = set (List.map_filter (\<lambda>i. map_option (Pair (i_id i)) (call_target i)) (func_insts f))"
  by (force simp: func_calls_def List.map_filter_def)

lemma chain_calls: "module_calls chain_module = {(5, 1, Some 9), (5, 2, Some 9), (9, 1, Some 10)}"
proof -
  have c: "func_calls (chain_func n []) = {}" "func_calls (chain_func n [9, 9]) = {(1, Some 9), (2, Some 9)}"
    "func_calls (chain_func n [10]) = {(1, Some 10)}" "f_id (chain_func n gs) = n" for n gs
    by (simp_all add: func_calls_list chain_func_def call_target_def void_call_def demo_eval List.map_filter_def numeral_2_eq_2)
  have u: "module_calls chain_module = (\<Union>f \<in> set (m_funcs chain_module). Pair (f_id f) ` func_calls f)"
    by (auto simp: module_calls_def)
  show ?thesis unfolding u by (auto simp: chain_module_def c)
qed

theorem fuse_functions_ends_without_recursion_witness:
  "(\<exists>r. fuse_functions chain_llvm False chain_module = Some r) \<and> (5, 1, Some 9) \<in> module_calls chain_module"
proof -
  have "u_pipeline chain_llvm ''module(function(lowerinvoke,simplifycfg),mergefunc)'' chain_module = (chain_module, PA_none, [])"
    by (simp add: chain_llvm_def rec_llvm_def)
  from fuse_functions_ends_without_recursion[OF chain_llvm_ok this, of "\<lambda>f. if f = 5 then 2 else if f = 9 then 1 else 0"]
  show ?thesis
    by (simp add: chain_calls) (simp add: module_ids_below_def ids_below_def chain_module_def chain_func_def demo_eval)
qed

end
