(* ===== verification/Fuse_Calls_Left.thy ===== *)
theory Fuse_Calls_Left
  imports Fuse_Termination Fuse_Dispatch
begin

text \<open>
  What \<open>combine_calls\<close> is for: on a module of valid IR without call blocks it succeeds and leaves exactly one of
  the candidate calls of each callee in each caller, the only one or the call of a new call block, and that
  one is on the work list. The proof follows the three nested loops: one callee (\<open>combine_callee_one\<close>), the
  callees of a caller (\<open>combine_callees_one\<close>), the callers of the module (\<open>combine_callers_one\<close>).
\<close>

section \<open>The calls of one caller\<close>

definition calls_of :: "(nat \<times> nat list) list \<Rightarrow> nat \<Rightarrow> nat list" where
  "calls_of es g = (case map_of es g of None \<Rightarrow> [] | Some xs \<Rightarrow> xs)"

lemma sites_of_calls: "map_of cm F = Some inner \<Longrightarrow> sites_of cm F = calls_of inner"
  "map_of cm F = None \<Longrightarrow> sites_of cm F g = []"
  by (auto simp: sites_of_def calls_of_def)

lemma calls_of_Nil [simp]: "calls_of [] g = []"
  and calls_of_Cons [simp]: "calls_of ((h, xs) # es) g = (if g = h then xs else calls_of es g)"
  and calls_of_notin: "g \<notin> fst ` set es \<Longrightarrow> calls_of es g = []"
  by (auto simp: calls_of_def split: option.splits dest!: map_of_SomeD intro: rev_image_eqI)

section \<open>What a call block keeps\<close>

text \<open>The candidates that are still to combine: calls of a known callee with its type and number of arguments.\<close>

definition pending_at :: "ir_module \<Rightarrow> ir_func \<Rightarrow> nat \<Rightarrow> nat list \<Rightarrow> bool" where
  "pending_at m f h xs \<longleftrightarrow> xs \<noteq> [] \<and> subseq xs (map i_id (func_insts f)) \<and>
     (\<exists>callee. find_func m h = Some callee \<and> (\<forall>x \<in> set xs. \<exists>as. length as = length (param_types (f_type callee)) \<and>
        map_option i_kind (find_inst f x) = Some (Call (f_type callee) as (FuncVal (Fn h) (f_type callee)))))"

definition pending :: "ir_module \<Rightarrow> ir_func \<Rightarrow> (nat \<times> nat list) list \<Rightarrow> bool" where
  "pending m f es \<longleftrightarrow> (\<forall>(h, xs) \<in> set es. pending_at m f h xs)"

lemma pending_tail: "pending m f (e # es) \<Longrightarrow> pending m f es"
  by (simp add: pending_def)

lemma pendingD_at: "pending m f es \<Longrightarrow> (h, xs) \<in> set es \<Longrightarrow> pending_at m f h xs"
  by (auto simp: pending_def)

lemma pending_callee: "pending_at m f h xs \<Longrightarrow> \<exists>callee. find_func m h = Some callee"
  unfolding pending_at_def by blast

lemma pendingD:
  assumes "pending m f es" and "(h, xs) \<in> set es" and "x \<in> set xs"
  shows "\<exists>callee as i. find_func m h = Some callee \<and> length as = length (param_types (f_type callee)) \<and> i \<in> set (func_insts f)
    \<and> i_id i = x \<and> i_kind i = Call (f_type callee) as (FuncVal (Fn h) (f_type callee))"
proof -
  obtain callee as where "find_func m h = Some callee" "length as = length (param_types (f_type callee))"
    "map_option i_kind (find_inst f x) = Some (Call (f_type callee) as (FuncVal (Fn h) (f_type callee)))"
    using pendingD_at[OF assms(1,2)] assms(3) unfolding pending_at_def by blast
  moreover from this(3) obtain i where "find_inst f x = Some i" "i_kind i = Call (f_type callee) as (FuncVal (Fn h) (f_type callee))" by auto
  ultimately show ?thesis using find_inst_Some by metis
qed

lemma pending_call: "pending m f es \<Longrightarrow> (h, xs) \<in> set es \<Longrightarrow> x \<in> set xs \<Longrightarrow> (x, Some h) \<in> func_calls f"
  using pendingD[of m f es h xs x] by (fastforce simp: func_calls_def call_target_def)

lemma func_calls_unique:
  assumes "wf_func f" and "(x, t) \<in> func_calls f" and "(x, t') \<in> func_calls f"
  shows "t = t'"
proof -
  obtain i j where "i \<in> set (func_insts f)" "j \<in> set (func_insts f)" "i_id i = x" "i_id j = x" "call_target i = Some t" "call_target j = Some t'"
    using assms(2,3) by (auto simp: func_calls_def)
  then show ?thesis using find_inst_member[OF assms(1), of i] find_inst_member[OF assms(1), of j] by simp
qed

lemma pending_pre:
  assumes split: "split_ok split" and wf: "wf_func f" and set: "settled_blocks {} f" and p: "pending m f ((h, xs) # es)"
    and callee: "find_func m h = Some callee"
  shows "\<exists>argv. new_call_block_pre split callee argv xs f"
proof -
  define argv where "argv x = (case map_option i_kind (find_inst f x) of Some (Call t as v) \<Rightarrow> as | _ \<Rightarrow> [])" for x
  have h: "f_id callee = h" using find_func_Some[OF callee] by simp
  have xs: "xs \<noteq> []" "subseq xs (map i_id (func_insts f))" using p by (simp_all add: pending_def pending_at_def)
  have ready: "site_ready f x \<and> length (argv x) = length (param_types (f_type callee))
      \<and> map_option i_kind (find_inst f x) = Some (Call (f_type callee) (argv x) (FuncVal (Fn (f_id callee)) (f_type callee)))"
    if x: "x \<in> set xs" for x
  proof -
    obtain as i where i: "length as = length (param_types (f_type callee))" "i \<in> set (func_insts f)" "i_id i = x"
      "i_kind i = Call (f_type callee) as (FuncVal (Fn h) (f_type callee))"
      using pendingD[OF p _ x] callee by fastforce
    have "find_inst f x = Some i" using find_inst_member[OF wf i(2)] i(3) by simp
    moreover obtain b where "b \<in> set (f_blocks f)" "i \<in> set (b_insts b)" using i(2) by (auto simp: func_insts_def)
    then have "site_ready f x"
      using settled_ready[of "b_insts b" i] set block_insts_distinct[OF wf] i(3,4) by (auto simp: settled_blocks_def site_ready_def)
    ultimately show ?thesis using i by (simp add: argv_def h)
  qed
  have "\<forall>b \<in> set (f_blocks f). b_insts b \<noteq> []" using set by (auto simp: settled_blocks_def settled_def)
  then show ?thesis unfolding new_call_block_pre_def using split wf xs ready by blast
qed

text \<open>A new call block changes no other call.\<close>

lemma fused_target: "call_target (fused_inst cs comb i) = call_target i"
  unfolding fused_inst_def by (rule call_target_map) (auto simp: fused_value_def)

lemma fusion_calls:
  assumes K: "fusion K cs comb" and old: "filter (\<lambda>i. i_id i < n) (func_insts g) = map K (kept cs (func_insts f))"
    and i: "i \<in> set (func_insts f)" "i_id i \<notin> set cs" "\<not> is_phi (i_kind i)"
  shows "fused_inst cs comb i \<in> set (func_insts g)"
proof -
  have "K i \<in> set (filter (\<lambda>i. i_id i < n) (func_insts g))" unfolding old using i(1,2) by (simp add: kept_def)
  moreover have "K i = fused_inst cs comb i" using K i(3) by (simp add: fusion_def)
  ultimately show ?thesis by simp
qed

lemma pending_after:
  assumes K: "fusion K cs comb" and old: "filter (\<lambda>i. i_id i < n) (func_insts g) = map K (kept cs (func_insts f))"
    and wf: "wf_func g" and p: "pending m f es" and others: "\<And>h xs. (h, xs) \<in> set es \<Longrightarrow> set xs \<inter> set cs = {}"
  shows "pending m g es"
  unfolding pending_def
proof (clarify)
  fix h xs assume e: "(h, xs) \<in> set es"
  then have xs: "xs \<noteq> []" "subseq xs (map i_id (func_insts f))" using pendingD_at[OF p e] by (simp_all add: pending_at_def)
  obtain callee where callee: "find_func m h = Some callee" using pending_callee[OF pendingD_at[OF p e]] by blast
  have ids: "map i_id (map K is) = map i_id is" for "is" using K by (simp add: fusion_def)
  have "filter (\<lambda>x. x < n) (map i_id (func_insts g)) = map i_id (filter (\<lambda>i. i_id i < n) (func_insts g))"
    by (simp add: filter_map comp_def)
  also have "\<dots> = filter (\<lambda>x. x \<notin> set cs) (map i_id (func_insts f))"
    unfolding old ids kept_def by (simp add: filter_map comp_def)
  finally have flt: "filter (\<lambda>x. x < n) (map i_id (func_insts g)) = filter (\<lambda>x. x \<notin> set cs) (map i_id (func_insts f))" .
  have "filter (\<lambda>x. x \<notin> set cs) xs = xs" using others e by (intro filter_True) auto
  then have "subseq xs (filter (\<lambda>x. x < n) (map i_id (func_insts g)))" unfolding flt using subseq_filter[OF xs(2)] by metis
  then have sub: "subseq xs (map i_id (func_insts g))" by (rule subseq_order.trans) (rule subseq_filter_left)
  have call: "\<exists>as. length as = length (param_types (f_type callee)) \<and>
      map_option i_kind (find_inst g x) = Some (Call (f_type callee) as (FuncVal (Fn h) (f_type callee)))" if x: "x \<in> set xs" for x
  proof -
    obtain as i where i: "length as = length (param_types (f_type callee))" "i \<in> set (func_insts f)" "i_id i = x"
      "i_kind i = Call (f_type callee) as (FuncVal (Fn h) (f_type callee))"
      using pendingD[OF p e x] callee by fastforce
    have "i_id i \<notin> set cs" using others[OF e] x i(3) by blast
    from fusion_calls[OF K old i(2) this] have "fused_inst cs comb i \<in> set (func_insts g)" by (simp add: i(4))
    from find_inst_member[OF wf this] show ?thesis
      by (intro exI[of _ "map (fused_value cs comb) as"]) (simp add: i(1,3,4) fused_value_def image_iff)
  qed
  show "pending_at m g h xs" unfolding pending_at_def using xs(1) sub callee call by blast
qed

lemma resumes_all:
  assumes "resumes f cs K cb g c P R" and "c \<in> set cs"
  shows "filter (\<lambda>i. i_id i < f_next f) (func_insts g) = map K (kept cs (func_insts f))"
proof -
  obtain xs pb rb ys A ci B where s: "f_blocks g = xs @ pb # rb # ys" "func_insts f = A @ ci # B" "i_id ci = c"
    "old_insts (f_next f) (xs @ [pb]) = map K (kept cs A)" "old_insts (f_next f) (rb # ys) = map K (kept cs B)"
    using assms(1) unfolding resumes_def by blast
  have "filter (\<lambda>i. i_id i < f_next f) (func_insts g) = old_insts (f_next f) ((xs @ [pb]) @ rb # ys)"
    by (simp only: old_insts_def func_insts_def s(1) append_assoc append_Cons append_Nil)
  also have "\<dots> = map K (kept cs A) @ map K (kept cs B)" unfolding old_insts_simps(3)[of _ "xs @ [pb]"] s(4,5) ..
  also have "\<dots> = map K (kept cs (func_insts f))" using assms(2) by (simp add: s(2,3) kept_def)
  finally show ?thesis .
qed

section \<open>Combining the calls of one caller\<close>

text \<open>One callee: its candidates become one call, which is on the work list, and the others stay.\<close>

lemma combine_callee_one:
  assumes split: "split_ok split" "split_quiet split" and wf: "wf_func f" and set: "settled_blocks {} f"
    and p: "pending m f ((h, xs) # es)" and h: "h \<notin> fst ` set es"
  shows "\<exists>f' wl' c. combine_callee split ord m [] (h, xs) (f, wl) = Inr (f', wl') \<and> func_sig f' = func_sig f \<and> wf_func f'
    \<and> settled_blocks {} f' \<and> pending m f' es \<and> func_calls f' = {(x, t) \<in> func_calls f. x \<notin> set xs} \<union> {(c, Some h)}
    \<and> set (CallSites wl') = insert (f_id f, c) (set (CallSites wl))"
proof -
  have at_h: "pending_at m f h xs" using p by (simp add: pending_def)
  have mine: "t = Some h" if "x \<in> set xs" "(x, t) \<in> func_calls f" for x t
    using func_calls_unique[OF wf that(2)] pending_call[OF p _ that(1)] by simp
  obtain callee where callee: "find_func m h = Some callee" using pending_callee[OF at_h] by blast
  then have id: "f_id callee = h" using find_func_Some by blast
  consider x where "xs = [x]" | x y ys where "xs = x # y # ys"
    using at_h by (cases xs rule: remdups_adj.cases) (auto simp: pending_at_def)
  then show ?thesis
  proof cases
    case 1
    have x: "(x, Some h) \<in> func_calls f" using pending_call[OF p, of h xs x] by (simp add: 1)
    then have "(y, t) \<in> func_calls f \<longleftrightarrow> (y, t) \<in> func_calls f \<and> y \<noteq> x \<or> y = x \<and> t = Some h" for y t
      using func_calls_unique[OF wf x] by blast
    then have "func_calls f = {(y, t) \<in> func_calls f. y \<notin> set xs} \<union> {(x, Some h)}" unfolding 1 by auto
    then show ?thesis
      using wf set pending_tail[OF p] by (intro exI[of _ f] exI[of _ "wl\<lparr>CallSites := setv_insert (f_id f, x) (CallSites wl)\<rparr>"] exI[of _ x])
        (simp add: combine_callee_def 1)
  next
    case 2
    obtain argv where "new_call_block_pre split callee argv xs f" using pending_pre[OF split(1) wf set p callee] by blast
    from new_call_block_facts[OF this] obtain f' comb links K where nb: "new_call_block split callee xs f = Inr (f', comb)"
      "wf_func f'" "map fst links = xs" "fusion K xs comb" "\<forall>(c, P, R) \<in> set links. resumes f xs K (f_next f) f' c P R"
      "call_block_of callee argv xs links (f_next f) f' comb" "settled_blocks {} f \<longrightarrow> settled_blocks {} f'"
      by (elim exE conjE) (rule that; assumption)
    obtain P R where "(x, P, R) \<in> set links"
    proof -
      have "x \<in> fst ` set links" using arg_cong[OF nb(3), of set] by (simp add: 2)
      then show ?thesis using that by force
    qed
    then have old: "filter (\<lambda>i. i_id i < f_next f) (func_insts f') = map K (kept xs (func_insts f))"
      using nb(5) by (intro resumes_all[of f xs K "f_next f" f' x P R]) (auto simp: 2)
    note new = new_call_block_calls[OF split(2) nb(1), unfolded id]
    have others: "set ys \<inter> set xs = {}" if "(k, ys) \<in> set es" for k ys
    proof (rule ccontr)
      assume "set ys \<inter> set xs \<noteq> {}"
      then obtain x where "x \<in> set ys" "x \<in> set xs" by blast
      then have "k = h" using mine[of x "Some k"] pending_call[OF p, of k ys x] that by simp
      then show False using h that by force
    qed
    have "(comb, Some h) \<in> func_calls f'"
    proof -
      obtain nodes call where c: "find_inst f' comb = Some call" "i_kind call = call_kind callee nodes"
        using call_block_call[OF nb(2,6)] by blast
      then have "call_target call = Some (Some h)" by (simp add: call_target_def call_kind_def id)
      then show ?thesis using find_inst_Some[OF c(1)] func_callsI by metis
    qed
    moreover have "(x, t) \<in> func_calls f'" if xt: "(x, t) \<in> func_calls f" "x \<notin> set xs" for x t
    proof -
      obtain i where i: "i \<in> set (func_insts f)" "i_id i = x" "call_target i = Some t" using xt(1) by (auto simp: func_calls_def)
      have "\<not> is_phi (i_kind i)" using i(3) by (cases "i_kind i") (simp_all add: call_target_def)
      from fusion_calls[OF nb(4) old i(1) _ this] xt(2) i(2) have "fused_inst xs comb i \<in> set (func_insts f')" by simp
      from func_callsI[OF this] show ?thesis using i(2,3) fused_target by simp
    qed
    ultimately have "func_calls f' = {(x, t) \<in> func_calls f. x \<notin> set xs} \<union> {(comb, Some h)}" using new(3) by auto
    moreover have "func_sig f' = func_sig f" using new(1) by (simp add: adds_calls_def)
    moreover have "pending m f' es" by (rule pending_after[OF nb(4) old nb(2) pending_tail[OF p] others])
    ultimately show ?thesis using nb(1,2,7) set callee
      by (intro exI[of _ f'] exI[of _ "wl\<lparr>ModifiedCallers := setv_insert (f_id f) (ModifiedCallers wl),
          CallSites := setv_insert (f_id f, comb) (CallSites wl)\<rparr>"] exI[of _ comb]) (simp add: combine_callee_def 2 deref_def Let_def)
  qed
qed

lemma combine_callees_one:
  assumes split: "split_ok split" "split_quiet split"
  shows "wf_func f \<Longrightarrow> settled_blocks {} f \<Longrightarrow> pending m f es \<Longrightarrow> distinct (map fst es) \<Longrightarrow>
    \<exists>f' wl' c. rfold (combine_callee split ord m []) es (f, wl) = Inr (f', wl') \<and> func_sig f' = func_sig f
      \<and> (\<forall>x g. (x, Some g) \<in> func_calls f' \<longleftrightarrow>
           (x, Some g) \<in> func_calls f \<and> x \<notin> set (calls_of es g) \<or> g \<in> fst ` set es \<and> x = c g)
      \<and> set (CallSites wl') = (\<lambda>g. (f_id f, c g)) ` fst ` set es \<union> set (CallSites wl)"
proof (induction es arbitrary: f wl)
  case (Cons e es)
  obtain h xs where e: "e = (h, xs)" by (cases e)
  have h: "h \<notin> fst ` set es" "distinct (map fst es)" using Cons.prems(4) e by auto
  from combine_callee_one[OF split Cons.prems(1,2) Cons.prems(3)[unfolded e] h(1)] obtain f1 wl1 k where s:
    "combine_callee split ord m [] (h, xs) (f, wl) = Inr (f1, wl1)" "func_sig f1 = func_sig f" "wf_func f1" "settled_blocks {} f1"
    "pending m f1 es" "func_calls f1 = {(x, t) \<in> func_calls f. x \<notin> set xs} \<union> {(k, Some h)}"
    "set (CallSites wl1) = insert (f_id f, k) (set (CallSites wl))"
    by blast
  from Cons.IH[OF s(3-5) h(2), of wl1] obtain f' wl' c where r:
    "rfold (combine_callee split ord m []) es (f1, wl1) = Inr (f', wl')" "func_sig f' = func_sig f1"
    "\<forall>x g. (x, Some g) \<in> func_calls f' \<longleftrightarrow> (x, Some g) \<in> func_calls f1 \<and> x \<notin> set (calls_of es g) \<or> g \<in> fst ` set es \<and> x = c g"
    "set (CallSites wl') = (\<lambda>g. (f_id f1, c g)) ` fst ` set es \<union> set (CallSites wl1)"
    by (elim exE conjE) (rule that; assumption)
  have other: "x \<notin> set xs" if "(x, Some g) \<in> func_calls f" "g \<noteq> h" for x g
  proof
    assume "x \<in> set xs"
    then have "(x, Some h) \<in> func_calls f" by (intro pending_call[OF Cons.prems(3), of h xs]) (simp_all add: e)
    from func_calls_unique[OF Cons.prems(1) that(1) this] that(2) show False by simp
  qed
  have step: "(x, Some g) \<in> func_calls f' \<longleftrightarrow> ((x, Some g) \<in> func_calls f \<and> x \<notin> set xs \<or> x = k \<and> g = h) \<and> x \<notin> set (calls_of es g)
      \<or> g \<in> fst ` set es \<and> x = c g" for x g
    unfolding r(3)[rule_format] s(6) by auto
  have "(x, Some g) \<in> func_calls f' \<longleftrightarrow>
      (x, Some g) \<in> func_calls f \<and> x \<notin> set (calls_of (e # es) g) \<or> g \<in> fst ` set (e # es) \<and> x = (c(h := k)) g" for x g
  proof (cases "g = h")
    case True
    then show ?thesis using h(1) calls_of_notin[OF h(1)] unfolding step e by auto
  next
    case False
    then show ?thesis using other[of x g] unfolding step e by auto
  qed
  moreover have "set (CallSites wl') = (\<lambda>g. (f_id f, (c(h := k)) g)) ` fst ` set (e # es) \<union> set (CallSites wl)"
    unfolding r(4) s(7) e using h(1) s(2) by (auto simp: image_def)
  ultimately show ?case using s(1,2) r(1,2) by (intro exI[of _ f'] exI[of _ wl'] exI[of _ "c(h := k)"]) (simp add: e)
qed simp

section \<open>Combining the calls of a module\<close>

lemma find_func_replaced:
  assumes "f_id f' = G" and "F \<noteq> G"
  shows "find_func (upd_func G (\<lambda>_. f') m) F = find_func m F"
proof -
  have "at_id f_id F (upd_at f_id G (\<lambda>_. f') fs) = at_id f_id F fs" for fs
    using assms by (induction fs) auto
  then show ?thesis by (simp add: find_func_def upd_func_def)
qed

lemma calls_in_func:
  assumes "distinct (map f_id (m_funcs m))" and "find_func m F = Some f"
  shows "(F, x, t) \<in> module_calls m \<longleftrightarrow> (x, t) \<in> func_calls f"
proof
  assume "(F, x, t) \<in> module_calls m"
  then obtain h where h: "h \<in> set (m_funcs m)" "f_id h = F" "(x, t) \<in> func_calls h" by (auto simp: module_calls_def)
  then show "(x, t) \<in> func_calls f" using find_func_member[OF assms(1) h(1)] assms(2) by simp
qed (use module_callsI find_func_Some[OF assms(2)] in blast)

lemma replaced_calls:
  assumes dist: "distinct (map f_id (m_funcs m))" and f: "find_func m G = Some f" and id: "f_id f' = G"
  shows "distinct (map f_id (m_funcs (upd_func G (\<lambda>_. f') m)))"
    and "(F, x, t) \<in> module_calls (upd_func G (\<lambda>_. f') m) \<longleftrightarrow> (if F = G then (x, t) \<in> func_calls f' else (F, x, t) \<in> module_calls m)"
proof -
  have "map f_id (m_funcs (upd_func G (\<lambda>_. f') m)) = map f_id (m_funcs m)" using id by (simp add: upd_func_def upd_at_def comp_def)
  then show d: "distinct (map f_id (m_funcs (upd_func G (\<lambda>_. f') m)))" using dist by simp
  have mem: "h \<in> set (m_funcs (upd_func G (\<lambda>_. f') m)) \<longleftrightarrow> h = f' \<or> h \<in> set (m_funcs m) \<and> f_id h \<noteq> G" for h
    using find_func_Some[OF f] by (auto simp: upd_func_def upd_at_def)
  then show "(F, x, t) \<in> module_calls (upd_func G (\<lambda>_. f') m) \<longleftrightarrow> (if F = G then (x, t) \<in> func_calls f' else (F, x, t) \<in> module_calls m)"
    using id by (auto simp: module_calls_def)
qed

text \<open>Only the types of the callees matter.\<close>

lemma pending_same_types:
  assumes p: "pending m f es" and same: "\<And>h. map_option f_type (find_func m' h) = map_option f_type (find_func m h)"
  shows "pending m' f es"
proof -
  have "pending_at m' f h xs" if at_h: "pending_at m f h xs" for h xs
  proof -
    obtain callee where c: "find_func m h = Some callee" "xs \<noteq> []" "subseq xs (map i_id (func_insts f))"
      "\<forall>x \<in> set xs. \<exists>as. length as = length (param_types (f_type callee)) \<and>
         map_option i_kind (find_inst f x) = Some (Call (f_type callee) as (FuncVal (Fn h) (f_type callee)))"
      using at_h unfolding pending_at_def by blast
    obtain callee' where "find_func m' h = Some callee'" "f_type callee' = f_type callee" using same[of h] c(1) by auto
    then show ?thesis unfolding pending_at_def using c(2-4) by auto
  qed
  then show ?thesis using p by (auto simp: pending_def)
qed

text \<open>A caller whose candidates can be combined.\<close>

definition entry_ok :: "ir_module \<Rightarrow> nat \<times> (nat \<times> nat list) list \<Rightarrow> bool" where
  "entry_ok m e \<longleftrightarrow> snd e \<noteq> [] \<and> distinct (map fst (snd e)) \<and>
     (\<exists>f. find_func m (fst e) = Some f \<and> wf_func f \<and> settled_blocks {} f \<and> find_combined_call_sites f = Inr [] \<and> pending m f (snd e))"

lemma combine_caller_one:
  assumes split: "split_ok split" "split_quiet split" and ok: "entry_ok m (F, inner)" and dist: "distinct (map f_id (m_funcs m))"
  shows "\<exists>m' wl' c. combine_caller split ord (F, inner) (m, wl) = Inr (m', wl') \<and> distinct (map f_id (m_funcs m'))
    \<and> (\<forall>G. G \<noteq> F \<longrightarrow> find_func m' G = find_func m G)
    \<and> (\<forall>h. map_option f_type (find_func m' h) = map_option f_type (find_func m h))
    \<and> (\<forall>G x g. (G, x, Some g) \<in> module_calls m' \<longleftrightarrow>
         (if G = F then (F, x, Some g) \<in> module_calls m \<and> x \<notin> set (calls_of inner g) \<or> g \<in> fst ` set inner \<and> x = c g
          else (G, x, Some g) \<in> module_calls m))
    \<and> set (CallSites wl') = (\<lambda>g. (F, c g)) ` fst ` set inner \<union> set (CallSites wl)"
proof -
  obtain f where f: "find_func m F = Some f" "wf_func f" "settled_blocks {} f" "find_combined_call_sites f = Inr []" "pending m f inner"
    and inner: "inner \<noteq> []" "distinct (map fst inner)"
    using ok by (auto simp: entry_ok_def)
  have F: "f_id f = F" using find_func_Some[OF f(1)] by simp
  from combine_callees_one[OF split f(2,3,5) inner(2), where wl = wl and ord = ord] obtain f' wl' c where r:
    "rfold (combine_callee split ord m []) inner (f, wl) = Inr (f', wl')" "func_sig f' = func_sig f"
    "\<forall>x g. (x, Some g) \<in> func_calls f' \<longleftrightarrow> (x, Some g) \<in> func_calls f \<and> x \<notin> set (calls_of inner g) \<or> g \<in> fst ` set inner \<and> x = c g"
    "set (CallSites wl') = (\<lambda>g. (f_id f, c g)) ` fst ` set inner \<union> set (CallSites wl)"
    by (elim exE conjE) (rule that; assumption)
  let ?m = "upd_func F (\<lambda>_. f') m"
  have id: "f_id f' = F" "f_type f' = f_type f" using r(2) F by simp_all
  note calls = replaced_calls[OF dist f(1) id(1)]
  have run: "combine_caller split ord (F, inner) (m, wl) = Inr (?m, wl')"
    using inner(1) by (simp add: combine_caller_def deref_def f(1,4) map_combined_call_sites_def r(1))
  have found: "find_func ?m F = Some f'"
    by (rule find_func_member[OF calls(1), of f', unfolded id(1)]) (use find_func_Some[OF f(1)] in \<open>auto simp: upd_func_def upd_at_def\<close>)
  have types: "map_option f_type (find_func ?m h) = map_option f_type (find_func m h)" for h
    using found f(1) id find_func_replaced[OF id(1), of h m] by (cases "h = F") simp_all
  have "(G, x, Some g) \<in> module_calls ?m \<longleftrightarrow>
      (if G = F then (F, x, Some g) \<in> module_calls m \<and> x \<notin> set (calls_of inner g) \<or> g \<in> fst ` set inner \<and> x = c g
       else (G, x, Some g) \<in> module_calls m)" for G x g
    unfolding calls(2) calls_in_func[OF dist f(1)] r(3)[rule_format] by simp
  then show ?thesis using run calls(1) find_func_replaced[OF id(1)] types r(4) F
    by (intro exI[of _ ?m] exI[of _ wl'] exI[of _ c]) simp
qed

lemma combine_callers_one:
  assumes split: "split_ok split" "split_quiet split"
  shows "distinct (map fst es) \<Longrightarrow> distinct (map f_id (m_funcs m)) \<Longrightarrow> \<forall>e \<in> set es. entry_ok m e \<Longrightarrow>
    \<exists>m' wl' c. rfold (combine_caller split ord) es (m, wl) = Inr (m', wl')
      \<and> (\<forall>F x g. (F, x, Some g) \<in> module_calls m' \<longleftrightarrow>
           (F, x, Some g) \<in> module_calls m \<and> x \<notin> set (sites_of es F g) \<or> sites_of es F g \<noteq> [] \<and> x = c F g)
      \<and> (\<forall>F g. sites_of es F g \<noteq> [] \<longrightarrow> (F, c F g) \<in> set (CallSites wl')) \<and> set (CallSites wl) \<subseteq> set (CallSites wl')"
proof (induction es arbitrary: m wl)
  case Nil
  then show ?case by (simp add: sites_of_def)
next
  case (Cons e es)
  obtain F inner where e: "e = (F, inner)" by (cases e)
  have F: "F \<notin> fst ` set es" "distinct (map fst es)" using Cons.prems(1) e by auto
  have "entry_ok m (F, inner)" using Cons.prems(3) e by simp
  note ok = this
  from combine_caller_one[OF split ok Cons.prems(2), where wl = wl and ord = ord] obtain m1 wl1 k where s:
    "combine_caller split ord (F, inner) (m, wl) = Inr (m1, wl1)" "distinct (map f_id (m_funcs m1))"
    "\<forall>G. G \<noteq> F \<longrightarrow> find_func m1 G = find_func m G"
    "\<forall>h. map_option f_type (find_func m1 h) = map_option f_type (find_func m h)"
    "\<forall>G x g. (G, x, Some g) \<in> module_calls m1 \<longleftrightarrow>
         (if G = F then (F, x, Some g) \<in> module_calls m \<and> x \<notin> set (calls_of inner g) \<or> g \<in> fst ` set inner \<and> x = k g
          else (G, x, Some g) \<in> module_calls m)"
    "set (CallSites wl1) = (\<lambda>g. (F, k g)) ` fst ` set inner \<union> set (CallSites wl)"
    by (elim exE conjE) (rule that; assumption)
  have "\<forall>e' \<in> set es. entry_ok m1 e'"
  proof
    fix e' assume e': "e' \<in> set es"
    have "fst e' \<noteq> F" using F(1) e' by auto
    moreover have "entry_ok m e'" using Cons.prems(3) e' by simp
    ultimately show "entry_ok m1 e'" using s(3) pending_same_types[of m _ "snd e'" m1, OF _ s(4)[rule_format]] unfolding entry_ok_def by auto
  qed
  from Cons.IH[OF F(2) s(2) this, of wl1] obtain m' wl' c where r: "rfold (combine_caller split ord) es (m1, wl1) = Inr (m', wl')"
    "\<forall>F x g. (F, x, Some g) \<in> module_calls m' \<longleftrightarrow>
           (F, x, Some g) \<in> module_calls m1 \<and> x \<notin> set (sites_of es F g) \<or> sites_of es F g \<noteq> [] \<and> x = c F g"
    "\<forall>F g. sites_of es F g \<noteq> [] \<longrightarrow> (F, c F g) \<in> set (CallSites wl')" "set (CallSites wl1) \<subseteq> set (CallSites wl')"
    by (elim exE conjE) (rule that; assumption)
  have sites: "sites_of (e # es) G g = (if G = F then calls_of inner g else sites_of es G g)" "sites_of es F g = []" for G g
    using F(1) by (auto simp: sites_of_def calls_of_def e split: option.splits dest!: map_of_SomeD intro: rev_image_eqI)
  have keys: "g \<in> fst ` set inner \<longleftrightarrow> calls_of inner g \<noteq> []" for g
  proof -
    have "\<forall>(h, xs) \<in> set inner. xs \<noteq> []" using ok by (auto simp: entry_ok_def pending_def pending_at_def)
    moreover obtain xs where "map_of inner g = Some xs" if "g \<in> fst ` set inner" by (metis map_of_eq_None_iff not_Some_eq)
    ultimately show ?thesis using calls_of_notin[of g inner] by (fastforce simp: calls_of_def dest: map_of_SomeD)
  qed
  let ?c = "\<lambda>G g. if G = F then k g else c G g"
  have "(G, x, Some g) \<in> module_calls m' \<longleftrightarrow> (G, x, Some g) \<in> module_calls m \<and> x \<notin> set (sites_of (e # es) G g)
      \<or> sites_of (e # es) G g \<noteq> [] \<and> x = ?c G g" for G x g
    unfolding r(2)[rule_format] s(5)[rule_format] sites(1) keys using sites(2)[of g] by (cases "G = F") simp_all
  moreover have "(G, ?c G g) \<in> set (CallSites wl')" if "sites_of (e # es) G g \<noteq> []" for G g
  proof (cases "G = F")
    case True
    then have "(F, k g) \<in> set (CallSites wl1)" using that keys[of g] unfolding sites(1) s(6) by simp
    then show ?thesis using r(4) True by auto
  qed (use that r(3) in \<open>simp add: sites(1)\<close>)
  ultimately show ?case using s(1,6) r(1,4)
    by (intro exI[of _ m'] exI[of _ wl'] exI[of _ ?c]) (simp add: e)
qed

section \<open>The module\<close>

text \<open>
  Modules whose calls can be combined: valid IR, in which the calls of defined functions have the type and the number of
  arguments of the function, and which has no call block yet.
\<close>

definition well_called :: "ir_module \<Rightarrow> ir_func \<Rightarrow> bool" where
  "well_called m f \<longleftrightarrow> (\<forall>i \<in> set (func_insts f). case i_kind i of
     Call t as (FuncVal (Fn g) u) \<Rightarrow> u = t \<longrightarrow>
       (case find_func m g of None \<Rightarrow> True | Some callee \<Rightarrow> t = f_type callee \<and> length as = length (param_types t))
   | _ \<Rightarrow> True)"

definition fusable_func :: "ir_module \<Rightarrow> ir_func \<Rightarrow> bool" where
  "fusable_func m f \<longleftrightarrow> wf_func f \<and> settled_blocks {} f \<and> well_called m f \<and> find_combined_call_sites f = Inr []"

definition fusable :: "ir_module \<Rightarrow> bool" where
  "fusable m \<longleftrightarrow> distinct (map f_id (m_funcs m)) \<and> (\<forall>f \<in> set (m_funcs m). fusable_func m f)"

lemma candidates_pending:
  assumes m: "fusable m" and f: "f \<in> set (m_funcs m)" and xs: "xs = candidates_of m ig ign f g" "xs \<noteq> []"
  shows "pending_at m f g xs"
proof -
  have ok: "wf_func f" "well_called m f" using m f by (simp_all add: fusable_def fusable_func_def)
  have cand: "xs = map i_id (filter (\<lambda>i. candidate_call m ign f i = Some g) (func_insts f))"
    using xs by (simp add: candidates_of_def split: if_splits)
  obtain callee where callee: "find_func m g = Some callee"
  proof -
    obtain i where "candidate_call m ign f i = Some g" using xs(2) unfolding cand by (auto simp: filter_empty_conv)
    then show ?thesis using that by (auto simp: candidate_call_def split: if_splits option.splits fn_id.splits)
  qed
  have "\<exists>as. length as = length (param_types (f_type callee)) \<and>
      map_option i_kind (find_inst f x) = Some (Call (f_type callee) as (FuncVal (Fn g) (f_type callee)))" if x: "x \<in> set xs" for x
  proof -
    obtain i where i: "i \<in> set (func_insts f)" "i_id i = x" "candidate_call m ign f i = Some g" using x unfolding cand by auto
    then have "is_call (i_kind i)" "called_function (i_kind i) = Some (Fn g)"
      by (auto simp: candidate_call_def split: if_splits option.splits fn_id.splits)
    then obtain t as where k: "i_kind i = Call t as (FuncVal (Fn g) t)" by (cases "i_kind i") (auto simp: called_function_Some)
    then have "t = f_type callee" "length as = length (param_types t)"
      using ok(2) i(1) callee unfolding well_called_def by fastforce+
    then show ?thesis using find_inst_member[OF ok(1) i(1)] i(2) k by auto
  qed
  moreover have "subseq xs (map i_id (func_insts f))" unfolding cand by (rule subseq_map) (rule subseq_filter_left)
  ultimately show ?thesis unfolding pending_at_def using xs(2) callee by blast
qed

lemma candidates_entry:
  assumes m: "fusable m" and e: "(F, inner) \<in> set (get_candidate_call_sites m ig ign)"
  shows "entry_ok m (F, inner)"
proof -
  let ?cm = "get_candidate_call_sites m ig ign"
  have dist: "distinct (map f_id (m_funcs m))" using m by (simp add: fusable_def)
  have cm: "candidate_map ign m ?cm" by (rule candidates_sound)
  have inner: "inner \<noteq> []" "distinct (map fst inner)" "\<forall>(g, xs) \<in> set inner. xs \<noteq> []" "distinct (map fst ?cm)"
    using cm e unfolding candidate_map_def call_map_ok_def by auto
  obtain g0 xs0 where e0: "(g0, xs0) \<in> set inner" using inner(1) by (cases inner) auto
  then have "xs0 \<noteq> []" using inner(3) by auto
  then obtain x0 where "x0 \<in> set xs0" by (meson list.set_sel(1))
  then have "(F, x0, Some g0) \<in> module_calls m" using cm e e0 unfolding candidate_map_def by blast
  then obtain f where f: "f \<in> set (m_funcs m)" "f_id f = F" by (auto simp: module_calls_def)
  have mapF: "map_of ?cm F = Some inner" using e inner(4) by simp
  have "pending_at m f g xs" if gx: "(g, xs) \<in> set inner" for g xs
  proof (rule candidates_pending[OF m f(1)])
    have "sites_of ?cm F g = xs" using mapF gx inner(2) by (simp add: sites_of_def)
    then show "xs = candidates_of m ig ign f g" using get_candidates_facts(1)[OF dist f(1)] f(2) by simp
    show "xs \<noteq> []" using gx inner(3) by auto
  qed
  moreover have "find_func m F = Some f" using find_func_member[OF dist f(1)] f(2) by simp
  ultimately show ?thesis using inner m f(1) by (auto simp: entry_ok_def pending_def fusable_def fusable_func_def)
qed

text \<open>
  C2: \<open>combine_calls\<close> succeeds on every module of valid IR without call blocks, and leaves, of the candidate calls
  of a callee in a caller, exactly one: the single candidate, or the call of the new call block. That call
  is on the work list of the calls to inline, and all calls that are no candidates are left.
\<close>

theorem combine_calls_leaves_one_call:
  assumes "split_ok split" and "split_quiet split" and "fusable m"
  shows "\<exists>m' wl c. combine_calls split ord (get_candidate_call_sites m ig ign) m = Inr (m', wl) \<and>
    (\<forall>F g. let candidates = sites_of (get_candidate_call_sites m ig ign) F g in
       {x. (F, x, Some g) \<in> module_calls m'} =
         {x. (F, x, Some g) \<in> module_calls m} - set candidates \<union> (if candidates = [] then {} else {c F g}) \<and>
       (candidates \<noteq> [] \<longrightarrow> (F, c F g) \<in> set (CallSites wl)))"
proof -
  let ?cm = "get_candidate_call_sites m ig ign"
  have "distinct (map f_id (m_funcs m))" using assms(3) by (simp add: fusable_def)
  moreover have "distinct (map fst ?cm)" using candidates_sound[of ign m ig] by (simp add: candidate_map_def call_map_ok_def)
  moreover have "\<forall>e \<in> set ?cm. entry_ok m e" using candidates_entry[OF assms(3)] by auto
  ultimately obtain m' wl c where r: "rfold (combine_caller split ord) ?cm (m, \<lparr>ModifiedCallers = [], CallSites = []\<rparr>) = Inr (m', wl)"
    "\<forall>F x g. (F, x, Some g) \<in> module_calls m' \<longleftrightarrow>
       (F, x, Some g) \<in> module_calls m \<and> x \<notin> set (sites_of ?cm F g) \<or> sites_of ?cm F g \<noteq> [] \<and> x = c F g"
    "\<forall>F g. sites_of ?cm F g \<noteq> [] \<longrightarrow> (F, c F g) \<in> set (CallSites wl)"
    using combine_callers_one[OF assms(1,2), of ?cm m ord "\<lparr>ModifiedCallers = [], CallSites = []\<rparr>"] by blast
  have "{x. (F, x, Some g) \<in> module_calls m'} =
      {x. (F, x, Some g) \<in> module_calls m} - set (sites_of ?cm F g) \<union> (if sites_of ?cm F g = [] then {} else {c F g})" for F g
    using r(2) by auto
  then show ?thesis using r(1,3) unfolding combine_calls_def Let_def by blast
qed

theorem combine_calls_leaves_one_call_witness:
  "sites_of (get_candidate_call_sites sum_module False []) 7 9 = [2, 3] \<and>
   (\<exists>m' wl c. combine_calls cut_block rev (get_candidate_call_sites sum_module False []) sum_module = Inr (m', wl) \<and>
     {x. (7, x, Some 9) \<in> module_calls m'} = {c} \<and> (7, c) \<in> set (CallSites wl))"
proof -
  let ?cm = "get_candidate_call_sites sum_module False []"
  have sites: "sites_of ?cm 7 9 = [2, 3]"
    by (simp add: get_candidate_call_sites_def get_candidates_fn_insts considered_func_def sum_module_def sum_eval sites_of_def
        is_declaration_def func_empty_def candidate_call_def called_function_def find_func_def push_call_def push_back_def
        is_inline_asm_def)
  have "fusable_func sum_module sum_callee" "fusable_func sum_module sum_caller"
    by (simp_all add: fusable_func_def wf_func_def fresh_ids_def settled_blocks_def settled_def well_called_def
        find_combined_call_sites_def find_metadata_fn_def find_metadata_bb_def has_md_other_def get_md_def
        find_func_def sum_module_def sum_eval)
  then have m: "fusable sum_module" by (simp add: fusable_def) (simp add: sum_module_def sum_eval)
  have "func_calls sum_caller = {(2, Some 9), (3, Some 9)}"
    by (simp add: func_calls_list sum_eval call_target_def List.map_filter_def)
  moreover have "find_func sum_module 7 = Some sum_caller" by (simp add: find_func_def sum_module_def sum_eval)
  ultimately have calls: "{x. (7, x, Some 9) \<in> module_calls sum_module} = {2, 3}"
    using m calls_in_func[of sum_module 7 sum_caller] by (auto simp: fusable_def)
  from combine_calls_leaves_one_call[OF cut_block_ok cut_block_quiet m, of rev False "[]"] obtain m' wl c where
    "combine_calls cut_block rev ?cm sum_module = Inr (m', wl)"
    "{x. (7, x, Some 9) \<in> module_calls m'} = {2, 3} - set [2, 3] \<union> {c 7 9}" "(7, c 7 9) \<in> set (CallSites wl)"
    by (elim exE conjE) (drule spec[of _ 7], drule spec[of _ 9], simp add: sites calls Let_def)
  then show ?thesis using sites by auto
qed

end
