(* ===== verification/Demote_Registers.thy ===== *)
theory Demote_Registers
  imports IR
begin

text \<open>
  \<open>lib/passes/demote-registers/demote-registers.cpp\<close>: a function pass that moves values that live across
  blocks, and on request the constant operands of instructions, into variables on the stack. The
  constants are moved by the code itself, the other values by LLVM's demotion utilities, which are
  parameters.
\<close>

section \<open>Operands\<close>

text \<open>\<open>setOperand\<close>, by the position among the operands.\<close>

fun set_operand :: "nat \<Rightarrow> 'v \<Rightarrow> 'v ikind \<Rightarrow> 'v ikind" where
  "set_operand n v (Load p) = (if n = 0 then Load v else Load p)"
| "set_operand n v (Store w p) = (if n = 0 then Store v p else if n = 1 then Store w v else Store w p)"
| "set_operand n v (PHI ins) = (if n < length ins then PHI (ins[n := (v, snd (ins ! n))]) else PHI ins)"
| "set_operand n v (Call t as c) =
     (if n < length as then Call t (as[n := v]) c else if n = length as then Call t as v else Call t as c)"
| "set_operand n v (Invoke t as c d u) =
     (if n < length as then Invoke t (as[n := v]) c d u else if n = length as then Invoke t as v d u else Invoke t as c d u)"
| "set_operand n v (CondBr c t e) = (if n = 0 then CondBr v t e else CondBr c t e)"
| "set_operand n v (Switch c d cs) = (if n = 0 then Switch v d cs else Switch c d cs)"
| "set_operand n v (Ret w) = (if n = 0 \<and> w \<noteq> None then Ret (Some v) else Ret w)"
| "set_operand n v (BitCast w) = (if n = 0 then BitCast v else BitCast w)"
| "set_operand n v (GEP vs) = GEP (vs[n := v])"
| "set_operand n v (OtherTerm s vs bs) = OtherTerm s (vs[n := v]) bs"
| "set_operand n v (OtherInst s vs) = OtherInst s (vs[n := v])"
| "set_operand n v k = k"

lemma operands_set_operand: "operands (set_operand n v k) = (operands k)[n := v]"
proof (cases k)
  case (PHI ins)
  then show ?thesis by (simp add: map_update list_update_beyond)
qed (auto split: option.splits nat.splits simp: list_update_append list_update_beyond less_Suc_eq)

text \<open>The type of a constant operand, and \<open>std::to_string\<close>.\<close>

fun const_type :: "ir_value \<Rightarrow> ir_type" where
  "const_type (ConstInt c) = IntTy (cbits c)"
| "const_type (ConstFP t s) = t"
| "const_type v = VoidTy"

fun decimal :: "nat \<Rightarrow> string" where
  "decimal n = (if n < 10 then [char_of (48 + n)] else decimal (n div 10) @ [char_of (48 + n mod 10)])"

declare decimal.simps [simp del]

section \<open>The pass\<close>

fun is_eh_pad :: "'v ikind \<Rightarrow> bool" where
  "is_eh_pad LandingPad = True"
| "is_eh_pad CatchPad = True"
| "is_eh_pad (CatchSwitch bs) = True"
| "is_eh_pad CleanupPad = True"
| "is_eh_pad k = False"

definition value_escapes :: "ir_func \<Rightarrow> ir_block \<Rightarrow> ir_inst \<Rightarrow> bool" where
  "value_escapes f bb inst \<longleftrightarrow>
     (\<exists>u \<in> set (users f (InstVal (i_id inst))).
        map_option b_id (parent_block f (i_id u)) \<noteq> Some (b_id bb) \<or> is_phi (i_kind u))"

fun is_immediate :: "ir_value \<Rightarrow> bool" where
  "is_immediate (ConstInt c) = True"
| "is_immediate (ConstFP t s) = True"
| "is_immediate v = False"

text \<open>
  The users whose constant operands are moved. Instructions keep no memory ordering here: which of them
  are atomic is a parameter.
\<close>

definition is_intrinsic_call :: "ir_value ikind \<Rightarrow> bool" where
  "is_intrinsic_call k \<longleftrightarrow> is_call k \<and> (case called_function k of Some (Intrinsic s) \<Rightarrow> True | _ \<Rightarrow> False)"

definition demotable_user :: "(nat \<Rightarrow> bool) \<Rightarrow> ir_inst \<Rightarrow> bool" where
  "demotable_user atomic user \<longleftrightarrow>
     \<not> is_eh_pad (i_kind user) \<and> \<not> atomic (i_id user) \<and> \<not> is_alloca (i_kind user) \<and> \<not> is_intrinsic_call (i_kind user)
     \<and> (case i_kind user of GEP vs \<Rightarrow> False | Switch c d cs \<Rightarrow> False | _ \<Rightarrow> True)"

text \<open>The place for the load of an operand: before its user, for a \<open>phi\<close> at the end of the incoming block.\<close>

definition load_place :: "ir_func \<Rightarrow> ir_inst \<Rightarrow> nat \<Rightarrow> nat res" where
  "load_place f user n =
     (case i_kind user of
        PHI ins \<Rightarrow> rmap i_id (get_terminator f (snd (ins ! n)))
      | _ \<Rightarrow> Inr (i_id user))"

definition set_inst_operand :: "nat \<Rightarrow> nat \<Rightarrow> ir_value \<Rightarrow> ir_func \<Rightarrow> ir_func" where
  "set_inst_operand x n v f = upd_inst x (\<lambda>i. i\<lparr>i_kind := set_operand n v (i_kind i)\<rparr>) f"

definition demote_immediate ::
  "(nat \<Rightarrow> bool) \<Rightarrow> nat \<Rightarrow> nat \<Rightarrow> nat \<Rightarrow> ir_func \<Rightarrow> (ir_func \<times> nat option) res" where
  "demote_immediate atomic insertPt x n f =
     rbind (get_inst f x) (\<lambda>user.
       let opVal = operands (i_kind user) ! n in
       if is_immediate opVal \<and> demotable_user atomic user then
         let ty = const_type opVal;
             immAlloca = f_next f;
             f1 = new_named_before insertPt (Alloca ty) (PtrTy ty) (i_name user @ ''.imm2mem.'' @ decimal n) f;
             immStore = f_next f1;
             f2 = move_after immStore insertPt (new_before insertPt (Store opVal (InstVal immAlloca)) VoidTy f1);
             loadInst = f_next f2
         in rmap (\<lambda>place.
              (set_inst_operand x n (InstVal loadInst) (new_before place (Load (InstVal immAlloca)) ty f2), Some immAlloca))
            (load_place f2 user n)
       else Inr (f, None))"

record demoted_instructions =
  DemotedInstructionCount :: nat
  DemotedPhiNodeCount :: nat
  Allocas :: "nat option list"

definition first_not_alloca :: "ir_func \<Rightarrow> ir_inst res" where
  "first_not_alloca f =
     (case f_blocks f of
        [] \<Rightarrow> Inl NullDeref
      | bbEntry # bs \<Rightarrow> deref (first_of (dropWhile (\<lambda>i. is_alloca (i_kind i)) (b_insts bbEntry))))"

text \<open>\<open>allocaInsertionPoint\<close>, which takes the next address.\<close>

definition create_insertion_point :: "ir_func \<Rightarrow> ir_func res" where
  "create_insertion_point f =
     rmap (\<lambda>it. new_named_before (i_id it) (BitCast (ConstInt (CInt 32 0))) (IntTy 32) ''reg2mem alloca point'' f)
       (first_not_alloca f)"

text \<open>The work lists are filled at their front.\<close>

definition work_list :: "(ir_block \<Rightarrow> ir_inst \<Rightarrow> bool) \<Rightarrow> ir_func \<Rightarrow> nat list" where
  "work_list p f = rev (concat (map (\<lambda>b. map i_id (filter (p b) (b_insts b))) (f_blocks f)))"

definition demote_operand ::
  "(nat \<Rightarrow> bool) \<Rightarrow> nat \<Rightarrow> nat \<Rightarrow> nat \<Rightarrow> ir_func \<times> nat option list \<Rightarrow> (ir_func \<times> nat option list) res" where
  "demote_operand atomic insertPt x n st =
     rmap (\<lambda>(f, immAlloca). (f, if immAlloca = None then snd st else snd st @ [immAlloca]))
       (demote_immediate atomic insertPt x n (fst st))"

definition demote_operands_of ::
  "(nat \<Rightarrow> bool) \<Rightarrow> nat \<Rightarrow> nat \<Rightarrow> ir_func \<times> nat option list \<Rightarrow> (ir_func \<times> nat option list) res" where
  "demote_operands_of atomic insertPt x st =
     rbind (get_inst (fst st) x) (\<lambda>ilb.
       rfold (demote_operand atomic insertPt x) [0..<length (operands (i_kind ilb))] st)"

definition demote_all_operands :: "(nat \<Rightarrow> bool) \<Rightarrow> nat \<Rightarrow> ir_func \<Rightarrow> (ir_func \<times> nat option list) res" where
  "demote_all_operands atomic insertPt f =
     rfold (demote_operands_of atomic insertPt)
       (work_list (\<lambda>block i. \<not> is_alloca (i_kind i) \<and> \<not> is_eh_pad (i_kind i)) f) (f, [])"

definition run_demotion :: "demotion \<Rightarrow> nat \<Rightarrow> nat list \<Rightarrow> ir_func \<times> nat option list \<Rightarrow> ir_func \<times> nat option list" where
  "run_demotion demote insertPt xs st =
     fold (\<lambda>x (f, allocas). case demote x insertPt f of (f', a) \<Rightarrow> (f', allocas @ [a])) xs st"

definition in_entry :: "ir_func \<Rightarrow> ir_block \<Rightarrow> bool" where
  "in_entry f b \<longleftrightarrow> map_option b_id (first_of (f_blocks f)) = Some (b_id b)"

definition escaping_list :: "ir_func \<Rightarrow> nat list" where
  "escaping_list f =
     work_list (\<lambda>ibb i. \<not> (is_alloca (i_kind i) \<and> in_entry f ibb) \<and> value_escapes f ibb i \<and> \<not> is_eh_pad (i_kind i)) f"

definition DemoteRegisters ::
  "(nat \<Rightarrow> bool) \<Rightarrow> demotion \<Rightarrow> demotion \<Rightarrow> bool \<Rightarrow> ir_func \<Rightarrow> (ir_func \<times> demoted_instructions) res" where
  "DemoteRegisters atomic demote_reg demote_phi demoteOperands f =
     rbind (create_insertion_point f) (\<lambda>f1.
       let allocaInsertionPoint = f_next f
       in rmap (\<lambda>(f2, immediates).
            let escaping = escaping_list f2;
                (f3, slots) = run_demotion demote_reg allocaInsertionPoint escaping (f2, immediates);
                phis = work_list (\<lambda>ibb i. is_phi (i_kind i)) f3;
                (f4, allocas) = run_demotion demote_phi allocaInsertionPoint phis (f3, slots)
            in (f4, \<lparr>DemotedInstructionCount = length escaping, DemotedPhiNodeCount = length phis, Allocas = allocas\<rparr>))
          (if demoteOperands then demote_all_operands atomic allocaInsertionPoint f1 else Inr (f1, [])))"

definition demote_registers_pass ::
  "(nat \<Rightarrow> bool) \<Rightarrow> demotion \<Rightarrow> demotion \<Rightarrow> ir_func \<Rightarrow> (ir_func \<times> preserved_analyses) res" where
  "demote_registers_pass atomic demote_reg demote_phi f =
     (if is_declaration f \<or> f_optnone f then Inr (f, PA_all)
      else rmap (\<lambda>(g, demoted).
          (g, if DemotedInstructionCount demoted = 0 \<and> DemotedPhiNodeCount demoted = 0 \<and> Allocas demoted = []
              then PA_none else PA_cfg))
        (DemoteRegisters atomic demote_reg demote_phi False f))"

end
