(* ===== verification/Demote_Slots.thy ===== *)
theory Demote_Slots
  imports Demote_Registers
begin

text \<open>
  What moving the constant operands does: the variables, stores and loads it adds are numbered, the
  function before it can be read off the function after it, and no instruction that is treated keeps a
  constant operand.
\<close>

section \<open>Instructions under a change of one operand\<close>

lemma set_operand_class [simp]:
  "is_phi (set_operand n v k) = is_phi k" "is_alloca (set_operand n v k) = is_alloca k"
  "is_terminator (set_operand n v k) = is_terminator k" "is_eh_pad (set_operand n v k) = is_eh_pad k"
  "is_call (set_operand n v k) = is_call k"
  by (cases k; simp)+

lemma map_set_operand: "map_ikind h (set_operand n v k) = set_operand n (h v) (map_ikind h k)"
proof (cases k)
  case (PHI ins)
  then show ?thesis by (auto simp: map_update case_prod_beta)
next
  case (Ret w)
  then show ?thesis by (cases w) auto
qed (simp_all add: map_update)

lemma set_operand_self: "n < length (operands k) \<Longrightarrow> set_operand n (operands k ! n) k = k"
proof (cases k)
  case (PHI ins)
  then show "n < length (operands k) \<Longrightarrow> ?thesis" by (auto intro: list_update_same_conv[THEN iffD2])
next
  case (Ret w)
  then show "n < length (operands k) \<Longrightarrow> ?thesis" by (cases w) auto
qed (auto simp: nth_append less_Suc_eq split: nat.splits)

lemma set_ikind_operands: "set_ikind k = set (operands k)"
proof (cases k)
  case (Ret w)
  then show ?thesis by (cases w) auto
qed force+

lemma map_ikind_cong: "(\<And>v. v \<in> set (operands k) \<Longrightarrow> h v = h' v) \<Longrightarrow> map_ikind h k = map_ikind h' k"
  by (rule ikind.map_cong) (simp_all add: set_ikind_operands)

lemma demotable_set_operand:
  assumes "is_immediate (operands (i_kind i) ! n)" and "n < length (operands (i_kind i))"
  shows "demotable_user atomic (i\<lparr>i_kind := set_operand n (InstVal y) (i_kind i)\<rparr>) = demotable_user atomic i"
proof -
  have "called_function (set_operand n (InstVal y) (i_kind i)) = called_function (i_kind i)"
  proof (cases "i_kind i")
    case (Call t as c)
    then show ?thesis using assms by (cases c) (auto simp: called_function_def nth_append less_Suc_eq)
  next
    case (Invoke t as c d u)
    then show ?thesis using assms by (cases c) (auto simp: called_function_def nth_append less_Suc_eq)
  qed (simp_all add: called_function_def)
  then show ?thesis
    unfolding demotable_user_def is_intrinsic_call_def by (cases "i_kind i") simp_all
qed

section \<open>One constant operand\<close>

text \<open>The edit of every block: the variable, the store behind the insertion point, the load, the operand.\<close>

definition slot_edit :: "nat \<Rightarrow> nat \<Rightarrow> nat \<Rightarrow> (ir_inst \<Rightarrow> ir_inst) \<Rightarrow> ir_inst \<Rightarrow> ir_inst \<Rightarrow> ir_inst \<Rightarrow> ir_inst list \<Rightarrow> ir_inst list" where
  "slot_edit ip place x so al st ld is =
     upd_at i_id x so (ins_before i_id place ld (ins_after i_id ip st (ins_before i_id ip al is)))"

definition slot_var :: "nat \<Rightarrow> ir_value \<Rightarrow> string \<Rightarrow> ir_inst" where
  "slot_var a c nm = mk_inst a (Alloca (const_type c)) (PtrTy (const_type c)) nm"

definition slot_store :: "nat \<Rightarrow> ir_value \<Rightarrow> ir_inst" where
  "slot_store a c = mk_inst (Suc a) (Store c (InstVal a)) VoidTy ''''"

definition slot_load :: "nat \<Rightarrow> ir_value \<Rightarrow> ir_inst" where
  "slot_load a c = mk_inst (Suc (Suc a)) (Load (InstVal a)) (const_type c) ''''"

definition operand_update :: "nat \<Rightarrow> nat \<Rightarrow> ir_inst \<Rightarrow> ir_inst" where
  "operand_update n y i = i\<lparr>i_kind := set_operand n (InstVal y) (i_kind i)\<rparr>"

lemma operand_update_simps [simp]: "i_id (operand_update n y i) = i_id i"
  "i_kind (operand_update n y i) = set_operand n (InstVal y) (i_kind i)"
  by (simp_all add: operand_update_def)

lemma slot_simps [simp]: "i_id (slot_var a c nm) = a" "i_id (slot_store a c) = Suc a" "i_id (slot_load a c) = Suc (Suc a)"
  "i_kind (slot_var a c nm) = Alloca (const_type c)" "i_kind (slot_store a c) = Store c (InstVal a)"
  "i_kind (slot_load a c) = Load (InstVal a)"
  by (simp_all add: slot_var_def slot_store_def slot_load_def)

lemma terminator_slots:
  assumes "b_insts b \<noteq> [] \<Longrightarrow> i_id (last (b_insts b)) \<noteq> ip" and "i_id al \<noteq> ip"
  shows "terminator (on_insts (ins_after i_id ip st \<circ> ins_before i_id ip al) b) = terminator b"
proof (cases "b_insts b = []")
  case False
  have l: "last (ins_before i_id ip al (b_insts b)) = last (b_insts b)" "ins_before i_id ip al (b_insts b) \<noteq> []"
    using last_ins_before[OF False, of i_id ip al] by blast+
  have "last (ins_after i_id ip st (ins_before i_id ip al (b_insts b))) = last (b_insts b)
      \<and> ins_after i_id ip st (ins_before i_id ip al (b_insts b)) \<noteq> []"
    using last_ins_after[OF l(2), of i_id ip st] l(1) assms(1)[OF False] by simp
  with False show ?thesis by (simp add: terminator_def)
qed (simp add: terminator_def)

lemma load_place_map:
  assumes "\<And>b. b \<in> set (f_blocks f) \<Longrightarrow> terminator (on_insts h b) = terminator b"
  shows "load_place (map_blocks (on_insts h) f\<lparr>f_next := m\<rparr>) user n = load_place f user n"
proof -
  have "get_terminator (map_blocks (on_insts h) f\<lparr>f_next := m\<rparr>) b = get_terminator f b" for b
    using assms find_block_Some[of f b]
    by (cases "find_block f b") (auto simp: get_terminator_def find_block_map)
  then show ?thesis by (simp add: load_place_def split: ikind.split)
qed

lemma demote_immediate_edit:
  assumes wf: "wf_func f" and user: "find_inst f x = Some user" and ip: "ip \<in> i_id ` set (func_insts f)"
    and c: "operands (i_kind user) ! n = c" "is_immediate c" "demotable_user atomic user"
    and last: "\<And>b. b \<in> set (f_blocks f) \<Longrightarrow> b_insts b \<noteq> [] \<Longrightarrow> i_id (last (b_insts b)) \<noteq> ip"
    and place: "load_place f user n = Inr place"
  shows "demote_immediate atomic ip x n f =
    Inr (map_blocks (on_insts (slot_edit ip place x (operand_update n (Suc (Suc (f_next f))))
           (slot_var (f_next f) c (i_name user @ ''.imm2mem.'' @ decimal n)) (slot_store (f_next f) c) (slot_load (f_next f) c))) f
         \<lparr>f_next := Suc (Suc (Suc (f_next f)))\<rparr>, Some (f_next f))"
proof -
  let ?a = "f_next f"
  define nm where "nm = i_name user @ ''.imm2mem.'' @ decimal n"
  let ?al = "slot_var ?a c nm"
  let ?f1 = "new_named_before ip (Alloca (const_type c)) (PtrTy (const_type c)) nm f"
  let ?h = "ins_after i_id ip (slot_store ?a c) \<circ> ins_before i_id ip ?al"
  have f1: "?f1 = map_blocks (on_insts (ins_before i_id ip ?al)) f\<lparr>f_next := Suc ?a\<rparr>"
    by (simp add: new_named_before_def insert_before_def slot_var_def)
  have wf1: "wf_func ?f1" unfolding new_named_before_def by (rule wf_func_insert_fresh[OF wf]) simp
  have "func_insts ?f1 = ins_before i_id ip ?al (func_insts f)"
    by (simp add: new_named_before_def func_insts_insert_before wf_func_distinct[OF wf] slot_var_def)
  then have ip1: "ip \<in> i_id ` set (func_insts ?f1)" using ip by (auto simp: set_ins_before)
  have next1: "f_next ?f1 = Suc ?a" by (simp add: f1)
  have f2: "move_after (Suc ?a) ip (new_before ip (Store c (InstVal ?a)) VoidTy ?f1) = map_blocks (on_insts ?h) f\<lparr>f_next := Suc (Suc ?a)\<rparr>"
    using move_after_new[OF wf1 ip1, of "Store c (InstVal ?a)" VoidTy]
    by (simp add: next1 insert_after_def f1 map_blocks_next map_blocks_comp on_insts_comp slot_store_def)
  have aip: "?a \<noteq> ip" using wf_func_next_notin[OF wf] ip by metis
  have "load_place (map_blocks (on_insts ?h) f\<lparr>f_next := Suc (Suc ?a)\<rparr>) user n = Inr place"
    unfolding place[symmetric]
    by (rule load_place_map, rule terminator_slots) (use last aip in simp_all)
  then show ?thesis
    using c user unfolding demote_immediate_def nm_def[symmetric]
    by (simp add: nm_def[symmetric, simplified] get_inst_def Let_def f2 next1)
      (simp add: set_inst_operand_def upd_inst_def new_before_def insert_before_def
        map_blocks_next map_blocks_comp on_insts_def[abs_def] slot_edit_def comp_def slot_load_def operand_update_def[abs_def])
qed

lemma slot_edit_func:
  "map_blocks (on_insts (slot_edit ip place x so al st ld)) f =
   upd_inst x so (insert_before place ld (insert_after ip st (insert_before ip al f)))"
  by (simp add: upd_inst_def insert_before_def insert_after_def map_blocks_comp on_insts_def[abs_def] slot_edit_def comp_def)

text \<open>New addresses: the next three.\<close>

definition new_slot :: "nat \<Rightarrow> ir_inst \<Rightarrow> ir_inst \<Rightarrow> ir_inst \<Rightarrow> bool" where
  "new_slot a al st ld \<longleftrightarrow> i_id al = a \<and> i_id st = Suc a \<and> i_id ld = Suc (Suc a)"

lemma slot_edit_insts:
  assumes "wf_func f" and "new_slot (f_next f) al st ld" and "\<And>i. i_id (so i) = i_id i"
  shows "func_insts (map_blocks (on_insts (slot_edit ip place x so al st ld)) f) = slot_edit ip place x so al st ld (func_insts f)"
    and "wf_func (map_blocks (on_insts (slot_edit ip place x so al st ld)) f\<lparr>f_next := Suc (Suc (Suc (f_next f)))\<rparr>)"
proof -
  let ?f1 = "insert_before ip al f\<lparr>f_next := Suc (f_next f)\<rparr>"
  let ?f2 = "insert_after ip st ?f1\<lparr>f_next := Suc (f_next ?f1)\<rparr>"
  let ?f3 = "insert_before place ld ?f2\<lparr>f_next := Suc (f_next ?f2)\<rparr>"
  have id: "i_id al = f_next f" "i_id st = f_next ?f1" "i_id ld = f_next ?f2" using assms(2) by (simp_all add: new_slot_def)
  have wf1: "wf_func ?f1" by (rule wf_func_insert_fresh[OF assms(1) id(1)])
  have wf2: "wf_func ?f2" by (rule wf_func_insert_after_fresh[OF wf1 id(2)])
  have wf3: "wf_func ?f3" by (rule wf_func_insert_fresh[OF wf2 id(3)])
  have all: "map_blocks (on_insts (slot_edit ip place x so al st ld)) f\<lparr>f_next := Suc (Suc (Suc (f_next f)))\<rparr> = upd_inst x so ?f3"
    by (simp add: slot_edit_func upd_inst_def insert_before_def insert_after_def map_blocks_next)
  then show "wf_func (map_blocks (on_insts (slot_edit ip place x so al st ld)) f\<lparr>f_next := Suc (Suc (Suc (f_next f)))\<rparr>)"
    using wf_func_upd_inst[OF wf3 assms(3)] by simp
  have "func_insts (map_blocks (on_insts (slot_edit ip place x so al st ld)) f) = func_insts (upd_inst x so ?f3)"
    unfolding all[symmetric] by simp
  also have "\<dots> = slot_edit ip place x so al st ld (func_insts f)"
    using wf_func_distinct[OF wf1] wf_func_distinct[OF wf2]
    by (simp add: func_insts_upd_inst func_insts_insert_before func_insts_insert_after wf_func_distinct[OF assms(1)] slot_edit_def)
  finally show "func_insts (map_blocks (on_insts (slot_edit ip place x so al st ld)) f) = slot_edit ip place x so al st ld (func_insts f)" .
qed

lemma at_id_slot_edit:
  assumes "\<And>i. i_id (so i) = i_id i" and "new_slot a al st ld" and "\<forall>i \<in> i_id ` set xs. i < a"
    and "ip \<in> i_id ` set xs" and "place \<in> i_id ` set xs" and "x < a"
  shows "at_id i_id y (slot_edit ip place x so al st ld xs) =
    (if y = a then Some al else if y = Suc a then Some st else if y = Suc (Suc a) then Some ld
     else if y = x then map_option so (at_id i_id y xs) else at_id i_id y xs)"
proof -
  have old: "z \<notin> i_id ` set xs" if "a \<le> z" for z using assms(3) that by force
  let ?xs1 = "ins_before i_id ip al xs"
  let ?xs2 = "ins_after i_id ip st ?xs1"
  have s1: "i_id ` set ?xs1 = insert a (i_id ` set xs)" using assms(2,4) by (simp add: set_ins_before new_slot_def)
  have s2: "i_id ` set ?xs2 = insert (Suc a) (insert a (i_id ` set xs))"
    using assms(2,4) s1 by (simp add: set_ins_after new_slot_def)
  have ids: "i_id al = a" "i_id st = Suc a" "i_id ld = Suc (Suc a)" using assms(2) by (simp_all add: new_slot_def)
  have n1: "i_id al \<notin> i_id ` set xs" and n2: "i_id st \<notin> i_id ` set ?xs1" and n3: "i_id ld \<notin> i_id ` set ?xs2"
    unfolding s1 s2 ids using old[of a] old[of "Suc a"] old[of "Suc (Suc a)"] by simp_all
  have "place \<in> i_id ` set ?xs2" "ip \<in> i_id ` set ?xs1" unfolding s1 s2 using assms(4,5) by simp_all
  then show ?thesis
    unfolding slot_edit_def at_id_upd_at[of i_id so, OF assms(1)] at_id_ins_before[OF n3] at_id_ins_after[OF n2] at_id_ins_before[OF n1] ids
    using assms(4,6) by auto
qed

lemma filter_slot_edit:
  assumes "new_slot a al st ld" and "N \<le> a" and "\<And>i. i_id (so i) = i_id i"
  shows "filter (\<lambda>i. i_id i < N) (slot_edit ip place x so al st ld xs) = upd_at i_id x so (filter (\<lambda>i. i_id i < N) xs)"
  using assms by (simp add: slot_edit_def filter_upd_at filter_ins_before filter_ins_after new_slot_def)

lemma last_slot_edit:
  assumes "xs \<noteq> []" and "i_id (last xs) \<noteq> ip" and "\<And>i. i_id (so i) = i_id i"
  shows "i_id (last (slot_edit ip place x so al st ld xs)) = i_id (last xs)"
proof -
  have 1: "last (ins_before i_id ip al xs) = last xs" "ins_before i_id ip al xs \<noteq> []"
    using last_ins_before[OF assms(1), of i_id ip al] by auto
  have 2: "last (ins_after i_id ip st (ins_before i_id ip al xs)) = last xs" "ins_after i_id ip st (ins_before i_id ip al xs) \<noteq> []"
    using last_ins_after[OF 1(2), of i_id ip st] 1 assms(2) by auto
  have "last (ins_before i_id place ld (ins_after i_id ip st (ins_before i_id ip al xs))) = last xs"
    "ins_before i_id place ld (ins_after i_id ip st (ins_before i_id ip al xs)) \<noteq> []"
    using last_ins_before[OF 2(2), of i_id place ld] 2(1) by auto
  then show ?thesis using assms(3) by (simp add: slot_edit_def upd_at_def last_map)
qed

section \<open>The variables made so far\<close>

text \<open>
  \<open>N\<close> is the first unused address before the loop. The variable, the store and the load of the \<open>k\<close>-th
  constant are at \<open>N + 3 * k\<close> and the two addresses behind it.
\<close>

definition imm_slots :: "nat \<Rightarrow> ir_value list \<Rightarrow> ir_func \<Rightarrow> bool" where
  "imm_slots N cs g \<longleftrightarrow>
     (\<forall>k < length cs.
        map_option i_kind (find_inst g (N + 3 * k)) = Some (Alloca (const_type (cs ! k))) \<and>
        map_option i_kind (find_inst g (N + 3 * k + 1)) = Some (Store (cs ! k) (InstVal (N + 3 * k))) \<and>
        map_option i_kind (find_inst g (N + 3 * k + 2)) = Some (Load (InstVal (N + 3 * k))))"

text \<open>The value an operand stands for, and the function without the variables.\<close>

definition slot_value :: "nat \<Rightarrow> ir_value list \<Rightarrow> ir_value \<Rightarrow> ir_value" where
  "slot_value N cs v =
     (case v of
        InstVal y \<Rightarrow> if N \<le> y \<and> y < N + 3 * length cs \<and> (y - N) mod 3 = 2 then cs ! ((y - N) div 3) else v
      | _ \<Rightarrow> v)"

definition undo_inst :: "nat \<Rightarrow> ir_value list \<Rightarrow> ir_inst \<Rightarrow> ir_inst" where
  "undo_inst N cs i = i\<lparr>i_kind := map_ikind (slot_value N cs) (i_kind i)\<rparr>"

definition undo_slots :: "nat \<Rightarrow> ir_value list \<Rightarrow> ir_func \<Rightarrow> ir_func" where
  "undo_slots N cs g =
     map_blocks (on_insts (\<lambda>is. map (undo_inst N cs) (filter (\<lambda>i. i_id i < N) is))) g\<lparr>f_next := N\<rparr>"

text \<open>An operand of an instruction that was there before: an old value or one of the loads.\<close>

definition slot_operand :: "nat \<Rightarrow> ir_value list \<Rightarrow> ir_value \<Rightarrow> bool" where
  "slot_operand N cs v =
     (case v of
        InstVal y \<Rightarrow> y < N \<or> (y < N + 3 * length cs \<and> (y - N) mod 3 = 2)
      | _ \<Rightarrow> True)"

text \<open>The loop after it made the variables of the constants \<open>cs\<close> in \<open>f0\<close>.\<close>

definition slots_made :: "nat \<Rightarrow> ir_func \<Rightarrow> ir_value list \<Rightarrow> ir_func \<Rightarrow> bool" where
  "slots_made N f0 cs g \<longleftrightarrow>
     wf_func g \<and> f_next g = N + 3 * length cs \<and> (\<forall>c \<in> set cs. is_immediate c) \<and> imm_slots N cs g \<and> undo_slots N cs g = f0
     \<and> (\<forall>i \<in> set (func_insts g). i_id i < N \<longrightarrow> (\<forall>v \<in> set (operands (i_kind i)). slot_operand N cs v))
     \<and> (\<forall>b \<in> set (f_blocks g). b_insts b \<noteq> [] \<longrightarrow> i_id (last (b_insts b)) < N)"

lemma slot_value_append:
  assumes "slot_operand N cs v"
  shows "slot_value N (cs @ [c]) v = slot_value N cs v"
proof (cases v)
  case (InstVal y)
  have "(y - N) div 3 < length cs" if "y < N + 3 * length cs" "N \<le> y" using that by linarith
  then show ?thesis using assms InstVal by (auto simp: slot_value_def slot_operand_def nth_append)
qed (simp_all add: slot_value_def)

lemma slot_value_new: "slot_value N (cs @ [c]) (InstVal (N + 3 * length cs + 2)) = c"
proof -
  have "(3 * length cs + 2) mod 3 = 2" "(3 * length cs + 2) div 3 = length cs" by presburger+
  then show ?thesis by (simp add: slot_value_def)
qed

lemma slot_value_immediate: "is_immediate c \<Longrightarrow> slot_value N cs c = c"
  by (cases c) (simp_all add: slot_value_def)

lemma undo_inst_update:
  assumes "n < length (operands (i_kind i))" and "is_immediate (operands (i_kind i) ! n)"
    and "\<forall>v \<in> set (operands (i_kind i)). slot_operand N cs v" and "c = operands (i_kind i) ! n"
  shows "undo_inst N (cs @ [c]) (operand_update n (N + 3 * length cs + 2) i) = undo_inst N cs i"
proof -
  have same: "map_ikind (slot_value N (cs @ [c])) (i_kind i) = map_ikind (slot_value N cs) (i_kind i)"
    by (rule map_ikind_cong) (use assms(3) slot_value_append in blast)
  have "operands (map_ikind (slot_value N cs) (i_kind i)) ! n = c"
    using assms by (simp add: operands_map slot_value_immediate)
  then have "set_operand n c (map_ikind (slot_value N cs) (i_kind i)) = map_ikind (slot_value N cs) (i_kind i)"
    using set_operand_self[of n "map_ikind (slot_value N cs) (i_kind i)"] assms(1) by (simp add: operands_map)
  then show ?thesis
    by (simp add: undo_inst_def operand_update_def map_set_operand slot_value_new same del: add_2_eq_Suc')
qed

lemma slot_operand_more: "slot_operand N cs v \<Longrightarrow> slot_operand N (cs @ [c]) v"
  by (auto simp: slot_operand_def split: ir_value.splits)

lemma slot_operand_new: "slot_operand N (cs @ [c]) (InstVal (N + 3 * length cs + 2))"
proof -
  have "(3 * length cs + 2) mod 3 = 2" by presburger
  then show ?thesis by (simp add: slot_operand_def)
qed

text \<open>One more constant gets its variable.\<close>

text \<open>One step changes one operand of an old instruction and adds three new ones: undoing the longer
  list of slots takes every old instruction back to the same original.\<close>

lemma undo_after_step:
  assumes wf: "wf_func g" and user: "find_inst g x = Some user" "x < N" and n: "n < length (operands (i_kind user))"
    and c: "operands (i_kind user) ! n = c" "is_immediate c"
    and ops: "\<And>i v. i \<in> set (func_insts g) \<Longrightarrow> i_id i < N \<Longrightarrow> v \<in> set (operands (i_kind i)) \<Longrightarrow> slot_operand N cs v"
    and i: "i \<in> set (func_insts g)" "i_id i < N"
  shows "undo_inst N (cs @ [c]) (if i_id i = x then operand_update n (N + 3 * length cs + 2) i else i) = undo_inst N cs i"
proof (cases "i_id i = x")
  case True
  then have u: "i = user" using user(1) find_inst_member[OF wf i(1)] by simp
  have "\<forall>v \<in> set (operands (i_kind user)). slot_operand N cs v" using ops[OF i] u by simp
  then have "undo_inst N (cs @ [c]) (operand_update n (N + 3 * length cs + 2) user) = undo_inst N cs user"
    by (intro undo_inst_update n c(1)[symmetric]) (simp add: c)
  with True u show ?thesis by simp
next
  case False
  have "map_ikind (slot_value N (cs @ [c])) (i_kind i) = map_ikind (slot_value N cs) (i_kind i)"
    by (intro map_ikind_cong slot_value_append) (use ops[OF i] in blast)
  with False show ?thesis by (simp add: undo_inst_def)
qed

lemma undo_slots_step:
  assumes inst: "\<And>i. i \<in> set (func_insts g) \<Longrightarrow> i_id i < N \<Longrightarrow>
      undo_inst N (cs @ [c]) (if i_id i = x then so i else i) = undo_inst N cs i"
    and new: "new_slot a al st ld" "N \<le> a" and so: "\<And>i. i_id (so i) = i_id i"
    and g': "g' = map_blocks (on_insts (slot_edit ip place x so al st ld)) g\<lparr>f_next := m\<rparr>"
  shows "undo_slots N (cs @ [c]) g' = undo_slots N cs g"
proof -
  let ?T = "slot_edit ip place x so al st ld"
  have "map (undo_inst N (cs @ [c])) (filter (\<lambda>i. i_id i < N) (?T (b_insts b))) = map (undo_inst N cs) (filter (\<lambda>i. i_id i < N) (b_insts b))"
    if "b \<in> set (f_blocks g)" for b
    unfolding filter_slot_edit[OF new so] unfolding upd_at_def list.map_comp comp_def
    by (rule map_cong[OF refl]) (use inst block_inst_func[OF that] in auto)
  then have "map_blocks (on_insts (\<lambda>is. map (undo_inst N (cs @ [c])) (filter (\<lambda>i. i_id i < N) is)) \<circ> on_insts ?T) g =
      map_blocks (on_insts (\<lambda>is. map (undo_inst N cs) (filter (\<lambda>i. i_id i < N) is))) g"
    by (intro map_blocks_cong) (simp add: on_insts_def)
  then show ?thesis by (simp add: undo_slots_def g' map_blocks_next map_blocks_comp)
qed

lemma slot_operands_step:
  assumes ops: "\<And>i v. i \<in> set is \<Longrightarrow> i_id i < N \<Longrightarrow> v \<in> set (operands (i_kind i)) \<Longrightarrow> slot_operand N cs v"
    and new: "new_slot (N + 3 * length cs) al st ld"
    and i: "i \<in> set (slot_edit ip place x (operand_update n (N + 3 * length cs + 2)) al st ld is)" "i_id i < N"
    and v: "v \<in> set (operands (i_kind i))"
  shows "slot_operand N (cs @ [c]) v"
proof -
  let ?so = "operand_update n (N + 3 * length cs + 2)"
  have N: "N \<le> N + 3 * length cs" and so: "\<And>i. i_id (?so i) = i_id i" by simp_all
  have "i \<in> set (filter (\<lambda>i. i_id i < N) (slot_edit ip place x ?so al st ld is))" using i by simp
  then have "i \<in> set (upd_at i_id x ?so (filter (\<lambda>i. i_id i < N) is))" unfolding filter_slot_edit[OF new N so] .
  then obtain j where j: "j \<in> set is" "i_id j < N" "i = (if i_id j = x then ?so j else j)" by (auto simp: upd_at_def)
  have "v = InstVal (N + 3 * length cs + 2) \<or> v \<in> set (operands (i_kind j))"
    using v j(3) set_update_subset_insert[of "operands (i_kind j)" n "InstVal (N + 3 * length cs + 2)"]
    by (auto simp: operands_set_operand split: if_splits)
  then show ?thesis using ops[OF j(1,2)] slot_operand_more slot_operand_new by blast
qed

lemma imm_slots_step:
  assumes slots: "imm_slots N cs g"
    and old: "\<And>y. y < N + 3 * length cs \<Longrightarrow> N \<le> y \<Longrightarrow> find_inst g' y = find_inst g y"
    and new: "map_option i_kind (find_inst g' (N + 3 * length cs)) = Some (Alloca (const_type c))"
      "map_option i_kind (find_inst g' (N + 3 * length cs + 1)) = Some (Store c (InstVal (N + 3 * length cs)))"
      "map_option i_kind (find_inst g' (N + 3 * length cs + 2)) = Some (Load (InstVal (N + 3 * length cs)))"
  shows "imm_slots N (cs @ [c]) g'"
  unfolding imm_slots_def
proof (intro allI impI)
  fix k assume "k < length (cs @ [c])"
  then consider "k < length cs" | "k = length cs" by force
  then show "map_option i_kind (find_inst g' (N + 3 * k)) = Some (Alloca (const_type ((cs @ [c]) ! k))) \<and>
      map_option i_kind (find_inst g' (N + 3 * k + 1)) = Some (Store ((cs @ [c]) ! k) (InstVal (N + 3 * k))) \<and>
      map_option i_kind (find_inst g' (N + 3 * k + 2)) = Some (Load (InstVal (N + 3 * k)))"
  proof cases
    case 1
    then have "find_inst g' (N + 3 * k) = find_inst g (N + 3 * k)" "find_inst g' (N + 3 * k + 1) = find_inst g (N + 3 * k + 1)"
      "find_inst g' (N + 3 * k + 2) = find_inst g (N + 3 * k + 2)" by (simp_all add: old)
    with 1 slots show ?thesis by (simp add: imm_slots_def nth_append)
  qed (use new in simp)
qed

lemma ends_after_edit:
  assumes last: "\<And>b. b \<in> set (f_blocks g) \<Longrightarrow> b_insts b \<noteq> [] \<Longrightarrow> i_id (last (b_insts b)) \<noteq> ip \<and> i_id (last (b_insts b)) < N"
    and so: "\<And>i. i_id (so i) = i_id i"
    and g': "g' = map_blocks (on_insts (slot_edit ip place x so al st ld)) g\<lparr>f_next := m\<rparr>"
    and b: "b \<in> set (f_blocks g')" "b_insts b \<noteq> []"
  shows "i_id (last (b_insts b)) < N"
proof -
  obtain c where c: "c \<in> set (f_blocks g)" "b = on_insts (slot_edit ip place x so al st ld) c" using b(1) by (auto simp: g')
  have ne: "b_insts c \<noteq> []"
  proof
    assume "b_insts c = []"
    then have "b_insts b = []" by (simp add: c(2) slot_edit_def)
    with b(2) show False by simp
  qed
  have "i_id (last (b_insts c)) \<noteq> ip" "i_id (last (b_insts c)) < N" using last[OF c(1) ne] by blast+
  then show ?thesis using last_slot_edit[OF ne _ so] c(2) by simp
qed

lemma slots_step:
  assumes made: "slots_made N f0 cs g" and ip: "ip < N" "ip \<in> i_id ` set (func_insts g)"
    and ends_off: "\<forall>b \<in> set (f_blocks g). b_insts b \<noteq> [] \<longrightarrow> i_id (last (b_insts b)) \<noteq> ip"
    and user: "find_inst g x = Some user" "x < N" and n: "n < length (operands (i_kind user))"
    and imm: "operands (i_kind user) ! n = c" "is_immediate c" "demotable_user atomic user"
    and place: "load_place g user n = Inr place" "place \<in> i_id ` set (func_insts g)"
    and al: "al = slot_var (f_next g) c (i_name user @ ''.imm2mem.'' @ decimal n)"
    and g': "g' = map_blocks (on_insts (slot_edit ip place x (operand_update n (N + 3 * length cs + 2)) al
               (slot_store (f_next g) c) (slot_load (f_next g) c))) g\<lparr>f_next := N + 3 * Suc (length cs)\<rparr>"
  shows "demote_immediate atomic ip x n g = Inr (g', Some (N + 3 * length cs))"
    and "slots_made N f0 (cs @ [c]) g'"
    and "y < N \<Longrightarrow> find_inst g' y = (if y = x then Some (operand_update n (N + 3 * length cs + 2) user) else find_inst g y)"
proof -
  let ?a = "N + 3 * length cs"
  let ?so = "operand_update n (?a + 2)"
  let ?st = "slot_store ?a c"
  let ?ld = "slot_load ?a c"
  let ?T = "slot_edit ip place x ?so al ?st ?ld"
  have last: "\<And>b. b \<in> set (f_blocks g) \<Longrightarrow> b_insts b \<noteq> [] \<Longrightarrow> i_id (last (b_insts b)) \<noteq> ip" using ends_off by blast
  have wf: "wf_func g" and nxt: "f_next g = ?a" and slots: "imm_slots N cs g" and undo: "undo_slots N cs g = f0"
    and ops: "\<And>i v. i \<in> set (func_insts g) \<Longrightarrow> i_id i < N \<Longrightarrow> v \<in> set (operands (i_kind i)) \<Longrightarrow> slot_operand N cs v"
    and ends: "\<And>b. b \<in> set (f_blocks g) \<Longrightarrow> b_insts b \<noteq> [] \<Longrightarrow> i_id (last (b_insts b)) < N"
    using made by (simp_all add: slots_made_def)
  have al_simps: "i_id al = ?a" "i_kind al = Alloca (const_type c)" by (simp_all add: al nxt)
  have g'_T: "g' = map_blocks (on_insts ?T) g\<lparr>f_next := Suc (Suc (Suc (f_next g)))\<rparr>" by (simp add: g' nxt)
  show "demote_immediate atomic ip x n g = Inr (g', Some ?a)"
    using demote_immediate_edit[OF wf user(1) ip(2) imm last place(1)] by (simp add: g' al nxt)
  have new: "new_slot (f_next g) al ?st ?ld" by (simp add: new_slot_def al_simps nxt)
  have so: "\<And>i. i_id (?so i) = i_id i" by simp
  have insts: "func_insts g' = ?T (func_insts g)" and wf': "wf_func g'"
    using slot_edit_insts[OF wf new so] by (simp_all add: g'_T)
  have below: "\<forall>i \<in> i_id ` set (func_insts g). i < ?a" using wf by (auto simp: wf_func_def fresh_ids_def nxt)
  have new_a: "new_slot ?a al ?st ?ld" using new by (simp add: nxt)
  have "x < ?a" using user(2) by simp
  note find = at_id_slot_edit[OF so new_a below ip(2) place(2) this]
  have find': "find_inst g' y =
      (if y = ?a then Some al else if y = Suc ?a then Some ?st else if y = Suc (Suc ?a) then Some ?ld
       else if y = x then map_option ?so (find_inst g y) else find_inst g y)" for y
    unfolding find_inst_def insts by (rule find)
  then show "y < N \<Longrightarrow> find_inst g' y = (if y = x then Some (?so user) else find_inst g y)" using user(1) by simp
  have "imm_slots N (cs @ [c]) g'"
    by (rule imm_slots_step[OF slots]) (use user(2) in \<open>simp_all add: find' al_simps\<close>)
  moreover have "undo_slots N (cs @ [c]) g' = f0"
    using undo_slots_step[OF undo_after_step[OF wf user n imm(1,2) ops] new_a _ so g'_T] undo by simp
  moreover have "slot_operand N (cs @ [c]) v"
    if "i \<in> set (func_insts g')" "i_id i < N" "v \<in> set (operands (i_kind i))" for i v
    using slot_operands_step[OF ops new_a that(1)[unfolded insts] that(2,3)] .
  moreover have "i_id (last (b_insts b)) < N" if "b \<in> set (f_blocks g')" "b_insts b \<noteq> []" for b
    by (rule ends_after_edit[OF conjI[OF last ends] so g'_T that])
  ultimately show "slots_made N f0 (cs @ [c]) g'"
    unfolding slots_made_def using wf' made imm(2) by (auto simp: g' slots_made_def)
qed

section \<open>The entry block\<close>

text \<open>
  While the insertion point itself is not treated, the entry block consists of variables, the insertion
  point, the stores and at least one instruction more. \<open>As\<close> are the variables that were there before.
\<close>

definition entry_layout :: "nat \<Rightarrow> nat \<Rightarrow> nat list \<Rightarrow> nat \<Rightarrow> ir_func \<Rightarrow> bool" where
  "entry_layout ip N As m g \<longleftrightarrow>
     (\<exists>eb bs A bc S R. f_blocks g = eb # bs \<and> b_insts eb = A @ bc # S @ R \<and> R \<noteq> [] \<and> i_id bc = ip
        \<and> (\<forall>i \<in> set A. is_alloca (i_kind i)) \<and> map i_id A = As @ map (\<lambda>k. N + 3 * k) [0..<m]
        \<and> map i_id S = rev (map (\<lambda>k. N + 3 * k + 1) [0..<m]))"

lemma layout_last:
  assumes "wf_func g" and "entry_layout ip N As m g" and "b \<in> set (f_blocks g)" and "b_insts b \<noteq> []"
  shows "i_id (last (b_insts b)) \<noteq> ip"
proof -
  obtain eb bs A bc R where g: "f_blocks g = eb # bs" "b_insts eb = A @ bc # R" "R \<noteq> []" "i_id bc = ip"
    using assms(2) unfolding entry_layout_def by (metis append_is_Nil_conv)
  have d: "distinct (map i_id (A @ bc # R) @ map i_id (concat (map b_insts bs)))"
    using wf_func_distinct[OF assms(1)] by (simp add: func_insts_def g(1,2))
  show ?thesis
  proof (cases "b = eb")
    case True
    then have "i_id (last (b_insts b)) \<in> set (map i_id R)" using g(2,3) by simp
    then show ?thesis using d g(4) by auto
  next
    case False
    then have "b \<in> set bs" using assms(3) g(1) by simp
    then have "last (b_insts b) \<in> set (concat (map b_insts bs))" using assms(4) last_in_set by fastforce
    then have "i_id (last (b_insts b)) \<in> set (map i_id (concat (map b_insts bs)))" by simp
    then show ?thesis using d g(4) by auto
  qed
qed

lemma layout_point: "entry_layout ip N As m g \<Longrightarrow> ip \<in> i_id ` set (func_insts g)"
  by (auto simp: entry_layout_def func_insts_def)

text \<open>The incoming blocks of all \<open>phi\<close> nodes have terminators.\<close>

definition phi_ends :: "ir_func \<Rightarrow> bool" where
  "phi_ends f \<longleftrightarrow> (\<forall>i \<in> set (func_insts f). \<forall>ins. i_kind i = PHI ins \<longrightarrow> (\<forall>(v, b) \<in> set ins. \<exists>t. get_terminator f b = Inr t))"

lemma last_filter: "xs \<noteq> [] \<Longrightarrow> p (last xs) \<Longrightarrow> filter p xs \<noteq> [] \<and> last (filter p xs) = last xs"
  by (induction xs) (auto simp: filter_empty_conv split: if_splits)

lemma is_terminator_map [simp]: "is_terminator (map_ikind h k) = is_terminator k"
  by (cases k) simp_all

lemma undo_insts:
  assumes "undo_slots N cs g = f0"
  shows "func_insts f0 = map (undo_inst N cs) (filter (\<lambda>i. i_id i < N) (func_insts g))"
proof -
  have "func_insts f0 = concat (map (\<lambda>is. map (undo_inst N cs) (filter (\<lambda>i. i_id i < N) is)) (map b_insts (f_blocks g)))"
    unfolding assms[symmetric] undo_slots_def func_insts_next func_insts_map_blocks ..
  then show ?thesis by (simp add: func_insts_def map_concat filter_concat comp_def)
qed

lemma undo_terminator:
  assumes made: "slots_made N f0 cs g" and t: "get_terminator f0 b = Inr t"
  shows "\<exists>blk. find_block g b = Some blk \<and> b_insts blk \<noteq> [] \<and> get_terminator g b = Inr (last (b_insts blk))
    \<and> is_terminator (i_kind (last (b_insts blk))) \<and> i_id (last (b_insts blk)) = i_id t"
proof -
  have ends: "\<And>b. b \<in> set (f_blocks g) \<Longrightarrow> b_insts b \<noteq> [] \<Longrightarrow> i_id (last (b_insts b)) < N"
    and undo: "undo_slots N cs g = f0" using made by (simp_all add: slots_made_def)
  have "find_block f0 b = map_option (on_insts (\<lambda>is. map (undo_inst N cs) (filter (\<lambda>i. i_id i < N) is))) (find_block g b)"
    unfolding undo[symmetric] undo_slots_def by (simp add: find_block_map)
  then obtain blk where blk: "find_block g b = Some blk"
    "terminator (on_insts (\<lambda>is. map (undo_inst N cs) (filter (\<lambda>i. i_id i < N) is)) blk) = Some t"
    using t by (auto simp: get_terminator_def deref_def split: option.splits)
  have ne: "b_insts blk \<noteq> []"
  proof
    assume "b_insts blk = []"
    with blk(2) show False by (simp add: terminator_def)
  qed
  have l: "filter (\<lambda>i. i_id i < N) (b_insts blk) \<noteq> []" "last (filter (\<lambda>i. i_id i < N) (b_insts blk)) = last (b_insts blk)"
    using last_filter[OF ne, of "\<lambda>i. i_id i < N"] ends[of blk] find_block_Some[OF blk(1)] ne by blast+
  then have "t = undo_inst N cs (last (b_insts blk))" "is_terminator (i_kind (last (b_insts blk)))"
    using blk(2) by (auto simp: terminator_def last_map undo_inst_def split: if_splits)
  then show ?thesis using blk(1) ne by (simp add: get_terminator_def deref_def terminator_def undo_inst_def)
qed

lemma place_exists:
  assumes made: "slots_made N f0 cs g" and lay: "entry_layout ip N As m g" and phi: "phi_ends f0"
    and user: "find_inst g x = Some user" "x < N" "\<not> is_alloca (i_kind user)" and n: "n < length (operands (i_kind user))"
  shows "\<exists>place j. load_place g user n = Inr place \<and> find_inst g place = Some j \<and> \<not> is_alloca (i_kind j) \<and> place < N
    \<and> (x \<noteq> ip \<longrightarrow> place \<noteq> ip) \<and> (\<not> is_phi (i_kind user) \<longrightarrow> place = x)"
proof (cases "i_kind user")
  case (PHI ins)
  have wf: "wf_func g" and undo: "undo_slots N cs g = f0"
    and ends: "\<And>b. b \<in> set (f_blocks g) \<Longrightarrow> b_insts b \<noteq> [] \<Longrightarrow> i_id (last (b_insts b)) < N"
    using made by (simp_all add: slots_made_def)
  have "user \<in> set (func_insts g)" "i_id user = x" using find_inst_Some[OF user(1)] by auto
  then have "undo_inst N cs user \<in> set (func_insts f0)" unfolding undo_insts[OF undo] using user(2) by auto
  moreover have "i_kind (undo_inst N cs user) = PHI (map (map_prod (slot_value N cs) id) ins)"
    using PHI by (simp add: undo_inst_def)
  ultimately have "\<forall>(v, b) \<in> set (map (map_prod (slot_value N cs) id) ins). \<exists>t. get_terminator f0 b = Inr t"
    using phi unfolding phi_ends_def by blast
  moreover have "map_prod (slot_value N cs) id (ins ! n) \<in> set (map (map_prod (slot_value N cs) id) ins)" using n PHI by simp
  ultimately obtain t where t: "get_terminator f0 (snd (ins ! n)) = Inr t" by (cases "ins ! n") fastforce
  obtain blk where blk: "find_block g (snd (ins ! n)) = Some blk" "b_insts blk \<noteq> []"
    "get_terminator g (snd (ins ! n)) = Inr (last (b_insts blk))" "is_terminator (i_kind (last (b_insts blk)))"
    using undo_terminator[OF made t] by blast
  have mem: "blk \<in> set (f_blocks g)" using find_block_Some[OF blk(1)] by simp
  have "find_inst g (i_id (last (b_insts blk))) = Some (last (b_insts blk))"
    by (rule find_inst_member[OF wf block_inst_func[OF mem]]) (use blk(2) in simp)
  moreover have "\<not> is_alloca (i_kind (last (b_insts blk)))" using blk(4) by (cases "i_kind (last (b_insts blk))") auto
  ultimately show ?thesis
    using PHI blk(3) ends[OF mem blk(2)] layout_last[OF wf lay mem blk(2)] by (simp add: load_place_def)
qed (use user find_inst_Some[OF user(1)] in \<open>auto simp: load_place_def\<close>)

lemma layout_step:
  assumes wf: "wf_func g" and lay: "entry_layout ip N As m g" and "N + 3 * m = f_next g"
    and x: "find_inst g x = Some user" "\<not> is_alloca (i_kind user)" "x \<noteq> ip"
    and place: "find_inst g place = Some j" "\<not> is_alloca (i_kind j)" "place \<noteq> ip" "place < N" "x < N"
    and new: "new_slot (f_next g) al st ld" "is_alloca (i_kind al)" and so: "\<And>i. i_id (so i) = i_id i"
  shows "entry_layout ip N As (Suc m) (map_blocks (on_insts (slot_edit ip place x so al st ld)) g\<lparr>f_next := q\<rparr>)"
proof -
  obtain eb bs A bc S R where g: "f_blocks g = eb # bs" "b_insts eb = A @ bc # S @ R" "R \<noteq> []" "i_id bc = ip"
    "\<forall>i \<in> set A. is_alloca (i_kind i)" "map i_id A = As @ map (\<lambda>k. N + 3 * k) [0..<m]"
    "map i_id S = rev (map (\<lambda>k. N + 3 * k + 1) [0..<m])"
    using lay unfolding entry_layout_def by (elim exE conjE) (rule that; assumption)
  have notA: "z \<notin> i_id ` set A" if z: "find_inst g z = Some l" "\<not> is_alloca (i_kind l)" for z l
  proof
    assume "z \<in> i_id ` set A"
    then obtain i where i: "i \<in> set A" "i_id i = z" by auto
    then have "i \<in> set (func_insts g)" by (simp add: func_insts_def g(1,2))
    then have "i = l" using find_inst_member[OF wf] i(2) z(1) by fastforce
    with z(2) i(1) g(5) show False by blast
  qed
  have "distinct (map i_id (A @ bc # S @ R))" using block_insts_distinct[OF wf, of eb] g(1,2) by simp
  then have ipA: "ip \<notin> i_id ` set A" using g(4) by auto
  have ids: "i_id al = f_next g" "i_id al \<noteq> ip"
    using new(1) wf_func_next_notin[OF wf] layout_point[OF lay] by (auto simp: new_slot_def)
  have old: "x \<notin> i_id ` set A" "place \<notin> i_id ` set A" using notA x(1,2) place(1,2) by blast+
  have xal: "i_id al \<noteq> x" "i_id al \<noteq> place" "i_id st \<noteq> x" "i_id st \<noteq> place"
    using place(4,5) ids(1) new(1) assms(3) by (auto simp: new_slot_def)
  have "y \<in> set (map i_id S) \<Longrightarrow> N \<le> y" for y unfolding g(7) by auto
  then have S: "x \<notin> i_id ` set S" "place \<notin> i_id ` set S" using place(4,5) by (metis leD list.set_map)+
  have "slot_edit ip place x so al st ld (A @ bc # S @ R) = (A @ [al]) @ bc # (st # S) @ upd_at i_id x so (ins_before i_id place ld R)"
    using old S ipA x(3) place(3) g(4) ids xal
    by (simp add: slot_edit_def ins_before_append_right ins_after_append upd_at_notin)
  moreover have "upd_at i_id x so (ins_before i_id place ld R) \<noteq> []"
    using last_ins_before[OF g(3), of i_id place ld] by (simp add: upd_at_def)
  moreover have "map i_id (A @ [al]) = As @ map (\<lambda>k. N + 3 * k) [0..<Suc m]" using g(6) ids(1) assms(3) by simp
  moreover have "map i_id (st # S) = rev (map (\<lambda>k. N + 3 * k + 1) [0..<Suc m])"
    using g(7) new(1) assms(3) by (simp add: new_slot_def)
  ultimately show ?thesis
    unfolding entry_layout_def using g(1,2,4,5) new(2)
    by (intro exI[of _ "on_insts (slot_edit ip place x so al st ld) eb"]
        exI[of _ "map (on_insts (slot_edit ip place x so al st ld)) bs"] exI[of _ "A @ [al]"] exI[of _ bc] exI[of _ "st # S"]
        exI[of _ "upd_at i_id x so (ins_before i_id place ld R)"]) auto
qed

section \<open>The loops\<close>

definition slot_list :: "nat \<Rightarrow> ir_value list \<Rightarrow> nat option list" where
  "slot_list N cs = map (\<lambda>k. Some (N + 3 * k)) [0..<length cs]"

text \<open>What holds at every turn of the loops before the insertion point is reached.\<close>

definition before_point :: "nat \<Rightarrow> nat \<Rightarrow> nat list \<Rightarrow> ir_func \<Rightarrow> ir_value list \<Rightarrow> ir_func \<Rightarrow> bool" where
  "before_point ip N As f0 cs g \<longleftrightarrow> ip < N \<and> phi_ends f0 \<and> slots_made N f0 cs g \<and> entry_layout ip N As (length cs) g"

text \<open>The loop over the operands of the instruction at \<open>x\<close> goes from \<open>g\<close> to \<open>g'\<close>; the first \<open>m\<close> are treated.\<close>

definition operands_treated :: "(nat \<Rightarrow> bool) \<Rightarrow> nat \<Rightarrow> nat \<Rightarrow> nat \<Rightarrow> ir_inst \<Rightarrow> ir_func \<Rightarrow> ir_func \<Rightarrow> bool" where
  "operands_treated atomic N x m u g g' \<longleftrightarrow>
     (\<forall>y < N. y \<noteq> x \<longrightarrow> find_inst g' y = find_inst g y) \<and>
     (\<exists>u'. find_inst g' x = Some u' \<and> length (operands (i_kind u')) = length (operands (i_kind u))
        \<and> demotable_user atomic u' = demotable_user atomic u \<and> is_alloca (i_kind u') = is_alloca (i_kind u)
        \<and> (demotable_user atomic u \<longrightarrow> (\<forall>k < m. \<not> is_immediate (operands (i_kind u') ! k))))"

lemma demotable_not_alloca: "demotable_user atomic u \<Longrightarrow> \<not> is_alloca (i_kind u)"
  by (simp add: demotable_user_def)

lemma operand_treated:
  assumes g: "before_point ip N As f0 cs g" and x: "find_inst g0 x = Some u0" "x < N" "x \<noteq> ip"
    and treated: "operands_treated atomic N x m u0 g0 g" and m: "m < length (operands (i_kind u0))"
  shows "\<exists>g' cs'. demote_operand atomic ip x m (g, slot_list N cs) = Inr (g', slot_list N cs') \<and> before_point ip N As f0 cs' g'
    \<and> operands_treated atomic N x (Suc m) u0 g0 g'"
proof -
  obtain u where u: "find_inst g x = Some u" "length (operands (i_kind u)) = length (operands (i_kind u0))"
    "demotable_user atomic u = demotable_user atomic u0" "is_alloca (i_kind u) = is_alloca (i_kind u0)"
    "demotable_user atomic u0 \<longrightarrow> (\<forall>k < m. \<not> is_immediate (operands (i_kind u) ! k))"
    and frame: "\<forall>y < N. y \<noteq> x \<longrightarrow> find_inst g y = find_inst g0 y"
    using treated unfolding operands_treated_def by blast
  let ?c = "operands (i_kind u) ! m"
  show ?thesis
  proof (cases "is_immediate ?c \<and> demotable_user atomic u")
    case False
    then have "demote_operand atomic ip x m (g, slot_list N cs) = Inr (g, slot_list N cs)"
      by (auto simp: demote_operand_def demote_immediate_def get_inst_def u(1))
    moreover have "operands_treated atomic N x (Suc m) u0 g0 g"
      unfolding operands_treated_def using frame u False by (auto simp: less_Suc_eq)
    ultimately show ?thesis using g by blast
  next
    case True
    have made: "slots_made N f0 cs g" and lay: "entry_layout ip N As (length cs) g" and phi: "phi_ends f0" and ip: "ip < N"
      using g by (simp_all add: before_point_def)
    have wf: "wf_func g" and nxt: "f_next g = N + 3 * length cs" using made by (simp_all add: slots_made_def)
    have n: "m < length (operands (i_kind u))" using m u(2) by simp
    have na: "\<not> is_alloca (i_kind u)" using True demotable_not_alloca by blast
    obtain place j where place: "load_place g u m = Inr place" "find_inst g place = Some j" "\<not> is_alloca (i_kind j)"
      "place < N" "place \<noteq> ip"
      using place_exists[OF made lay phi u(1) x(2) na n] x(3) by blast
    have pin: "place \<in> i_id ` set (func_insts g)" using find_inst_Some[OF place(2)] by auto
    define al where "al = slot_var (f_next g) ?c (i_name u @ ''.imm2mem.'' @ decimal m)"
    define g' where "g' = map_blocks (on_insts (slot_edit ip place x (operand_update m (N + 3 * length cs + 2)) al
               (slot_store (f_next g) ?c) (slot_load (f_next g) ?c))) g\<lparr>f_next := N + 3 * Suc (length cs)\<rparr>"
    have imm: "is_immediate ?c" "demotable_user atomic u" using True by simp_all
    have last: "\<forall>b \<in> set (f_blocks g). b_insts b \<noteq> [] \<longrightarrow> i_id (last (b_insts b)) \<noteq> ip"
      using layout_last[OF wf lay] by blast
    note step = slots_step[OF made ip layout_point[OF lay] last u(1) x(2) n refl imm place(1) pin al_def g'_def]
    have new: "new_slot (f_next g) al (slot_store (f_next g) ?c) (slot_load (f_next g) ?c)" "is_alloca (i_kind al)"
      by (simp_all add: new_slot_def al_def)
    have "entry_layout ip N As (Suc (length cs)) g'"
      unfolding g'_def using layout_step[OF wf lay nxt[symmetric] u(1) na x(3) place(2,3,5,4) x(2) new] by simp
    then have "before_point ip N As f0 (cs @ [?c]) g'" using step(2) phi ip by (simp add: before_point_def)
    moreover have "demote_operand atomic ip x m (g, slot_list N cs) = Inr (g', slot_list N (cs @ [?c]))"
      using step(1) by (simp add: demote_operand_def slot_list_def)
    moreover have "operands_treated atomic N x (Suc m) u0 g0 g'"
    proof -
      let ?u = "operand_update m (N + 3 * length cs + 2) u"
      have "find_inst g' x = Some ?u" using step(3)[OF x(2)] by simp
      moreover have "find_inst g' y = find_inst g0 y" if "y < N" "y \<noteq> x" for y using step(3)[OF that(1)] that frame by simp
      moreover have "demotable_user atomic ?u = demotable_user atomic u0"
        using demotable_set_operand[OF imm(1) n] u(3) by (simp add: operand_update_def)
      moreover have "\<not> is_immediate (operands (i_kind ?u) ! k)" if "demotable_user atomic u0" "k < Suc m" for k
        using that u(5) n by (auto simp: operands_set_operand nth_list_update less_Suc_eq)
      ultimately show ?thesis
        unfolding operands_treated_def using u(2,4) by (auto simp: operands_set_operand)
    qed
    ultimately show ?thesis by blast
  qed
qed

lemma operands_loop:
  assumes g: "before_point ip N As f0 cs g" and x: "find_inst g x = Some u" "x < N" "x \<noteq> ip"
    and m: "m \<le> length (operands (i_kind u))"
  shows "\<exists>g' cs'. rfold (demote_operand atomic ip x) [0..<m] (g, slot_list N cs) = Inr (g', slot_list N cs')
    \<and> before_point ip N As f0 cs' g' \<and> operands_treated atomic N x m u g g'"
  using m
proof (induction m)
  case 0
  then show ?case using g x by (auto simp: operands_treated_def)
next
  case (Suc m)
  then obtain g1 cs1 where g1: "rfold (demote_operand atomic ip x) [0..<m] (g, slot_list N cs) = Inr (g1, slot_list N cs1)"
    "before_point ip N As f0 cs1 g1" "operands_treated atomic N x m u g g1" by auto
  have "m < length (operands (i_kind u))" using Suc.prems by simp
  from operand_treated[OF g1(2) x g1(3) this] g1(1) show ?case by (auto simp: rfold_append)
qed

text \<open>An instruction of the work list is treated when none of its operands is left that should go.\<close>

definition treated_inst :: "(nat \<Rightarrow> bool) \<Rightarrow> ir_func \<Rightarrow> nat \<Rightarrow> bool" where
  "treated_inst atomic g x \<longleftrightarrow>
     (case find_inst g x of
        None \<Rightarrow> False
      | Some i \<Rightarrow> demotable_user atomic i \<longrightarrow> (\<forall>v \<in> set (operands (i_kind i)). \<not> is_immediate v))"

lemma insts_loop:
  assumes "before_point ip N As f0 cs g" and "distinct xs"
    and "\<And>x. x \<in> set xs \<Longrightarrow> x < N \<and> x \<noteq> ip \<and> find_inst g x \<noteq> None"
  shows "\<exists>g' cs'. rfold (demote_operands_of atomic ip) xs (g, slot_list N cs) = Inr (g', slot_list N cs')
    \<and> before_point ip N As f0 cs' g' \<and> (\<forall>y < N. y \<notin> set xs \<longrightarrow> find_inst g' y = find_inst g y)
    \<and> (\<forall>x \<in> set xs. treated_inst atomic g' x)"
  using assms
proof (induction xs arbitrary: cs g)
  case Nil
  then show ?case by auto
next
  case (Cons x xs)
  obtain u where u: "find_inst g x = Some u" "x < N" "x \<noteq> ip" using Cons.prems(3)[of x] by auto
  obtain g1 cs1 where g1: "rfold (demote_operand atomic ip x) [0..<length (operands (i_kind u))] (g, slot_list N cs) = Inr (g1, slot_list N cs1)"
    "before_point ip N As f0 cs1 g1" "operands_treated atomic N x (length (operands (i_kind u))) u g g1"
    using operands_loop[OF Cons.prems(1) u order.refl] by blast
  have frame: "\<forall>y < N. y \<noteq> x \<longrightarrow> find_inst g1 y = find_inst g y" using g1(3) by (simp add: operands_treated_def)
  have "\<And>y. y \<in> set xs \<Longrightarrow> y < N \<and> y \<noteq> ip \<and> find_inst g1 y \<noteq> None"
    using Cons.prems(2,3) frame by (metis distinct.simps(2) list.set_intros(2))
  from Cons.IH[OF g1(2) _ this] Cons.prems(2) obtain g' cs' where
    g': "rfold (demote_operands_of atomic ip) xs (g1, slot_list N cs1) = Inr (g', slot_list N cs')"
    "before_point ip N As f0 cs' g'" "\<forall>y < N. y \<notin> set xs \<longrightarrow> find_inst g' y = find_inst g1 y"
    "\<forall>x \<in> set xs. treated_inst atomic g' x" by auto
  have "x \<notin> set xs" using Cons.prems(2) by simp
  then have "find_inst g' x = find_inst g1 x" using g'(3) u(2) by blast
  then have "treated_inst atomic g' x"
    using g1(3) by (auto simp: treated_inst_def operands_treated_def in_set_conv_nth)
  moreover have "demote_operands_of atomic ip x (g, slot_list N cs) = Inr (g1, slot_list N cs1)"
    using g1(1) by (simp add: demote_operands_of_def get_inst_def u(1))
  ultimately show ?case using g' frame by (intro exI[of _ g'] exI[of _ cs']) auto
qed

end
