(* ===== verification/Demote_Operands.thy ===== *)
theory Demote_Operands
  imports Demote_Slots
begin

text \<open>
  Moving the constant operands of a whole function: from the insertion point to the last turn of the loop,
  which treats the insertion point itself.
\<close>

section \<open>The start\<close>

text \<open>
  A function as the code expects it: the entry block ends in a terminator, the blocks a \<open>phi\<close> names have
  one, operands are instructions that exist, and the next address is not that of an atomic instruction.
\<close>

definition demotable_func :: "(nat \<Rightarrow> bool) \<Rightarrow> ir_func \<Rightarrow> bool" where
  "demotable_func atomic f \<longleftrightarrow> wf_func f \<and> phi_ends f \<and> \<not> atomic (f_next f)
     \<and> (\<forall>i \<in> set (func_insts f). \<forall>y. InstVal y \<in> set (operands (i_kind i)) \<longrightarrow> y < f_next f)
     \<and> (\<exists>eb bs t. f_blocks f = eb # bs \<and> terminator eb = Some t)"

definition entry_vars :: "ir_func \<Rightarrow> nat list" where
  "entry_vars f = (case f_blocks f of [] \<Rightarrow> [] | eb # bs \<Rightarrow> map i_id (takeWhile (\<lambda>i. is_alloca (i_kind i)) (b_insts eb)))"

definition point_inst :: "ir_func \<Rightarrow> ir_inst" where
  "point_inst f = mk_inst (f_next f) (BitCast (ConstInt (CInt 32 0))) (IntTy 32) ''reg2mem alloca point''"

lemma point_inst_simps [simp]: "i_id (point_inst f) = f_next f" "i_kind (point_inst f) = BitCast (ConstInt (CInt 32 0))"
  by (simp_all add: point_inst_def)

text \<open>The function with the insertion point, and its entry block.\<close>

lemma insertion_point_facts:
  assumes "demotable_func atomic f"
  shows "\<exists>f0 eb bs A it R. create_insertion_point f = Inr f0 \<and> f_blocks f = eb # bs \<and> b_insts eb = A @ it # R
    \<and> map i_id A = entry_vars f \<and> (\<forall>i \<in> set A. is_alloca (i_kind i)) \<and> \<not> is_alloca (i_kind it)
    \<and> f0 = insert_before (i_id it) (point_inst f) f\<lparr>f_next := Suc (f_next f)\<rparr>
    \<and> f_blocks f0 = eb\<lparr>b_insts := A @ point_inst f # it # R\<rparr> # bs
    \<and> wf_func f0 \<and> phi_ends f0"
proof -
  have wf: "wf_func f" and phi: "phi_ends f" using assms by (simp_all add: demotable_func_def)
  obtain eb bs t where f: "f_blocks f = eb # bs" "terminator eb = Some t" using assms unfolding demotable_func_def by blast
  have t: "t \<in> set (b_insts eb)" "\<not> is_alloca (i_kind t)"
    using terminator_in[OF f(2)] by (auto, cases "i_kind t") auto
  define A where "A = takeWhile (\<lambda>i. is_alloca (i_kind i)) (b_insts eb)"
  obtain it R where it: "dropWhile (\<lambda>i. is_alloca (i_kind i)) (b_insts eb) = it # R"
    using t by (cases "dropWhile (\<lambda>i. is_alloca (i_kind i)) (b_insts eb)") auto
  then have eb: "b_insts eb = A @ it # R" by (metis A_def takeWhile_dropWhile_id)
  have na: "\<not> is_alloca (i_kind it)" using hd_dropWhile[of "\<lambda>i. is_alloca (i_kind i)" "b_insts eb"] it by simp
  have alls: "\<forall>i \<in> set A. is_alloca (i_kind i)" unfolding A_def by (meson set_takeWhileD)
  let ?f0 = "insert_before (i_id it) (point_inst f) f\<lparr>f_next := Suc (f_next f)\<rparr>"
  have create: "create_insertion_point f = Inr ?f0"
    by (simp add: create_insertion_point_def first_not_alloca_def f(1) it deref_def new_named_before_def point_inst_def)
  have "distinct (map i_id (A @ it # R) @ map i_id (concat (map b_insts bs)))"
    using wf_func_distinct[OF wf] by (simp add: func_insts_def f(1) eb)
  then have notA: "i_id it \<notin> i_id ` set A" and notbs: "i_id it \<notin> set (map i_id (concat (map b_insts bs)))" by auto
  have "on_insts (ins_before i_id (i_id it) (point_inst f)) b = b" if "b \<in> set bs" for b
  proof -
    have "i_id it \<notin> i_id ` set (b_insts b)" using notbs that by auto
    then show ?thesis by (simp add: on_insts_def ins_before_notin)
  qed
  then have blocks: "f_blocks ?f0 = eb\<lparr>b_insts := A @ point_inst f # it # R\<rparr> # bs"
    using notA by (simp add: insert_before_def f(1) on_insts_def[of _ eb] eb ins_before_append map_idI)
  have wf0: "wf_func ?f0" by (rule wf_func_insert_fresh[OF wf]) simp
  have gt: "get_terminator ?f0 b = get_terminator f b" for b
    by (cases "find_block f b") (simp_all add: get_terminator_def insert_before_def find_block_map terminator_ins_before)
  have "func_insts ?f0 = ins_before i_id (i_id it) (point_inst f) (func_insts f)"
    by (simp add: func_insts_insert_before wf_func_distinct[OF wf])
  then have "set (func_insts ?f0) \<subseteq> insert (point_inst f) (set (func_insts f))" by (auto simp: set_ins_before)
  then have "phi_ends ?f0" using phi unfolding phi_ends_def gt by (metis (no_types, lifting) ikind.distinct insertE point_inst_simps(2) subsetD)
  then show ?thesis using create f(1) eb alls na blocks wf0 by (auto simp: entry_vars_def A_def)
qed

lemma map_ikind_same: "(\<And>v. v \<in> set (operands k) \<Longrightarrow> h v = v) \<Longrightarrow> map_ikind h k = k"
  using map_ikind_cong[of k h "\<lambda>v. v"] by (simp add: ikind.map_ident)

lemma start_made:
  assumes wf: "wf_func f0" and "f_next f0 = N"
    and ops: "\<forall>i \<in> set (func_insts f0). \<forall>y. InstVal y \<in> set (operands (i_kind i)) \<longrightarrow> y < N"
  shows "slots_made N f0 [] f0"
proof -
  have ids: "i_id i < N" if "i \<in> set (func_insts f0)" for i using wf that assms(2) by (auto simp: wf_func_def fresh_ids_def)
  have val: "slot_value N [] v = v" for v by (auto simp: slot_value_def split: ir_value.splits)
  have "undo_inst N [] i = i" for i by (simp add: undo_inst_def map_ikind_same val)
  then have "map_blocks (on_insts (\<lambda>is. map (undo_inst N []) (filter (\<lambda>i. i_id i < N) is))) f0 = map_blocks (on_insts (\<lambda>is. is)) f0"
    using ids by (intro map_blocks_cong on_insts_cong) (auto simp: block_inst_func map_idI intro!: filter_True)
  then have "undo_slots N [] f0 = f0" using assms(2) by (simp add: undo_slots_def map_blocks_id)
  moreover have "i_id (last (b_insts b)) < N" if "b \<in> set (f_blocks f0)" "b_insts b \<noteq> []" for b
    using ids block_inst_func[OF that(1)] that(2) by simp
  moreover have "slot_operand N [] v" if "i \<in> set (func_insts f0)" "v \<in> set (operands (i_kind i))" for i v
    using ops that by (auto simp: slot_operand_def split: ir_value.splits)
  ultimately show ?thesis using wf assms(2) by (auto simp: slots_made_def imm_slots_def)
qed

section \<open>The users of the variables\<close>

text \<open>The operands of the new instructions that are values of instructions.\<close>

lemma slot_inst_uses:
  assumes "slots_made N f0 cs g" and "i \<in> set (func_insts g)" and "\<not> i_id i < N" and "InstVal y \<in> set (operands (i_kind i))"
  shows "\<exists>j < length cs. y = N + 3 * j \<and> (i_id i = N + 3 * j + 1 \<or> i_id i = N + 3 * j + 2)"
proof -
  have wf: "wf_func g" and nxt: "f_next g = N + 3 * length cs" and imm: "\<forall>c \<in> set cs. is_immediate c" and slots: "imm_slots N cs g"
    using assms(1) by (auto simp: slots_made_def)
  define d where "d = i_id i - N"
  have "i_id i < N + 3 * length cs" using wf assms(2) by (auto simp: wf_func_def fresh_ids_def nxt)
  then have d: "i_id i = N + d" "d < 3 * length cs" using assms(3) by (simp_all add: d_def)
  then have j: "i_id i = N + 3 * (d div 3) + d mod 3" "d div 3 < length cs" by (simp_all add: div_less_iff_less_mult mult.commute)
  define j where "j = d div 3"
  have id: "i_id i = N + 3 * j + d mod 3" "j < length cs" using j by (simp_all add: j_def)
  have found: "find_inst g (N + 3 * j + d mod 3) = Some i" using find_inst_member[OF wf assms(2)] id(1) by simp
  have kinds: "map_option i_kind (find_inst g (N + 3 * j)) = Some (Alloca (const_type (cs ! j)))"
    "map_option i_kind (find_inst g (N + 3 * j + 1)) = Some (Store (cs ! j) (InstVal (N + 3 * j)))"
    "map_option i_kind (find_inst g (N + 3 * j + 2)) = Some (Load (InstVal (N + 3 * j)))"
    using slots id(2) unfolding imm_slots_def by blast+
  have c: "cs ! j \<noteq> InstVal y" using imm nth_mem[OF id(2)] by fastforce
  consider "d mod 3 = 0" | "d mod 3 = 1" | "d mod 3 = 2" by linarith
  then show ?thesis
  proof cases
    case 1
    then have "i_kind i = Alloca (const_type (cs ! j))" using found kinds(1) by simp
    then show ?thesis using assms(4) by simp
  next
    case 2
    then have "i_kind i = Store (cs ! j) (InstVal (N + 3 * j))" using found kinds(2) by simp
    then have "y = N + 3 * j" using assms(4) c by auto
    then show ?thesis using 2 id by auto
  next
    case 3
    then have "i_kind i = Load (InstVal (N + 3 * j))" using found kinds(3) by simp
    then have "y = N + 3 * j" using assms(4) by simp
    then show ?thesis using 3 id by auto
  qed
qed

lemma slot_users:
  assumes "slots_made N f0 cs g" and k: "k < length cs"
  shows "i_id ` set (users g (InstVal (N + 3 * k))) = {N + 3 * k + 1, N + 3 * k + 2}"
proof
  have slots: "imm_slots N cs g"
    and ops: "\<And>i v. i \<in> set (func_insts g) \<Longrightarrow> i_id i < N \<Longrightarrow> v \<in> set (operands (i_kind i)) \<Longrightarrow> slot_operand N cs v"
    using assms(1) by (auto simp: slots_made_def)
  have "y \<in> i_id ` set (users g (InstVal (N + 3 * k)))"
    if y: "map_option i_kind (find_inst g y) = Some kind" "InstVal (N + 3 * k) \<in> set (operands kind)" for y kind
  proof -
    obtain i where i: "find_inst g y = Some i" "i_kind i = kind" using y(1) by auto
    with y(2) find_inst_Some[OF i(1)] show ?thesis by (auto simp: set_users uses_def)
  qed
  then show "{N + 3 * k + 1, N + 3 * k + 2} \<subseteq> i_id ` set (users g (InstVal (N + 3 * k)))"
    using slots k by (auto simp: imm_slots_def)
  show "i_id ` set (users g (InstVal (N + 3 * k))) \<subseteq> {N + 3 * k + 1, N + 3 * k + 2}"
  proof
    fix y assume "y \<in> i_id ` set (users g (InstVal (N + 3 * k)))"
    then obtain i where i: "i \<in> set (func_insts g)" "InstVal (N + 3 * k) \<in> set (operands (i_kind i))" "i_id i = y"
      by (auto simp: set_users uses_def)
    have "\<not> i_id i < N"
    proof
      assume "i_id i < N"
      from ops[OF i(1) this i(2)] show False by (simp add: slot_operand_def)
    qed
    from slot_inst_uses[OF assms(1) i(1) this i(2)] i(3) show "y \<in> {N + 3 * k + 1, N + 3 * k + 2}" by auto
  qed
qed

section \<open>The last turn: the insertion point\<close>

text \<open>The entry block at the end: the load of the last variable stands before the insertion point, its store behind it.\<close>

definition final_layout :: "nat \<Rightarrow> nat \<Rightarrow> nat list \<Rightarrow> nat \<Rightarrow> ir_func \<Rightarrow> bool" where
  "final_layout ip N As m g \<longleftrightarrow>
     (\<exists>eb bs A ld bc S R. f_blocks g = eb # bs \<and> b_insts eb = A @ ld # bc # S @ R \<and> R \<noteq> []
        \<and> (\<forall>i \<in> set A. is_alloca (i_kind i)) \<and> map i_id A = As @ map (\<lambda>k. N + 3 * k) [0..<m]
        \<and> i_id ld = N + 3 * (m - 1) + 2 \<and> i_kind ld = Load (InstVal (N + 3 * (m - 1)))
        \<and> i_id bc = ip \<and> map i_id S = rev (map (\<lambda>k. N + 3 * k + 1) [0..<m]))"

lemma point_step:
  assumes bp: "before_point ip N As f0 cs g" and bc: "find_inst g ip = Some bc" "i_kind bc = BitCast (ConstInt c)"
    and atomic: "\<not> atomic ip"
  shows "\<exists>g'. demote_operands_of atomic ip ip (g, slot_list N cs) = Inr (g', slot_list N (cs @ [ConstInt c]))
    \<and> slots_made N f0 (cs @ [ConstInt c]) g' \<and> final_layout ip N As (Suc (length cs)) g'
    \<and> treated_inst atomic g' ip \<and> (\<forall>y < N. y \<noteq> ip \<longrightarrow> find_inst g' y = find_inst g y)
    \<and> (\<forall>i \<in> set (func_insts g'). uses (InstVal (N + 3 * length cs + 2)) i \<longrightarrow> i_id i = ip)"
proof -
  have made: "slots_made N f0 cs g" and lay: "entry_layout ip N As (length cs) g" and ip: "ip < N"
    using bp by (simp_all add: before_point_def)
  have wf: "wf_func g" and nxt: "f_next g = N + 3 * length cs" using made by (simp_all add: slots_made_def)
  have id: "i_id bc = ip" using find_inst_Some[OF bc(1)] by simp
  have n: "0 < length (operands (i_kind bc))" and imm: "operands (i_kind bc) ! 0 = ConstInt c" "is_immediate (ConstInt c)"
    "demotable_user atomic bc"
    using bc(2) atomic id by (simp_all add: demotable_user_def is_intrinsic_call_def)
  have last: "\<forall>b \<in> set (f_blocks g). b_insts b \<noteq> [] \<longrightarrow> i_id (last (b_insts b)) \<noteq> ip"
    using layout_last[OF wf lay] by blast
  have place: "load_place g bc 0 = Inr ip" by (simp add: load_place_def bc(2) id)
  define al where "al = slot_var (f_next g) (ConstInt c) (i_name bc @ ''.imm2mem.'' @ decimal 0)"
  let ?so = "operand_update 0 (N + 3 * length cs + 2)"
  let ?st = "slot_store (f_next g) (ConstInt c)"
  let ?ld = "slot_load (f_next g) (ConstInt c)"
  let ?T = "slot_edit ip ip ip ?so al ?st ?ld"
  define g' where "g' = map_blocks (on_insts ?T) g\<lparr>f_next := N + 3 * Suc (length cs)\<rparr>"
  note step = slots_step[OF made ip layout_point[OF lay] last bc(1) ip n imm place layout_point[OF lay] al_def g'_def]
  have "demote_operands_of atomic ip ip (g, slot_list N cs) = Inr (g', slot_list N (cs @ [ConstInt c]))"
    using step(1) by (simp add: demote_operands_of_def get_inst_def bc demote_operand_def slot_list_def)
  moreover have "treated_inst atomic g' ip"
    using step(3)[OF ip] bc(2) by (simp add: treated_inst_def)
  moreover have "final_layout ip N As (Suc (length cs)) g'"
  proof -
    obtain eb bs A bc' S R where g: "f_blocks g = eb # bs" "b_insts eb = A @ bc' # S @ R" "R \<noteq> []" "i_id bc' = ip"
      "\<forall>i \<in> set A. is_alloca (i_kind i)" "map i_id A = As @ map (\<lambda>k. N + 3 * k) [0..<length cs]"
      "map i_id S = rev (map (\<lambda>k. N + 3 * k + 1) [0..<length cs])"
      using lay unfolding entry_layout_def by (elim exE conjE) (rule that; assumption)
    have "distinct (map i_id (A @ bc' # S @ R))" using block_insts_distinct[OF wf, of eb] g(1,2) by simp
    then have ipA: "ip \<notin> i_id ` set A" "ip \<notin> i_id ` set S" "ip \<notin> i_id ` set R" using g(4) by auto
    have ids: "i_id al \<noteq> ip" "i_id al = N + 3 * length cs" using ip nxt by (auto simp: al_def)
    have "?T (A @ bc' # S @ R) = (A @ [al]) @ ?ld # ?so bc' # (?st # S) @ R"
      using ipA g(4) ids ip nxt
      by (simp add: slot_edit_def ins_before_append_right ins_after_append upd_at_notin)
    moreover have "map i_id (A @ [al]) = As @ map (\<lambda>k. N + 3 * k) [0..<Suc (length cs)]" using g(6) ids(2) by simp
    moreover have "map i_id (?st # S) = rev (map (\<lambda>k. N + 3 * k + 1) [0..<Suc (length cs)])" using g(7) nxt by simp
    moreover have "is_alloca (i_kind al)" by (simp add: al_def)
    ultimately show ?thesis
      unfolding final_layout_def using g(1-5) nxt
      by (intro exI[of _ "on_insts ?T eb"] exI[of _ "map (on_insts ?T) bs"] exI[of _ "A @ [al]"] exI[of _ ?ld]
          exI[of _ "?so bc'"] exI[of _ "?st # S"] exI[of _ R]) (auto simp: g'_def)
  qed
  moreover have "i_id i = ip" if i: "i \<in> set (func_insts g')" "uses (InstVal (N + 3 * length cs + 2)) i" for i
  proof (rule ccontr)
    assume off: "i_id i \<noteq> ip"
    have wf': "wf_func g'" using step(2) by (simp add: slots_made_def)
    have op: "InstVal (N + 3 * length cs + 2) \<in> set (operands (i_kind i))" using i(2) by (simp add: uses_def)
    show False
    proof (cases "i_id i < N")
      case True
      have "find_inst g (i_id i) = Some i" using step(3)[OF True] find_inst_member[OF wf' i(1)] off by simp
      then have "i \<in> set (func_insts g)" using find_inst_Some by blast
      then have "slot_operand N cs (InstVal (N + 3 * length cs + 2))" using made True op by (simp add: slots_made_def)
      then show False by (simp add: slot_operand_def)
    next
      case False
      with slot_inst_uses[OF step(2) i(1) _ op] obtain j where "N + 3 * length cs + 2 = N + 3 * j" by blast
      then show False by presburger
    qed
  qed
  ultimately show ?thesis using step(2,3) by auto
qed

section \<open>The whole loop\<close>

lemma demote_all_facts:
  assumes f: "demotable_func atomic f"
  shows "\<exists>f0 g cs. create_insertion_point f = Inr f0
    \<and> demote_all_operands atomic (f_next f) f0 = Inr (g, slot_list (Suc (f_next f)) cs)
    \<and> slots_made (Suc (f_next f)) f0 cs g \<and> cs \<noteq> [] \<and> last cs = ConstInt (CInt 32 0) \<and> final_layout (f_next f) (Suc (f_next f)) (entry_vars f) (length cs) g
    \<and> (\<forall>i \<in> set (func_insts g). uses (InstVal (Suc (f_next f) + 3 * (length cs - 1) + 2)) i \<longrightarrow> i_id i = f_next f)
    \<and> (\<forall>i \<in> set (func_insts f0). \<not> is_alloca (i_kind i) \<and> \<not> is_eh_pad (i_kind i) \<longrightarrow> treated_inst atomic g (i_id i))"
proof -
  let ?ip = "f_next f" and ?N = "Suc (f_next f)"
  obtain f0 eb bs A it R where f0: "create_insertion_point f = Inr f0" "f_blocks f = eb # bs" "b_insts eb = A @ it # R"
    "map i_id A = entry_vars f" "\<forall>i \<in> set A. is_alloca (i_kind i)"
    "f0 = insert_before (i_id it) (point_inst f) f\<lparr>f_next := Suc (f_next f)\<rparr>"
    "f_blocks f0 = eb\<lparr>b_insts := A @ point_inst f # it # R\<rparr> # bs" "wf_func f0" "phi_ends f0"
    using insertion_point_facts[OF f] by blast
  have nxt: "f_next f0 = ?N" by (simp add: f0(6))
  have insts: "func_insts f0 = A @ point_inst f # it # R @ concat (map b_insts bs)" by (simp add: func_insts_def f0(7))
  have insts_f: "func_insts f = A @ it # R @ concat (map b_insts bs)" by (simp add: func_insts_def f0(2,3))
  have "\<forall>i \<in> set (func_insts f0). \<forall>y. InstVal y \<in> set (operands (i_kind i)) \<longrightarrow> y < ?N"
    using f unfolding demotable_func_def insts insts_f by (auto simp: less_Suc_eq)
  then have made: "slots_made ?N f0 [] f0" by (rule start_made[OF f0(8) nxt])
  moreover have "entry_layout ?ip ?N (entry_vars f) 0 f0"
    unfolding entry_layout_def using f0(4,5,7)
    by (intro exI[of _ "eb\<lparr>b_insts := A @ point_inst f # it # R\<rparr>"] exI[of _ bs] exI[of _ A] exI[of _ "point_inst f"]
        exI[of _ "[]"] exI[of _ "it # R"]) simp
  ultimately have bp: "before_point ?ip ?N (entry_vars f) f0 [] f0" using f0(9) by (simp add: before_point_def)
  let ?q = "\<lambda>i :: ir_inst. \<not> is_alloca (i_kind i) \<and> \<not> is_eh_pad (i_kind i)"
  define rest where "rest = it # R @ concat (map b_insts bs)"
  define xs where "xs = rev (map i_id (filter ?q rest))"
  have "work_list (\<lambda>block. ?q) f0 = rev (map i_id (filter ?q (func_insts f0)))"
    by (simp add: work_list_def func_insts_def filter_concat map_concat comp_def)
  also have "\<dots> = xs @ [?ip]" using f0(5) by (simp add: insts xs_def rest_def filter_empty_conv)
  finally have wl: "work_list (\<lambda>block. ?q) f0 = xs @ [?ip]" .
  have d: "distinct (map i_id A @ ?ip # map i_id rest)" using wf_func_distinct[OF f0(8)] by (simp add: insts rest_def)
  have sub: "set xs \<subseteq> set (map i_id rest)" by (auto simp: xs_def)
  have dist: "distinct xs" using d by (simp add: xs_def distinct_map_filter)
  have ip_rest: "?ip \<notin> set (map i_id rest)" using d by (simp del: set_map)
  have xs: "x < ?N \<and> x \<noteq> ?ip \<and> find_inst f0 x \<noteq> None" if listed: "x \<in> set xs" for x
  proof -
    have x: "x \<in> set (map i_id rest)" using listed sub by blast
    then obtain i where i: "i \<in> set rest" "i_id i = x" by (metis imageE list.set_map)
    then have "i \<in> set (func_insts f0)" by (auto simp: insts rest_def)
    then have found: "find_inst f0 x = Some i" using find_inst_member[OF f0(8)] i(2) by blast
    moreover have "x \<noteq> ?ip" using x ip_rest by blast
    ultimately show ?thesis using find_inst_less[OF f0(8) found] nxt by simp
  qed
  have "slot_list ?N [] = []" by (simp add: slot_list_def)
  with insts_loop[where atomic = atomic, OF bp dist xs] obtain g1 cs1 where
    g1: "rfold (demote_operands_of atomic ?ip) xs (f0, []) = Inr (g1, slot_list ?N cs1)"
    "before_point ?ip ?N (entry_vars f) f0 cs1 g1" "\<forall>y < ?N. y \<notin> set xs \<longrightarrow> find_inst g1 y = find_inst f0 y"
    "\<forall>x \<in> set xs. treated_inst atomic g1 x" by metis
  have ipxs: "?ip \<notin> set xs" using sub ip_rest by blast
  have "find_inst f0 ?ip = Some (point_inst f)" using find_inst_member[OF f0(8), of "point_inst f"] by (simp add: insts)
  then have bc: "find_inst g1 ?ip = Some (point_inst f)" using g1(3) ipxs by simp
  have kind: "i_kind (point_inst f) = BitCast (ConstInt (CInt 32 0))" and na: "\<not> atomic ?ip" using f by (simp_all add: demotable_func_def)
  from point_step[where atomic = atomic, OF g1(2) bc kind na] obtain g where
    g: "demote_operands_of atomic ?ip ?ip (g1, slot_list ?N cs1) = Inr (g, slot_list ?N (cs1 @ [ConstInt (CInt 32 0)]))"
    "slots_made ?N f0 (cs1 @ [ConstInt (CInt 32 0)]) g" "final_layout ?ip ?N (entry_vars f) (Suc (length cs1)) g"
    "treated_inst atomic g ?ip" "\<forall>y < ?N. y \<noteq> ?ip \<longrightarrow> find_inst g y = find_inst g1 y"
    "\<forall>i \<in> set (func_insts g). uses (InstVal (?N + 3 * length cs1 + 2)) i \<longrightarrow> i_id i = ?ip" by blast
  have "demote_all_operands atomic ?ip f0 = Inr (g, slot_list ?N (cs1 @ [ConstInt (CInt 32 0)]))"
    using g1(1) g(1) by (simp add: demote_all_operands_def wl rfold_append)
  moreover have "treated_inst atomic g (i_id i)" if i: "i \<in> set (func_insts f0)" "?q i" for i
  proof (cases "i_id i = ?ip")
    case True
    with g(4) show ?thesis by simp
  next
    case False
    then have "i \<in> set rest" using i f0(5) by (auto simp: insts rest_def)
    then have x: "i_id i \<in> set xs" using i(2) by (simp add: xs_def)
    then show ?thesis using g1(4) g(5) False xs[OF x] by (simp add: treated_inst_def)
  qed
  ultimately show ?thesis using f0(1) g(2,3,6)
    by (intro exI[of _ f0] exI[of _ g] exI[of _ "cs1 @ [ConstInt (CInt 32 0)]"]) simp
qed

section \<open>What the loop does\<close>

text \<open>
  C16: Moving the constant operands of a function succeeds and can be undone: of every variable it adds the
  only users are one store, of a constant, and one load, and where each such load is replaced by the
  constant and the new instructions are dropped, the function is as it was. No instruction that the code
  treats keeps a constant operand.
\<close>

theorem demote_operands_undone:
  assumes "demotable_func atomic f"
  shows "\<exists>f0 g cs. create_insertion_point f = Inr f0 \<and>
    demote_all_operands atomic (f_next f) f0 = Inr (g, slot_list (Suc (f_next f)) cs) \<and> wf_func g \<and>
    undo_slots (Suc (f_next f)) cs g = f0 \<and> imm_slots (Suc (f_next f)) cs g \<and>
    (\<forall>k < length cs. i_id ` set (users g (InstVal (Suc (f_next f) + 3 * k))) =
       {Suc (f_next f) + 3 * k + 1, Suc (f_next f) + 3 * k + 2}) \<and>
    (\<forall>i \<in> set (func_insts g). i_id i < Suc (f_next f) \<longrightarrow> demotable_user atomic i \<longrightarrow>
       (\<forall>v \<in> set (operands (i_kind i)). \<not> is_immediate v))"
proof -
  let ?N = "Suc (f_next f)"
  from demote_all_facts[OF assms] obtain f0 g cs where g: "create_insertion_point f = Inr f0"
    "demote_all_operands atomic (f_next f) f0 = Inr (g, slot_list ?N cs)" "slots_made ?N f0 cs g"
    "\<forall>i \<in> set (func_insts f0). \<not> is_alloca (i_kind i) \<and> \<not> is_eh_pad (i_kind i) \<longrightarrow> treated_inst atomic g (i_id i)"
    by blast
  have wf: "wf_func g" and undo: "undo_slots ?N cs g = f0" and slots: "imm_slots ?N cs g" using g(3) by (simp_all add: slots_made_def)
  have "\<not> is_immediate v" if i: "i \<in> set (func_insts g)" "i_id i < ?N" "demotable_user atomic i" "v \<in> set (operands (i_kind i))" for i v
  proof -
    have old: "undo_inst ?N cs i \<in> set (func_insts f0)" using i(1,2) by (simp add: undo_insts[OF undo])
    have "\<not> is_alloca (i_kind (undo_inst ?N cs i)) \<and> \<not> is_eh_pad (i_kind (undo_inst ?N cs i))"
      using i(3) by (cases "i_kind i") (simp_all add: undo_inst_def demotable_user_def)
    then have "treated_inst atomic g (i_id i)" using g(4) old by (auto simp: undo_inst_def)
    then show ?thesis using i(3,4) find_inst_member[OF wf i(1)] by (simp add: treated_inst_def)
  qed
  moreover have "\<forall>k < length cs. i_id ` set (users g (InstVal (?N + 3 * k))) = {?N + 3 * k + 1, ?N + 3 * k + 2}"
    using slot_users[OF g(3)] by blast
  ultimately show ?thesis using g(1,2) wf undo slots by blast
qed

text \<open>
  C20: The insertion point is an instruction with a constant operand itself: in the end the variables at the
  front of the entry block, the old ones and the new ones, are followed by a load of the last variable,
  ahead of the insertion point, while the only store to it stands behind the insertion point.
\<close>

theorem insertion_point_demoted:
  assumes "demotable_func atomic f"
  shows "\<exists>f0 g n eb bs A ld bc st R. create_insertion_point f = Inr f0 \<and>
    demote_all_operands atomic (f_next f) f0 = Inr (g, map Some n) \<and> n \<noteq> [] \<and>
    f_blocks g = eb # bs \<and> b_insts eb = A @ ld # bc # st # R \<and>
    (\<forall>i \<in> set A. is_alloca (i_kind i)) \<and> map i_id A = entry_vars f @ n \<and>
    i_kind ld = Load (InstVal (last n)) \<and> i_id bc = f_next f \<and> i_kind st = Store (ConstInt (CInt 32 0)) (InstVal (last n)) \<and>
    i_id ` set (users g (InstVal (last n))) = {i_id ld, i_id st}"
proof -
  let ?N = "Suc (f_next f)"
  from demote_all_facts[OF assms] obtain f0 g cs where g: "create_insertion_point f = Inr f0"
    "demote_all_operands atomic (f_next f) f0 = Inr (g, slot_list ?N cs)" "slots_made ?N f0 cs g"
    "cs \<noteq> []" "last cs = ConstInt (CInt 32 0)" "final_layout (f_next f) ?N (entry_vars f) (length cs) g"
    by blast
  define m where "m = length cs - 1"
  have m: "length cs = Suc m" "m < length cs" using g(4) by (cases cs; simp add: m_def)+
  define n where "n = map (\<lambda>k. ?N + 3 * k) [0..<length cs]"
  have n: "slot_list ?N cs = map Some n" "n \<noteq> []" "last n = ?N + 3 * m" using m(1) by (simp_all add: n_def slot_list_def)
  have wf: "wf_func g" and slots: "imm_slots ?N cs g" using g(3) by (simp_all add: slots_made_def)
  obtain eb bs A ld bc S R where lay: "f_blocks g = eb # bs" "b_insts eb = A @ ld # bc # S @ R"
    "\<forall>i \<in> set A. is_alloca (i_kind i)" "map i_id A = entry_vars f @ map (\<lambda>k. ?N + 3 * k) [0..<length cs]"
    "i_id ld = ?N + 3 * (length cs - 1) + 2" "i_kind ld = Load (InstVal (?N + 3 * (length cs - 1)))" "i_id bc = f_next f"
    "map i_id S = rev (map (\<lambda>k. ?N + 3 * k + 1) [0..<length cs])"
    using g(6) unfolding final_layout_def by (elim exE conjE) (rule that; assumption)
  obtain st S' where st: "S = st # S'" "i_id st = ?N + 3 * m + 1" using lay(8) m(1) by (cases S) auto
  have "st \<in> set (func_insts g)" by (simp add: func_insts_def lay(1,2) st(1))
  then have "find_inst g (?N + 3 * m + 1) = Some st" using find_inst_member[OF wf] st(2) by metis
  moreover have "cs ! m = ConstInt (CInt 32 0)" using g(4,5) m(1) by (simp add: last_conv_nth)
  ultimately have "i_kind st = Store (ConstInt (CInt 32 0)) (InstVal (?N + 3 * m))"
    using slots m(2) by (auto simp: imm_slots_def)
  moreover have "i_id ` set (users g (InstVal (?N + 3 * m))) = {i_id ld, i_id st}"
    using slot_users[OF g(3) m(2)] lay(5) st(2) m(1) by auto
  moreover have "b_insts eb = A @ ld # bc # st # S' @ R" using lay(2) st(1) by simp
  ultimately show ?thesis
    using g(1,2) lay(1,3,4,6,7) n m(1) by (intro exI[of _ f0] exI[of _ g] exI[of _ n] exI[of _ eb] exI[of _ bs] exI[of _ A] exI[of _ ld]
        exI[of _ bc] exI[of _ st] exI[of _ "S' @ R"]) (simp add: n_def)
qed

section \<open>Instances\<close>

text \<open>A function with constants in a store and in a \<open>phi\<close>.\<close>

definition imm_func :: ir_func where
  "imm_func = mk_func 7 ''f'' (FuncTy VoidTy [] False) True
     [mk_block 0 [demo_inst 1 (Alloca (IntTy 32)), demo_inst 2 (Store (ConstInt (CInt 32 5)) (InstVal 1)), demo_inst 3 (Br 10)],
      mk_block 10 [demo_inst 11 (PHI [(ConstInt (CInt 32 7), 0)]), demo_inst 12 (Ret (Some (InstVal 11)))]] 20"

lemmas imm_eval = imm_func_def mk_func_def mk_block_def demo_inst_def mk_inst_def func_insts_def

lemma imm_func_ok: "demotable_func (\<lambda>x. False) imm_func"
  by (auto simp: demotable_func_def phi_ends_def wf_func_def fresh_ids_def imm_eval get_terminator_def find_block_def
      terminator_def deref_def)

theorem demote_operands_undone_witness:
  "\<exists>f0 g cs. create_insertion_point imm_func = Inr f0 \<and> demote_all_operands (\<lambda>x. False) 20 f0 = Inr (g, slot_list 21 cs) \<and>
    undo_slots 21 cs g = f0 \<and> imm_slots 21 cs g"
  using demote_operands_undone[OF imm_func_ok] by (auto simp: imm_func_def mk_func_def)

theorem insertion_point_demoted_witness:
  "\<exists>f0 g n eb bs A ld bc st R. create_insertion_point imm_func = Inr f0 \<and>
    demote_all_operands (\<lambda>x. False) 20 f0 = Inr (g, map Some n) \<and>
    f_blocks g = eb # bs \<and> b_insts eb = A @ ld # bc # st # R \<and> map i_id A = 1 # n \<and>
    i_kind ld = Load (InstVal (last n)) \<and> i_kind st = Store (ConstInt (CInt 32 0)) (InstVal (last n))"
proof -
  have "f_next imm_func = 20" "entry_vars imm_func = [1]" by (simp_all add: imm_eval entry_vars_def)
  with insertion_point_demoted[OF imm_func_ok] show ?thesis by (metis append_Cons append_Nil)
qed

end
