(* ===== verification/Demote_Values.thy ===== *)
theory Demote_Values
  imports Demote_Operands
begin

text \<open>
  Demoting registers and \<open>phi\<close> nodes with LLVM's utilities: what the code relies on of them, what follows
  for a whole function, and concrete utilities that satisfy it.
\<close>

section \<open>What the utilities do\<close>

definition phi_ids :: "ir_func \<Rightarrow> nat list" where
  "phi_ids f = map i_id (filter (\<lambda>i. is_phi (i_kind i)) (func_insts f))"

definition keeps_wf :: "demotion \<Rightarrow> bool" where
  "keeps_wf demote \<longleftrightarrow> (\<forall>x ip f. wf_func f \<longrightarrow> wf_func (fst (demote x ip f)))"

text \<open>\<open>DemotePHIToStack\<close> replaces one \<open>phi\<close> and adds none.\<close>

definition removes_phi :: "demotion \<Rightarrow> bool" where
  "removes_phi demote \<longleftrightarrow>
     (\<forall>x ip f. wf_func f \<longrightarrow> x \<in> set (phi_ids f) \<longrightarrow>
        wf_func (fst (demote x ip f)) \<and> phi_ids (fst (demote x ip f)) = filter (\<lambda>y. y \<noteq> x) (phi_ids f))"

text \<open>The entry block consists of \<open>A\<close>, the insertion point and more.\<close>

definition entry_split :: "nat \<Rightarrow> ir_inst list \<Rightarrow> ir_func \<Rightarrow> bool" where
  "entry_split ip A f \<longleftrightarrow>
     (\<exists>eb bs bc R. f_blocks f = eb # bs \<and> b_insts eb = A @ bc # R \<and> i_id bc = ip \<and> \<not> is_phi (i_kind bc) \<and> R \<noteq> [])"

text \<open>
  The new variable is put right before the insertion point, and nothing else changes in front of it where
  neither the value nor a use of it stands there.
\<close>

definition allocates_at_point :: "demotion \<Rightarrow> bool" where
  "allocates_at_point demote \<longleftrightarrow>
     (\<forall>x ip f A f' a. wf_func f \<longrightarrow> entry_split ip A f \<longrightarrow> x \<noteq> ip \<longrightarrow> (\<forall>i \<in> set A. i_id i \<noteq> x \<and> \<not> uses (InstVal x) i) \<longrightarrow>
        demote x ip f = (f', a) \<longrightarrow>
        wf_func f' \<and> f_next f \<le> f_next f' \<and>
        (\<exists>as. entry_split ip (A @ as) f' \<and> map i_id as = (case a of None \<Rightarrow> [] | Some y \<Rightarrow> [y])
           \<and> (\<forall>i \<in> set as. is_alloca (i_kind i) \<and> f_next f \<le> i_id i)))"

lemma run_demotion_simps [simp]:
  "run_demotion demote ip [] st = st"
  "run_demotion demote ip (x # xs) (f, al) =
     run_demotion demote ip xs (fst (demote x ip f), al @ [snd (demote x ip f)])"
  by (simp_all add: run_demotion_def split: prod.split)

lemma run_demotion_length: "length (snd (run_demotion demote ip xs st)) = length (snd st) + length xs"
proof (induction xs arbitrary: st)
  case (Cons x xs)
  then show ?case by (cases st) simp
qed simp

lemma run_demotion_wf: "keeps_wf demote \<Longrightarrow> wf_func (fst st) \<Longrightarrow> wf_func (fst (run_demotion demote ip xs st))"
proof (induction xs arbitrary: st)
  case (Cons x xs)
  then show ?case by (cases st) (simp add: keeps_wf_def)
qed simp

lemma run_demotion_phis:
  assumes "removes_phi demote" and "wf_func (fst st)" and "distinct xs" and "set xs \<subseteq> set (phi_ids (fst st))"
  shows "wf_func (fst (run_demotion demote ip xs st))
    \<and> phi_ids (fst (run_demotion demote ip xs st)) = filter (\<lambda>y. y \<notin> set xs) (phi_ids (fst st))"
  using assms(2-)
proof (induction xs arbitrary: st)
  case (Cons x xs)
  obtain f al where st: "st = (f, al)" by (cases st)
  have "wf_func (fst (demote x ip f))" "phi_ids (fst (demote x ip f)) = filter (\<lambda>y. y \<noteq> x) (phi_ids f)"
    using assms(1) Cons.prems by (auto simp: removes_phi_def st)
  then show ?case
    using Cons.IH[of "(fst (demote x ip f), al @ [snd (demote x ip f)])"] Cons.prems(2,3) by (auto simp: st conj_commute)
qed simp

lemma alloca_uses [simp]: "is_alloca (i_kind i) \<Longrightarrow> \<not> uses v i"
  by (cases "i_kind i") (simp_all add: uses_def)

lemma run_demotion_split:
  assumes "allocates_at_point demote" and "wf_func f" and "entry_split ip A f"
    and "\<forall>x \<in> set xs. x \<noteq> ip \<and> x < f_next f \<and> (\<forall>i \<in> set A. i_id i \<noteq> x \<and> \<not> uses (InstVal x) i)"
  shows "\<exists>g as new. run_demotion demote ip xs (f, al) = (g, al @ new) \<and> wf_func g \<and> f_next f \<le> f_next g \<and> entry_split ip (A @ as) g
    \<and> (\<forall>i \<in> set as. is_alloca (i_kind i) \<and> f_next f \<le> i_id i) \<and> (\<forall>y. Some y \<in> set new \<longrightarrow> y \<in> i_id ` set as)"
  using assms(2-)
proof (induction xs arbitrary: f A al)
  case Nil
  then show ?case by (intro exI[of _ f] exI[of _ "[]"]) auto
next
  case (Cons x xs)
  obtain f1 a where d: "demote x ip f = (f1, a)" by (cases "demote x ip f")
  have x: "x \<noteq> ip" "\<forall>i \<in> set A. i_id i \<noteq> x \<and> \<not> uses (InstVal x) i" using Cons.prems(3) by auto
  obtain as where f1: "wf_func f1" "f_next f \<le> f_next f1" "entry_split ip (A @ as) f1"
    "map i_id as = (case a of None \<Rightarrow> [] | Some y \<Rightarrow> [y])" "\<forall>i \<in> set as. is_alloca (i_kind i) \<and> f_next f \<le> i_id i"
    using assms(1) Cons.prems(1,2) x d unfolding allocates_at_point_def by blast
  have "y \<noteq> ip \<and> y < f_next f1 \<and> (\<forall>i \<in> set (A @ as). i_id i \<noteq> y \<and> \<not> uses (InstVal y) i)" if y: "y \<in> set xs" for y
  proof -
    have old: "y \<noteq> ip" "y < f_next f" "\<forall>i \<in> set A. i_id i \<noteq> y \<and> \<not> uses (InstVal y) i" using Cons.prems(3) y by auto
    have "i_id i \<noteq> y \<and> \<not> uses (InstVal y) i" if "i \<in> set as" for i using f1(5) that old(2) by fastforce
    then show ?thesis using old f1(2) by auto
  qed
  then have "\<forall>y \<in> set xs. y \<noteq> ip \<and> y < f_next f1 \<and> (\<forall>i \<in> set (A @ as). i_id i \<noteq> y \<and> \<not> uses (InstVal y) i)" by blast
  from Cons.IH[OF f1(1,3) this, of "al @ [a]"] obtain g as' new where g:
    "run_demotion demote ip xs (f1, al @ [a]) = (g, (al @ [a]) @ new)" "wf_func g" "f_next f1 \<le> f_next g"
    "entry_split ip ((A @ as) @ as') g" "\<forall>i \<in> set as'. is_alloca (i_kind i) \<and> f_next f1 \<le> i_id i"
    "\<forall>y. Some y \<in> set new \<longrightarrow> y \<in> i_id ` set as'" by auto
  have "a = Some y \<Longrightarrow> y \<in> set (map i_id as)" for y using f1(4) by simp
  then show ?case
    using g f1(2,5) d by (intro exI[of _ g] exI[of _ "as @ as'"] exI[of _ "a # new"]) (fastforce simp: d)
qed

section \<open>The whole pass\<close>

lemma operands_phase:
  assumes "demotable_func atomic f"
  shows "\<exists>f0 g al. create_insertion_point f = Inr f0 \<and> wf_func g
    \<and> (if ops then demote_all_operands atomic (f_next f) f0 else Inr (f0, [])) = Inr (g, al)"
proof -
  obtain f0 where f0: "create_insertion_point f = Inr f0" "wf_func f0" using insertion_point_facts[OF assms] by blast
  obtain g cs where g: "demote_all_operands atomic (f_next f) f0 = Inr (g, slot_list (Suc (f_next f)) cs)" "wf_func g"
    using demote_all_facts[OF assms] f0(1) by (auto simp: slots_made_def)
  show ?thesis using f0 g by (cases ops) auto
qed


section \<open>Concrete utilities\<close>

text \<open>A register gets a variable and a store; the variable of a \<open>phi\<close> is stored to at the ends of the incoming blocks.\<close>

definition spill :: demotion where
  "spill x ip f =
     (case find_inst f x of
        None \<Rightarrow> (f, None)
      | Some i \<Rightarrow>
          (let a = f_next f;
               f1 = new_named_before ip (Alloca (i_type i)) (PtrTy (i_type i)) (i_name i) f
           in (insert_after x (mk_inst (f_next f1) (Store (InstVal x) (InstVal a)) VoidTy '''') f1\<lparr>f_next := Suc (f_next f1)\<rparr>, Some a)))"

definition store_at_end :: "nat \<Rightarrow> ir_value \<times> nat \<Rightarrow> ir_func \<Rightarrow> ir_func" where
  "store_at_end a e f =
     (case get_terminator f (snd e) of Inl err \<Rightarrow> f | Inr t \<Rightarrow> new_before (i_id t) (Store (fst e) (InstVal a)) VoidTy f)"

definition phi_slot :: demotion where
  "phi_slot x ip f =
     (case find_inst f x of
        None \<Rightarrow> (f, None)
      | Some i \<Rightarrow>
          (case i_kind i of
             PHI ins \<Rightarrow>
               (let a = f_next f;
                    f1 = new_named_before ip (Alloca (i_type i)) (PtrTy (i_type i)) (i_name i) f
                in (set_kind x (Load (InstVal a)) (fold (store_at_end a) ins f1), Some a))
           | _ \<Rightarrow> (f, None)))"

lemma new_named_before_wf: "wf_func f \<Longrightarrow> wf_func (new_named_before x k t nm f)"
  unfolding new_named_before_def by (rule wf_func_insert_fresh) simp_all

lemma new_named_before_next [simp]: "f_next (new_named_before x k t nm f) = Suc (f_next f)"
  by (simp add: new_named_before_def)

lemma spill_wf: "keeps_wf spill"
proof -
  have "wf_func (insert_after x (mk_inst (f_next g) k t nm) g\<lparr>f_next := Suc (f_next g)\<rparr>)" if "wf_func g" for x k t nm g
    using that by (rule wf_func_insert_after_fresh) simp
  from this[OF new_named_before_wf] show ?thesis
    unfolding keeps_wf_def spill_def Let_def by (auto simp del: new_named_before_next split: option.split)
qed

lemma phi_ids_insert_before: "\<not> is_phi (i_kind n) \<Longrightarrow> phi_ids (insert_before x n f\<lparr>f_next := m\<rparr>) = phi_ids f"
  unfolding phi_ids_def func_insts_next insert_before_def func_insts_map_blocks
  by (simp add: filter_concat comp_def filter_ins_before func_insts_def)

lemma store_at_end_facts: "wf_func f \<Longrightarrow> wf_func (store_at_end a e f)" "phi_ids (store_at_end a e f) = phi_ids f"
proof -
  show "wf_func f \<Longrightarrow> wf_func (store_at_end a e f)" by (simp add: store_at_end_def wf_func_new_before split: sum.split)
  show "phi_ids (store_at_end a e f) = phi_ids f"
    by (simp add: store_at_end_def new_before_def phi_ids_insert_before split: sum.split)
qed

lemma stores_at_end_facts:
  "wf_func f \<Longrightarrow> wf_func (fold (store_at_end a) ins f) \<and> phi_ids (fold (store_at_end a) ins f) = phi_ids f"
  by (induction ins arbitrary: f) (simp_all add: store_at_end_facts)

lemma phi_ids_set_kind: "\<not> is_phi k \<Longrightarrow> phi_ids (set_kind x k f) = filter (\<lambda>y. y \<noteq> x) (phi_ids f)"
proof -
  assume k: "\<not> is_phi k"
  have "map i_id (filter (\<lambda>i. is_phi (i_kind i)) (upd_at i_id x (\<lambda>i. i\<lparr>i_kind := k\<rparr>) is)) =
      filter (\<lambda>y. y \<noteq> x) (map i_id (filter (\<lambda>i. is_phi (i_kind i)) is))" for "is"
    by (induction "is") (simp_all add: k)
  then show ?thesis by (simp add: phi_ids_def set_kind_def func_insts_upd_inst)
qed

lemma phi_slot_removes: "removes_phi phi_slot"
  unfolding removes_phi_def
proof (intro allI impI)
  fix x ip f assume wf: "wf_func f" and x: "x \<in> set (phi_ids f)"
  then obtain i ins where i: "i \<in> set (func_insts f)" "i_id i = x" "i_kind i = PHI ins"
    by (auto simp: phi_ids_def elim: is_phi.elims)
  have found: "find_inst f x = Some i" using find_inst_member[OF wf i(1)] i(2) by simp
  define f1 where "f1 = new_named_before ip (Alloca (i_type i)) (PtrTy (i_type i)) (i_name i) f"
  have f1: "wf_func f1" "phi_ids f1 = phi_ids f"
    using wf by (simp_all add: f1_def new_named_before_wf) (simp add: new_named_before_def phi_ids_insert_before)
  then have "wf_func (set_kind x (Load (InstVal (f_next f))) (fold (store_at_end (f_next f)) ins f1))"
    "phi_ids (set_kind x (Load (InstVal (f_next f))) (fold (store_at_end (f_next f)) ins f1)) = filter (\<lambda>y. y \<noteq> x) (phi_ids f)"
    using stores_at_end_facts[OF f1(1), of "f_next f" ins] by (simp_all add: phi_ids_set_kind) (simp add: set_kind_def wf_func_upd_inst)
  then show "wf_func (fst (phi_slot x ip f)) \<and> phi_ids (fst (phi_slot x ip f)) = filter (\<lambda>y. y \<noteq> x) (phi_ids f)"
    using found i(3) by (simp add: phi_slot_def Let_def f1_def)
qed


lemma spill_allocates: "allocates_at_point spill"
  unfolding allocates_at_point_def
proof (intro allI impI)
  fix x ip f A f' a
  assume wf: "wf_func f" and split: "entry_split ip A f" and x: "x \<noteq> ip" "\<forall>i \<in> set A. i_id i \<noteq> x \<and> \<not> uses (InstVal x) i"
    and run: "spill x ip f = (f', a)"
  show "wf_func f' \<and> f_next f \<le> f_next f' \<and>
      (\<exists>as. entry_split ip (A @ as) f' \<and> map i_id as = (case a of None \<Rightarrow> [] | Some y \<Rightarrow> [y])
         \<and> (\<forall>i \<in> set as. is_alloca (i_kind i) \<and> f_next f \<le> i_id i))"
  proof (cases "find_inst f x")
    case None
    then show ?thesis using run wf split by (intro conjI exI[of _ "[]"]) (auto simp: spill_def)
  next
    case (Some i)
    let ?al = "mk_inst (f_next f) (Alloca (i_type i)) (PtrTy (i_type i)) (i_name i)"
    let ?st = "mk_inst (Suc (f_next f)) (Store (InstVal x) (InstVal (f_next f))) VoidTy ''''"
    have f': "f' = insert_after x ?st (insert_before ip ?al f\<lparr>f_next := Suc (f_next f)\<rparr>)\<lparr>f_next := Suc (Suc (f_next f))\<rparr>"
      and a: "a = Some (f_next f)"
      using run Some by (auto simp: spill_def Let_def new_named_before_def)
    obtain eb bs bc R where eb: "f_blocks f = eb # bs" "b_insts eb = A @ bc # R" "i_id bc = ip" "\<not> is_phi (i_kind bc)" "R \<noteq> []"
      using split unfolding entry_split_def by blast
    have "distinct (map i_id (A @ bc # R))" using block_insts_distinct[OF wf, of eb] by (simp add: eb(1,2))
    then have ipA: "ip \<notin> i_id ` set A" using eb(3) by auto
    have xA: "x \<notin> i_id ` set A" using x(2) by auto
    have xn: "x \<noteq> f_next f" using find_inst_less[OF wf Some] by simp
    let ?T = "\<lambda>is. ins_after i_id x ?st (ins_before i_id ip ?al is)"
    have T: "?T (A @ bc # R) = (A @ [?al]) @ bc # ins_after i_id x ?st R"
      using ipA xA xn x(1) eb(3) by (simp add: ins_before_append ins_after_append)
    have "ins_after i_id x ?st R \<noteq> []" using eb(5) by (cases R) auto
    moreover have "f_blocks f' = on_insts ?T eb # map (on_insts ?T) bs"
      by (simp add: f' insert_after_def insert_before_def eb(1) on_insts_def)
    ultimately have "entry_split ip (A @ [?al]) f'"
      unfolding entry_split_def using T eb(2-4)
      by (intro exI[of _ "on_insts ?T eb"] exI[of _ "map (on_insts ?T) bs"] exI[of _ bc] exI[of _ "ins_after i_id x ?st R"]) auto
    moreover have "wf_func f'" using spill_wf wf run unfolding keeps_wf_def by (metis fst_conv)
    ultimately show ?thesis using a f' by (intro conjI exI[of _ "[?al]"]) auto
  qed
qed

end
