(* ===== verification/Stack_To_Global.thy ===== *)
theory Stack_To_Global
  imports Demote_Values
begin

text \<open>
  \<open>lib/passes/stack-to-global/stack-to-global.cpp\<close>: a function pass that demotes all values to the stack and
  then turns the variables at the front of the entry block into globals of the module.
\<close>

section \<open>The pass\<close>

text \<open>
  The names of an unnamed function and an unnamed variable are made of their addresses in memory: how an
  address is printed is a parameter.
\<close>

definition func_label :: "(nat \<Rightarrow> string) \<Rightarrow> ir_func \<Rightarrow> string" where
  "func_label addr f = (if f_name f = [] then ''function-'' @ addr (f_id f) else f_name f)"

definition alloca_label :: "(nat \<Rightarrow> string) \<Rightarrow> ir_inst \<Rightarrow> string" where
  "alloca_label addr i = (if i_name i = [] then ''alloca-'' @ addr (i_id i) else i_name i)"

definition allocated_type :: "ir_inst \<Rightarrow> ir_type" where
  "allocated_type i = (case i_kind i of Alloca t \<Rightarrow> t | _ \<Rightarrow> VoidTy)"

definition state_global :: "nat \<Rightarrow> string \<Rightarrow> (nat \<Rightarrow> string) \<Rightarrow> ir_inst \<Rightarrow> ir_global" where
  "state_global n funcName addr i =
     \<lparr>g_id = n, g_name = funcName @ ''.'' @ alloca_label addr i @ ''.state'', g_type = allocated_type i, g_const = False,
      g_linkage = ''external'', g_unique_init = False, g_init = None\<rparr>"

definition entry_allocas :: "ir_func \<Rightarrow> nat list res" where
  "entry_allocas f =
     (case f_blocks f of
        [] \<Rightarrow> Inl NullDeref
      | entry # bs \<Rightarrow> Inr (map i_id (takeWhile (\<lambda>i. is_alloca (i_kind i)) (b_insts entry))))"

definition globalize_alloca ::
  "string \<Rightarrow> (nat \<Rightarrow> string) \<Rightarrow> nat \<Rightarrow> ir_func \<times> ir_module \<Rightarrow> (ir_func \<times> ir_module) res" where
  "globalize_alloca funcName addr x st =
     (case st of (f, m) \<Rightarrow>
       rmap (\<lambda>allocaInst.
           let globalSlot = GlobalVar (m_next m) (PtrTy (allocated_type allocaInst))
           in (erase_inst x (replace_all_uses (InstVal x) globalSlot f),
               m\<lparr>m_globals := m_globals m @ [state_global (m_next m) funcName addr allocaInst], m_next := Suc (m_next m)\<rparr>))
         (get_inst f x))"

definition globalize :: "(nat \<Rightarrow> string) \<Rightarrow> (nat \<Rightarrow> string) \<Rightarrow> ir_func \<Rightarrow> ir_module \<Rightarrow> (nat list \<times> ir_func \<times> ir_module) res" where
  "globalize func_addr addr f m =
     rbind (entry_allocas f) (\<lambda>entryAllocas.
       rmap (Pair entryAllocas) (rfold (globalize_alloca (func_label func_addr f) addr) entryAllocas (f, m)))"

definition stack_to_global ::
  "(nat \<Rightarrow> bool) \<Rightarrow> demotion \<Rightarrow> demotion \<Rightarrow> (nat \<Rightarrow> string) \<Rightarrow> (nat \<Rightarrow> string) \<Rightarrow> ir_func \<Rightarrow> ir_module
     \<Rightarrow> ((ir_func \<times> ir_module) \<times> preserved_analyses) res" where
  "stack_to_global atomic demote_reg demote_phi func_addr addr f m =
     (if is_declaration f \<or> f_optnone f then Inr ((f, m), PA_all)
      else rbind (DemoteRegisters atomic demote_reg demote_phi True f) (\<lambda>(f1, demoted).
        rmap (\<lambda>(entryAllocas, f2, m2).
            ((f2, m2),
             if DemotedInstructionCount demoted = 0 \<and> DemotedPhiNodeCount demoted = 0 \<and> entryAllocas = []
             then PA_none else PA_cfg))
          (globalize func_addr addr f1 m)))"

section \<open>Turning variables into globals\<close>

text \<open>The value that takes the place of a variable, given the globals the variables \<open>vs\<close> become.\<close>

definition global_of :: "nat \<Rightarrow> (nat \<Rightarrow> ir_type) \<Rightarrow> nat list \<Rightarrow> ir_value \<Rightarrow> ir_value" where
  "global_of n ty vs v =
     (case v of
        InstVal y \<Rightarrow> (case map_of (zip vs [n..<n + length vs]) y of Some k \<Rightarrow> GlobalVar k (PtrTy (ty y)) | None \<Rightarrow> v)
      | _ \<Rightarrow> v)"

definition with_globals :: "nat \<Rightarrow> (nat \<Rightarrow> ir_type) \<Rightarrow> nat list \<Rightarrow> ir_func \<Rightarrow> ir_func" where
  "with_globals n ty vs f =
     map_blocks (on_insts (\<lambda>is. map (\<lambda>i. i\<lparr>i_kind := map_ikind (global_of n ty vs) (i_kind i)\<rparr>)
       (filter (\<lambda>i. i_id i \<notin> set vs) is))) f"

definition type_at :: "ir_func \<Rightarrow> nat \<Rightarrow> ir_type" where
  "type_at f x = (case find_inst f x of None \<Rightarrow> VoidTy | Some i \<Rightarrow> allocated_type i)"

lemma allocated_type_map [simp]: "allocated_type (i\<lparr>i_kind := map_ikind h (i_kind i)\<rparr>) = allocated_type i"
  by (cases "i_kind i") (simp_all add: allocated_type_def)

lemma global_of_Cons:
  assumes "x \<notin> set vs"
  shows "global_of (Suc n) ty vs (if v = InstVal x then GlobalVar n (PtrTy (ty x)) else v) = global_of n ty (x # vs) v"
proof (cases v)
  case (InstVal y)
  have "[n..<n + length (x # vs)] = n # [Suc n..<Suc n + length vs]" by (simp add: upt_rec)
  then have "zip (x # vs) [n..<n + length (x # vs)] = (x, n) # zip vs [Suc n..<Suc n + length vs]" by (simp del: upt_Suc)
  then show ?thesis unfolding InstVal global_of_def by (auto simp del: upt_Suc split: option.split)
qed (simp_all add: global_of_def)

lemma global_of_cong:
  assumes "\<And>v. v \<in> set vs \<Longrightarrow> ty v = ty' v"
  shows "global_of n ty vs = global_of n ty' vs"
proof
  fix v
  show "global_of n ty vs v = global_of n ty' vs v"
  proof (cases v)
    case (InstVal y)
    show ?thesis
    proof (cases "map_of (zip vs [n..<n + length vs]) y")
      case (Some k)
      then have "y \<in> set vs" by (meson map_of_SomeD set_zip_leftD)
      with Some InstVal show ?thesis by (simp add: global_of_def assms)
    next
      case None
      then show ?thesis unfolding InstVal global_of_def by (simp only: ir_value.case option.case)
    qed
  qed (simp_all add: global_of_def)
qed

lemma with_globals_Cons:
  assumes "x \<notin> set vs"
  shows "with_globals (Suc n) ty vs (erase_inst x (replace_all_uses (InstVal x) (GlobalVar n (PtrTy (ty x))) f)) = with_globals n ty (x # vs) f"
proof -
  let ?r = "\<lambda>v. if v = InstVal x then GlobalVar n (PtrTy (ty x)) else v"
  have kinds: "map_ikind (global_of (Suc n) ty vs) (map_ikind ?r k) = map_ikind (global_of n ty (x # vs)) k" for k
    using global_of_Cons[OF assms] by (simp add: ikind.map_comp comp_def)
  have insts: "map (\<lambda>i. i\<lparr>i_kind := map_ikind (global_of (Suc n) ty vs) (i_kind i)\<rparr>)
        (filter (\<lambda>i. i_id i \<notin> set vs) (del_at i_id x (map (\<lambda>i. i\<lparr>i_kind := map_ikind ?r (i_kind i)\<rparr>) is))) =
      map (\<lambda>i. i\<lparr>i_kind := map_ikind (global_of n ty (x # vs)) (i_kind i)\<rparr>) (filter (\<lambda>i. i_id i \<notin> set (x # vs)) is)" for "is" :: "ir_inst list"
    by (induction "is") (simp_all add: kinds)
  show ?thesis
    unfolding with_globals_def erase_inst_def replace_all_uses_def edit_kinds_def replace_uses_def map_blocks_comp
    by (rule map_blocks_cong) (use insts in \<open>simp add: on_insts_def\<close>)
qed

text \<open>The globals of the variables.\<close>

definition state_globals :: "nat \<Rightarrow> string \<Rightarrow> (nat \<Rightarrow> string) \<Rightarrow> ir_func \<Rightarrow> nat list \<Rightarrow> ir_global list" where
  "state_globals n funcName addr f vs =
     map2 (\<lambda>k v. state_global k funcName addr (the (find_inst f v))) [n..<n + length vs] vs"

lemma with_globals_Nil: "with_globals n ty [] f = f"
proof -
  have "global_of n ty [] v = v" for v by (auto simp: global_of_def split: ir_value.splits)
  then have "map_ikind (global_of n ty []) k = k" for k by (simp add: map_ikind_same)
  then show ?thesis by (simp add: with_globals_def map_blocks_id)
qed

lemma globalize_allocas:
  assumes "wf_func f" and "distinct vs" and "\<And>v. v \<in> set vs \<Longrightarrow> find_inst f v \<noteq> None"
  shows "rfold (globalize_alloca funcName addr) vs (f, m) =
    Inr (with_globals (m_next m) (type_at f) vs f,
         m\<lparr>m_globals := m_globals m @ state_globals (m_next m) funcName addr f vs, m_next := m_next m + length vs\<rparr>)"
  using assms
proof (induction vs arbitrary: f m)
  case Nil
  then show ?case by (simp add: with_globals_Nil state_globals_def)
next
  case (Cons x vs)
  obtain i where i: "find_inst f x = Some i" using Cons.prems(3)[of x] by auto
  let ?gv = "GlobalVar (m_next m) (PtrTy (allocated_type i))"
  let ?f1 = "erase_inst x (replace_all_uses (InstVal x) ?gv f)"
  let ?m1 = "m\<lparr>m_globals := m_globals m @ [state_global (m_next m) funcName addr i], m_next := Suc (m_next m)\<rparr>"
  have x: "x \<notin> set vs" "distinct vs" using Cons.prems(2) by simp_all
  have ty: "type_at f x = allocated_type i" by (simp add: type_at_def i)
  have find1: "find_inst ?f1 y = map_option (\<lambda>i. i\<lparr>i_kind := replace_uses (InstVal x) ?gv (i_kind i)\<rparr>) (find_inst f y)" if "y \<noteq> x" for y
    using that by (simp add: find_inst_erase_inst replace_all_uses_def edit_kinds_def find_inst_map)
  have "func_insts ?f1 = del_at i_id x (map (\<lambda>i. i\<lparr>i_kind := replace_uses (InstVal x) ?gv (i_kind i)\<rparr>) (func_insts f))"
    by (simp add: func_insts_erase_inst replace_all_uses_def func_insts_edit_kinds)
  then have wf1: "wf_func ?f1"
    using Cons.prems(1) wf_func_edit_kinds[OF Cons.prems(1), of "\<lambda>i. replace_uses (InstVal x) ?gv (i_kind i)"]
    by (auto simp: wf_func_def fresh_ids_def del_at_def distinct_map_filter replace_all_uses_def edit_kinds_def comp_def)
  have "find_inst ?f1 v \<noteq> None" if "v \<in> set vs" for v
  proof -
    have "v \<noteq> x" using that x(1) by auto
    then show ?thesis using find1[of v] Cons.prems(3)[of v] that by simp
  qed
  note IH = Cons.IH[OF wf1 x(2) this, of ?m1]
  have same: "type_at ?f1 v = type_at f v" "state_global k funcName addr (the (find_inst ?f1 v)) = state_global k funcName addr (the (find_inst f v))"
    if in_vs: "v \<in> set vs" for v k
  proof -
    have "v \<noteq> x" using in_vs x(1) by auto
    moreover obtain j where "find_inst f v = Some j" using Cons.prems(3)[of v] in_vs by auto
    ultimately show "type_at ?f1 v = type_at f v"
      "state_global k funcName addr (the (find_inst ?f1 v)) = state_global k funcName addr (the (find_inst f v))"
      by (simp_all add: type_at_def find1 replace_uses_def state_global_def alloca_label_def)
  qed
  have "global_of n (type_at ?f1) vs = global_of n (type_at f) vs" for n by (rule global_of_cong) (rule same(1))
  then have "with_globals n (type_at ?f1) vs g = with_globals n (type_at f) vs g" for n g by (simp add: with_globals_def)
  then have "with_globals (Suc (m_next m)) (type_at ?f1) vs ?f1 = with_globals (m_next m) (type_at f) (x # vs) f"
    using with_globals_Cons[OF x(1), of "m_next m" "type_at f" f] by (simp add: ty)
  moreover have "state_globals (m_next m) funcName addr f (x # vs) =
      state_global (m_next m) funcName addr i # state_globals (Suc (m_next m)) funcName addr ?f1 vs"
  proof -
    have u: "[m_next m..<m_next m + length (x # vs)] = m_next m # [Suc (m_next m)..<Suc (m_next m) + length vs]" by (simp add: upt_rec)
    have "map2 (\<lambda>k v. state_global k funcName addr (the (find_inst f v))) ks vs =
        map2 (\<lambda>k v. state_global k funcName addr (the (find_inst ?f1 v))) ks vs" for ks
      by (rule map_cong[OF refl]) (auto simp: same(2) dest: set_zip_rightD)
    then show ?thesis unfolding state_globals_def u by (simp add: i)
  qed
  ultimately show ?case
    using IH by (simp add: globalize_alloca_def get_inst_def i)
qed

lemma variables_globalized:
  assumes "wf_func f" and "f_blocks f \<noteq> []"
  shows "\<exists>gs. globalize func_addr addr f m =
      Inr (entry_vars f, with_globals (m_next m) (type_at f) (entry_vars f) f,
           m\<lparr>m_globals := m_globals m @ gs, m_next := m_next m + length (entry_vars f)\<rparr>) \<and>
    length gs = length (entry_vars f) \<and>
    (\<forall>k < length gs. g_id (gs ! k) = m_next m + k \<and> g_type (gs ! k) = type_at f (entry_vars f ! k) \<and>
       g_linkage (gs ! k) = ''external'' \<and> g_init (gs ! k) = None) \<and>
    (\<forall>v \<in> set (entry_vars f). find_inst (with_globals (m_next m) (type_at f) (entry_vars f) f) v = None)"
proof -
  obtain eb bs where eb: "f_blocks f = eb # bs" using assms(2) by (cases "f_blocks f") auto
  let ?gs = "state_globals (m_next m) (func_label func_addr f) addr f (entry_vars f)"
  have vars: "entry_vars f = map i_id (takeWhile (\<lambda>i. is_alloca (i_kind i)) (b_insts eb))" by (simp add: entry_vars_def eb)
  have d: "distinct (entry_vars f)"
    using block_insts_distinct[OF assms(1), of eb] takeWhile_dropWhile_id[of "\<lambda>i. is_alloca (i_kind i)" "b_insts eb"]
    unfolding vars by (metis distinct_append eb list.set_intros(1) map_append)
  have found: "find_inst f v \<noteq> None" if v: "v \<in> set (entry_vars f)" for v
  proof -
    obtain i where "i \<in> set (takeWhile (\<lambda>i. is_alloca (i_kind i)) (b_insts eb))" "i_id i = v" using v unfolding vars by auto
    then have "i \<in> set (b_insts eb)" "i_id i = v" by (auto dest: set_takeWhileD)
    then show ?thesis using find_inst_member[OF assms(1), of i] by (auto simp: func_insts_def eb)
  qed
  have "globalize func_addr addr f m =
      Inr (entry_vars f, with_globals (m_next m) (type_at f) (entry_vars f) f,
           m\<lparr>m_globals := m_globals m @ ?gs, m_next := m_next m + length (entry_vars f)\<rparr>)"
    using globalize_allocas[OF assms(1) d found] by (simp add: globalize_def entry_allocas_def eb vars)
  moreover have "length ?gs = length (entry_vars f)" by (simp add: state_globals_def)
  moreover have "g_type (?gs ! k) = type_at f (entry_vars f ! k)" if "k < length ?gs" for k
    using that found[of "entry_vars f ! k"] by (auto simp: state_globals_def state_global_def type_at_def)
  moreover have "find_inst (with_globals (m_next m) (type_at f) (entry_vars f) f) v = None" if "v \<in> set (entry_vars f)" for v
    using that unfolding find_inst_def at_id_None with_globals_def func_insts_map_blocks by auto
  ultimately show ?thesis by (intro exI[of _ ?gs]) (auto simp: state_globals_def state_global_def)
qed

text \<open>
  C19: The variables at the front of the entry block become globals, in their order: of the allocated type,
  named after function and variable, visible outside the module, and without an initial value, so that
  they are declarations of globals that the module does not define. The function is as it was but for the
  variables, which are gone, and their uses, which are uses of the globals.
\<close>

theorem variables_become_globals:
  assumes "wf_func f" and "f_blocks f \<noteq> []"
  shows "\<exists>gs. globalize func_addr addr f m =
      Inr (entry_vars f, with_globals (m_next m) (type_at f) (entry_vars f) f,
           m\<lparr>m_globals := m_globals m @ gs, m_next := m_next m + length (entry_vars f)\<rparr>) \<and>
    length gs = length (entry_vars f) \<and>
    (\<forall>k < length gs. g_id (gs ! k) = m_next m + k \<and> g_type (gs ! k) = type_at f (entry_vars f ! k) \<and>
       g_linkage (gs ! k) = ''external'' \<and> g_init (gs ! k) = None) \<and>
    (\<forall>v \<in> set (entry_vars f). find_inst (with_globals (m_next m) (type_at f) (entry_vars f) f) v = None)"
  by (rule variables_globalized[OF assms])

section \<open>What stays on the stack\<close>

lemma block_unique:
  assumes "wf_func f" and "b \<in> set (f_blocks f)" "c \<in> set (f_blocks f)" and "i \<in> set (b_insts b)" "j \<in> set (b_insts c)" and "i_id i = i_id j"
  shows "b = c"
proof -
  have "distinct (concat (map (\<lambda>b. map i_id (b_insts b)) bs)) \<Longrightarrow> b \<in> set bs \<Longrightarrow> c \<in> set bs \<Longrightarrow> b = c" for bs
  proof (induction bs)
    case (Cons a bs)
    have "i_id i \<in> set (map i_id (b_insts b))" "i_id j \<in> set (map i_id (b_insts c))"
      using assms(4,5) by (simp_all del: image_iff)
    then have "i_id i \<in> set (map i_id (b_insts b))" "i_id i \<in> set (map i_id (b_insts c))" by (simp_all only: assms(6))
    with Cons show ?case by (auto simp: disjoint_iff)
  qed simp
  moreover have "distinct (concat (map (\<lambda>b. map i_id (b_insts b)) (f_blocks f)))"
    using wf_func_distinct[OF assms(1)] by (simp add: func_insts_def map_concat comp_def)
  ultimately show ?thesis using assms(2,3) by blast
qed

text \<open>The function after the constant operands are moved.\<close>

text \<open>No instruction uses the insertion point once the immediates have their slots.\<close>

lemma insertion_point_unused:
  assumes made: "slots_made (Suc ip) f0 cs g"
    and old: "\<And>i. i \<in> set (func_insts f0) \<Longrightarrow> InstVal ip \<notin> set (operands (i_kind i))"
    and i: "i \<in> set (func_insts g)"
  shows "\<not> uses (InstVal ip) i"
proof
  assume "uses (InstVal ip) i"
  then have op: "InstVal ip \<in> set (operands (i_kind i))" by (simp add: uses_def)
  have undo: "undo_slots (Suc ip) cs g = f0" using made by (simp add: slots_made_def)
  show False
  proof (cases "i_id i < Suc ip")
    case True
    have "slot_value (Suc ip) cs (InstVal ip) = InstVal ip" by (simp add: slot_value_def)
    then have "InstVal ip \<in> set (operands (i_kind (undo_inst (Suc ip) cs i)))" using op by (force simp: undo_inst_def operands_map)
    moreover have "undo_inst (Suc ip) cs i \<in> set (func_insts f0)" using i True by (simp add: undo_insts[OF undo])
    ultimately show False using old by blast
  next
    case False
    with slot_inst_uses[OF made i _ op] show False by auto
  qed
qed

text \<open>What escapes is not among the variables at the start of the entry block, nor the value there
  that only the next instruction uses.\<close>

lemma escaping_after_prefix:
  assumes wf: "wf_func g" and lay: "f_blocks g = eb # bs" "b_insts eb = A @ ld # bc # S" "\<forall>i \<in> set A. is_alloca (i_kind i)"
    and bc: "\<not> is_phi (i_kind bc)"
    and only: "\<forall>i \<in> set (func_insts g). uses (InstVal (i_id ld)) i \<longrightarrow> i_id i = i_id bc"
    and x: "x \<in> set (escaping_list g)"
  shows "x < f_next g \<and> x \<notin> i_id ` set (A @ [ld])"
proof -
  have in_g: "ld \<in> set (func_insts g)" "bc \<in> set (func_insts g)" "eb \<in> set (f_blocks g)" by (simp_all add: func_insts_def lay(1,2))
  obtain b i where b: "b \<in> set (f_blocks g)" "i \<in> set (b_insts b)" "x = i_id i" "\<not> (is_alloca (i_kind i) \<and> in_entry g b)"
    "value_escapes g b i"
    using x by (auto simp: escaping_list_def work_list_def)
  have ig: "i \<in> set (func_insts g)" by (rule block_inst_func[OF b(1,2)])
  have "x \<noteq> i_id ld"
  proof
    assume "x = i_id ld"
    then have i: "i = ld" using inst_eq_by_id[OF wf ig in_g(1)] b(3) by simp
    then have beb: "b = eb" using block_unique[OF wf b(1) in_g(3) b(2), of ld] by (simp add: lay(2))
    obtain u where u: "u \<in> set (func_insts g)" "uses (InstVal (i_id ld)) u"
      "map_option b_id (parent_block g (i_id u)) \<noteq> Some (b_id b) \<or> is_phi (i_kind u)"
      using b(5) i by (auto simp: value_escapes_def set_users)
    have "u = bc" using inst_eq_by_id[OF wf u(1) in_g(2)] only u(1,2) by blast
    moreover have "parent_block g (i_id bc) = Some eb" by (simp add: parent_block_def lay(1,2))
    ultimately show False using u(3) beb bc by simp
  qed
  moreover have "x \<notin> i_id ` set A"
  proof
    assume "x \<in> i_id ` set A"
    then obtain v where v: "v \<in> set A" "i_id v = x" by auto
    have "v \<in> set (func_insts g)" using v(1) by (simp add: func_insts_def lay(1,2))
    then have i: "i = v" using inst_eq_by_id[OF wf ig] b(3) v(2) by simp
    then have "b = eb" using block_unique[OF wf b(1) in_g(3) b(2), of v] v(1) by (simp add: lay(2))
    then show False using b(4) i v(1) lay(1,3) by (simp add: in_entry_def)
  qed
  moreover have "x < f_next g" using wf ig b(3) by (auto simp: wf_func_def fresh_ids_def)
  ultimately show ?thesis by simp
qed

lemma operands_moved:
  assumes f: "demotable_func atomic f"
  shows "\<exists>f0 g n A ld. create_insertion_point f = Inr f0 \<and> demote_all_operands atomic (f_next f) f0 = Inr (g, map Some n)
    \<and> wf_func g \<and> entry_split (f_next f) (A @ [ld]) g \<and> map i_id A = entry_vars f @ n \<and> (\<forall>i \<in> set A. is_alloca (i_kind i))
    \<and> (\<exists>a \<in> i_id ` set A. i_kind ld = Load (InstVal a))
    \<and> (\<forall>x \<in> set (escaping_list g). x \<noteq> f_next f \<and> x < f_next g \<and> x \<notin> i_id ` set (A @ [ld]))"
proof -
  let ?ip = "f_next f" and ?N = "Suc (f_next f)"
  obtain f0 g cs where g: "create_insertion_point f = Inr f0" "demote_all_operands atomic ?ip f0 = Inr (g, slot_list ?N cs)"
    "slots_made ?N f0 cs g" "cs \<noteq> []" "final_layout ?ip ?N (entry_vars f) (length cs) g"
    "\<forall>i \<in> set (func_insts g). uses (InstVal (?N + 3 * (length cs - 1) + 2)) i \<longrightarrow> i_id i = ?ip"
    using demote_all_facts[OF f] by blast
  have wf: "wf_func g" and undo: "undo_slots ?N cs g = f0" using g(3) by (simp_all add: slots_made_def)
  obtain eb bs A ld bc S R where lay: "f_blocks g = eb # bs" "b_insts eb = A @ ld # bc # S @ R" "R \<noteq> []"
    "\<forall>i \<in> set A. is_alloca (i_kind i)" "map i_id A = entry_vars f @ map (\<lambda>k. ?N + 3 * k) [0..<length cs]"
    "i_id ld = ?N + 3 * (length cs - 1) + 2" "i_kind ld = Load (InstVal (?N + 3 * (length cs - 1)))" "i_id bc = ?ip"
    using g(5) unfolding final_layout_def by (elim exE conjE) (rule that; assumption)
  define n where "n = map (\<lambda>k. ?N + 3 * k) [0..<length cs]"
  have n: "slot_list ?N cs = map Some n" by (simp add: n_def slot_list_def)
  have last_n: "?N + 3 * (length cs - 1) \<in> set n" using g(4) by (auto simp: n_def)
  \<comment> \<open>the function before\<close>
  obtain eb0 bs0 A0 it R0 where f0: "create_insertion_point f = Inr f0" "f_blocks f = eb0 # bs0" "b_insts eb0 = A0 @ it # R0"
    "f_blocks f0 = eb0\<lparr>b_insts := A0 @ point_inst f # it # R0\<rparr> # bs0" "wf_func f0"
    using insertion_point_facts[OF f] g(1) by auto
  have insts0: "set (func_insts f0) = insert (point_inst f) (set (func_insts f))"
    by (auto simp: func_insts_def f0(2,3,4))
  have old_ops: "InstVal ?ip \<notin> set (operands (i_kind i))" if "i \<in> set (func_insts f0)" for i
    using f that unfolding demotable_func_def insts0 by auto
  have in_g: "ld \<in> set (func_insts g)" "bc \<in> set (func_insts g)" "eb \<in> set (f_blocks g)" by (simp_all add: func_insts_def lay(1,2))
  have undone: "undo_inst ?N cs i \<in> set (func_insts f0)" if "i \<in> set (func_insts g)" "i_id i < ?N" for i
    using that by (simp add: undo_insts[OF undo])
  have "undo_inst ?N cs bc = point_inst f"
    by (rule inst_eq_by_id[OF f0(5) undone]) (use in_g lay(8) insts0 in \<open>simp_all add: undo_inst_def\<close>)
  then have bc: "\<not> is_phi (i_kind bc)"
    by (cases "i_kind bc") (auto simp: undo_inst_def dest!: arg_cong[where f = i_kind])
  have no_ip: "\<not> uses (InstVal ?ip) i" if "i \<in> set (func_insts g)" for i
    by (rule insertion_point_unused[OF g(3) old_ops that])
  have "x \<noteq> ?ip \<and> x < f_next g \<and> x \<notin> i_id ` set (A @ [ld])" if x: "x \<in> set (escaping_list g)" for x
  proof
    show "x \<noteq> ?ip" using x no_ip by (auto simp: escaping_list_def work_list_def value_escapes_def set_users)
    show "x < f_next g \<and> x \<notin> i_id ` set (A @ [ld])"
      by (rule escaping_after_prefix[OF wf lay(1,2,4) bc _ x]) (use g(6) lay(6,8) in simp)
  qed
  moreover have "entry_split ?ip (A @ [ld]) g"
    unfolding entry_split_def using lay(1,2,3,8) bc
    by (intro exI[of _ eb] exI[of _ bs] exI[of _ bc] exI[of _ "S @ R"]) simp
  moreover have "?N + 3 * (length cs - 1) \<in> i_id ` set A"
  proof -
    have "set (map i_id A) = set (entry_vars f @ n)" using lay(5) by (simp add: n_def)
    then show ?thesis using last_n by auto
  qed
  ultimately show ?thesis using g(1,2) wf lay(4,5,7) n
    by (intro exI[of _ f0] exI[of _ g] exI[of _ n] exI[of _ A] exI[of _ ld]) (simp add: n_def)
qed

lemma with_globals_alloca:
  assumes "wf_func f" and "i \<in> set (func_insts f)" and "is_alloca (i_kind i)" and "i_id i \<notin> set vs"
  shows "\<exists>j. find_inst (with_globals n ty vs f) (i_id i) = Some j \<and> is_alloca (i_kind j)"
proof -
  let ?h = "\<lambda>i. i\<lparr>i_kind := map_ikind (global_of n ty vs) (i_kind i)\<rparr>"
  have insts: "func_insts (with_globals n ty vs f) = map ?h (filter (\<lambda>i. i_id i \<notin> set vs) (func_insts f))"
    unfolding with_globals_def func_insts_map_blocks by (simp add: func_insts_def map_concat filter_concat comp_def)
  have "distinct (map i_id (func_insts (with_globals n ty vs f)))"
    using wf_func_distinct[OF assms(1)] by (simp add: insts comp_def distinct_map_filter)
  moreover have "?h i \<in> set (func_insts (with_globals n ty vs f))" using assms(2,4) by (simp add: insts)
  ultimately have "at_id i_id (i_id (?h i)) (func_insts (with_globals n ty vs f)) = Some (?h i)" by (rule at_id_distinct)
  moreover have "is_alloca (i_kind (?h i))" using assms(3) by (cases "i_kind i") auto
  ultimately show ?thesis by (auto simp: find_inst_def)
qed

lemma split_insts: "entry_split ip A f \<Longrightarrow> i \<in> set A \<Longrightarrow> i \<in> set (func_insts f)"
  by (auto simp: entry_split_def func_insts_def)

lemma split_point: "entry_split ip A f \<Longrightarrow> \<exists>bc \<in> set (func_insts f). i_id bc = ip \<and> \<not> is_phi (i_kind bc)"
  by (auto simp: entry_split_def func_insts_def)

text \<open>The variables at the front of an entry block that goes on with something else.\<close>

lemma split_entry_vars:
  assumes "entry_split ip (A @ ld # as) f" and "\<forall>i \<in> set A. is_alloca (i_kind i)" and "\<not> is_alloca (i_kind ld)"
  shows "entry_vars f = map i_id A"
  using assms by (auto simp: entry_split_def entry_vars_def)

lemma phis_apart:
  assumes wf: "wf_func g" and split: "entry_split ip ((A @ [ld]) @ as) g" and "\<forall>i \<in> set A. is_alloca (i_kind i)"
    and ld: "i_kind ld = Load (InstVal a)" "a \<in> i_id ` set A" and as: "\<forall>i \<in> set as. is_alloca (i_kind i)"
    and x: "x \<in> set (work_list (\<lambda>ibb i. is_phi (i_kind i)) g)"
  shows "x \<noteq> ip \<and> x < f_next g \<and> (\<forall>i \<in> set ((A @ [ld]) @ as). i_id i \<noteq> x \<and> \<not> uses (InstVal x) i)"
proof -
  obtain p where p: "p \<in> set (func_insts g)" "i_id p = x" "is_phi (i_kind p)"
    using x by (auto simp: work_list_def func_insts_def)
  have other: "i_id i \<noteq> x" if "i \<in> set (func_insts g)" "\<not> is_phi (i_kind i)" for i
    using inst_eq_by_id[OF wf that(1) p(1)] that(2) p(2,3) by auto
  have nophi: "\<not> is_phi (i_kind i)" if "is_alloca (i_kind i)" for i :: ir_inst using that by (cases "i_kind i") auto
  have ids: "i_id i \<noteq> x" if "i \<in> set ((A @ [ld]) @ as)" for i
    using other[OF split_insts[OF split that]] that nophi ld(1) assms(3) as by auto
  then have "a \<noteq> x" using ld(2) by force
  have "\<not> uses (InstVal x) i" if "i \<in> set ((A @ [ld]) @ as)" for i
    using that assms(3) as ld(1) \<open>a \<noteq> x\<close> alloca_uses by (auto simp: uses_def)
  moreover have "x \<noteq> ip" using split_point[OF split] other by blast
  moreover have "x < f_next g" using wf p(1,2) by (auto simp: wf_func_def fresh_ids_def)
  ultimately show ?thesis using ids by blast
qed

text \<open>The layout of the entry block after the demotion: old variables and constants, the load, the variables of the registers.\<close>

lemma demotion_layout:
  assumes f: "demotable_func atomic f" and reg: "allocates_at_point demote_reg" and phi: "allocates_at_point demote_phi"
  shows "\<exists>n slots g d A ld as. DemoteRegisters atomic demote_reg demote_phi True f = Inr (g, d) \<and>
    Allocas d = map Some n @ slots \<and> wf_func g \<and> entry_split (f_next f) (A @ ld # as) g \<and>
    map i_id A = entry_vars f @ n \<and> (\<forall>i \<in> set A. is_alloca (i_kind i)) \<and> \<not> is_alloca (i_kind ld) \<and>
    (\<forall>i \<in> set as. is_alloca (i_kind i)) \<and> (\<forall>y. Some y \<in> set slots \<longrightarrow> y \<in> i_id ` set as)"
proof -
  let ?ip = "f_next f"
  obtain f0 g2 n A ld where g2: "create_insertion_point f = Inr f0" "demote_all_operands atomic ?ip f0 = Inr (g2, map Some n)"
    "wf_func g2" "entry_split ?ip (A @ [ld]) g2" "map i_id A = entry_vars f @ n" "\<forall>i \<in> set A. is_alloca (i_kind i)"
    "\<exists>a \<in> i_id ` set A. i_kind ld = Load (InstVal a)"
    "\<forall>x \<in> set (escaping_list g2). x \<noteq> ?ip \<and> x < f_next g2 \<and> x \<notin> i_id ` set (A @ [ld])"
    using operands_moved[OF f] by (elim exE conjE) (rule that; assumption)
  obtain a where a: "i_kind ld = Load (InstVal a)" "a \<in> i_id ` set A" using g2(7) by blast
  define escaping where "escaping = escaping_list g2"
  have "\<not> uses (InstVal x) i" if "i \<in> set (A @ [ld])" "x \<notin> i_id ` set (A @ [ld])" for i x
    using that g2(6) a alloca_uses by (auto simp: uses_def)
  then have "\<forall>x \<in> set escaping. x \<noteq> ?ip \<and> x < f_next g2 \<and> (\<forall>i \<in> set (A @ [ld]). i_id i \<noteq> x \<and> \<not> uses (InstVal x) i)"
    using g2(8) unfolding escaping_def by blast
  from run_demotion_split[OF reg g2(3,4) this, of "map Some n"] obtain g3 as new where
    g3: "run_demotion demote_reg ?ip escaping (g2, map Some n) = (g3, map Some n @ new)" "wf_func g3"
    "entry_split ?ip ((A @ [ld]) @ as) g3" "\<forall>i \<in> set as. is_alloca (i_kind i) \<and> f_next g2 \<le> i_id i"
    "\<forall>y. Some y \<in> set new \<longrightarrow> y \<in> i_id ` set as" by (elim exE conjE) (rule that; assumption)
  define phis where "phis = work_list (\<lambda>ibb i. is_phi (i_kind i)) g3"
  have "\<forall>i \<in> set as. is_alloca (i_kind i)" using g3(4) by blast
  from phis_apart[OF g3(2,3) g2(6) a this]
  have "\<forall>x \<in> set phis. x \<noteq> ?ip \<and> x < f_next g3 \<and> (\<forall>i \<in> set ((A @ [ld]) @ as). i_id i \<noteq> x \<and> \<not> uses (InstVal x) i)"
    unfolding phis_def by blast
  from run_demotion_split[OF phi g3(2,3) this, of "map Some n @ new"] obtain g as' new' where
    g: "run_demotion demote_phi ?ip phis (g3, map Some n @ new) = (g, (map Some n @ new) @ new')" "wf_func g"
    "entry_split ?ip (((A @ [ld]) @ as) @ as') g" "\<forall>i \<in> set as'. is_alloca (i_kind i) \<and> f_next g3 \<le> i_id i"
    "\<forall>y. Some y \<in> set new' \<longrightarrow> y \<in> i_id ` set as'" by (elim exE conjE) (rule that; assumption)
  let ?d = "\<lparr>DemotedInstructionCount = length escaping, DemotedPhiNodeCount = length phis, Allocas = map Some n @ new @ new'\<rparr>"
  have run: "DemoteRegisters atomic demote_reg demote_phi True f = Inr (g, ?d)"
    using g2(1,2) g3(1) g(1) by (simp add: DemoteRegisters_def Let_def flip: escaping_def phis_def)
  have "entry_split ?ip (A @ ld # (as @ as')) g" "\<not> is_alloca (i_kind ld)" using g(3) a(1) by simp_all
  then show ?thesis
    using run g(2,4,5) g2(5,6) g3(4,5)
    by (intro exI[of _ n] exI[of _ "new @ new'"] exI[of _ g] exI[of _ ?d] exI[of _ A] exI[of _ ld] exI[of _ "as @ as'"]) auto
qed

text \<open>A variable behind the load is still one of the function.\<close>

lemma slot_remains:
  assumes wf: "wf_func g" and split: "entry_split ip (A @ ld # as) g" and vars: "entry_vars g = map i_id A"
    and as: "\<forall>i \<in> set as. is_alloca (i_kind i)" and y: "y \<in> i_id ` set as"
  shows "\<exists>i. find_inst (with_globals n (type_at g) (entry_vars g) g) y = Some i \<and> is_alloca (i_kind i)"
proof -
  obtain i where i: "i \<in> set as" "i_id i = y" using y by auto
  have mem: "i \<in> set (func_insts g)" using split_insts[OF split, of i] i(1) by auto
  obtain eb bs bc R where eb: "f_blocks g = eb # bs" "b_insts eb = (A @ ld # as) @ bc # R"
    using split unfolding entry_split_def by blast
  have "distinct (map i_id A @ map i_id as)"
    using block_insts_distinct[OF wf, of eb] by (auto simp: eb)
  then have "y \<notin> set (map i_id A)" using i by (metis IntI distinct_append empty_iff image_eqI list.set_map)
  then have "i_id i \<notin> set (entry_vars g)" using vars i(2) by simp
  from with_globals_alloca[OF wf mem _ this] as i show ?thesis by blast
qed


section \<open>Instances\<close>

definition imm_module :: ir_module where
  "imm_module = \<lparr>m_funcs = [imm_func], m_globals = [], m_named_md = [], m_arch_bits = 64, m_intptr_bits = 64, m_next = 8\<rparr>"

theorem variables_become_globals_witness:
  "\<exists>g m' gl. globalize (\<lambda>x. '''') (\<lambda>x. ''0'') imm_func imm_module = Inr ([1], g, m') \<and> m_globals m' = [gl] \<and>
    g_id gl = 8 \<and> g_type gl = IntTy 32 \<and> g_init gl = None \<and> find_inst g 1 = None"
proof -
  have "wf_func imm_func" using imm_func_ok by (simp add: demotable_func_def)
  moreover have "f_blocks imm_func \<noteq> []" by (simp add: imm_eval)
  moreover have e: "entry_vars imm_func = [1]" "type_at imm_func 1 = IntTy 32"
    by (simp_all add: imm_eval entry_vars_def type_at_def find_inst_def allocated_type_def)
  ultimately obtain gs where gs: "globalize (\<lambda>x. '''') (\<lambda>x. ''0'') imm_func imm_module =
      Inr ([1], with_globals (m_next imm_module) (type_at imm_func) [1] imm_func,
           imm_module\<lparr>m_globals := m_globals imm_module @ gs, m_next := m_next imm_module + length [1 :: nat]\<rparr>)"
    "length gs = 1" "\<forall>k < length gs. g_id (gs ! k) = m_next imm_module + k \<and> g_type (gs ! k) = type_at imm_func ([1] ! k) \<and>
       g_linkage (gs ! k) = ''external'' \<and> g_init (gs ! k) = None"
    "\<forall>v \<in> set [1]. find_inst (with_globals (m_next imm_module) (type_at imm_func) [1] imm_func) v = None"
    using variables_become_globals[of imm_func "\<lambda>x. ''''" "\<lambda>x. ''0''" imm_module] by auto
  obtain gl where "gs = [gl]" using gs(2) by (cases gs) auto
  with gs e show ?thesis by (auto simp: imm_module_def)
qed


end
