(* ===== verification/Function_Name_Trace.thy ===== *)
theory Function_Name_Trace
  imports Metadata_Util Value_Type_Util
begin

text \<open>
  \<open>lib/passes/function-name-trace/function-name-trace.cpp\<close>: a module pass that makes every function print
  its name with \<open>puts\<close> where it is entered and before every return.
\<close>

section \<open>The pass\<close>

text \<open>\<open>getOrInsertFunction\<close>, whose result is cast to a function: a symbol of another type is a constant cast.\<close>

definition get_or_insert_function :: "string \<Rightarrow> ir_type \<Rightarrow> ir_module \<Rightarrow> (ir_module \<times> nat) res" where
  "get_or_insert_function name ty m =
     (case List.find (\<lambda>f. f_name f = name) (m_funcs m) of
        Some f \<Rightarrow> if f_type f = ty then Inr (m, f_id f) else Inl BadCast
      | None \<Rightarrow>
          if \<exists>g \<in> set (m_globals m). g_name g = name then Inl BadCast
          else Inr (m\<lparr>m_funcs := m_funcs m @ [mk_func (m_next m) name ty True [] 0], m_next := Suc (m_next m)\<rparr>, m_next m))"

definition puts_type :: "ir_module \<Rightarrow> ir_type" where
  "puts_type m = create_type m (DFunc (DInt 32) (DPtr (DInt 8)) [])"

definition get_puts :: "ir_module \<Rightarrow> (ir_module \<times> nat) res" where
  "get_puts m = get_or_insert_function ''puts'' (puts_type m) m"

definition enter_name :: "string \<Rightarrow> string" where
  "enter_name s = CHR 0x0A # ''[>] Entering '' @ s @ [CHR 0x0A]"

definition exit_name :: "string \<Rightarrow> string" where
  "exit_name s = CHR 0x0A # ''[<] Leaving '' @ s @ [CHR 0x0A]"

text \<open>A new constant global that holds a string, and is named after it.\<close>

definition new_string_global :: "string \<Rightarrow> ir_module \<Rightarrow> ir_module \<times> nat" where
  "new_string_global s m =
     (m\<lparr>m_globals := m_globals m @
          [\<lparr>g_id = m_next m, g_name = s, g_type = ArrayTy (length s + 1) (IntTy 8), g_const = True, g_linkage = ''linkonce_odr'',
            g_unique_init = False, g_init = Some (create_string_constant s)\<rparr>],
        m_next := Suc (m_next m)\<rparr>, m_next m)"

text \<open>The call of \<open>puts\<close> with the address of the first character, created by a builder at an instruction.\<close>

definition trace_kind :: "nat \<Rightarrow> ir_type \<Rightarrow> nat \<Rightarrow> ir_value ikind" where
  "trace_kind puts ty v = Call ty [FirstElem v (PtrTy (IntTy 8))] (FuncVal (Fn puts) ty)"

definition create_trace_call :: "nat \<Rightarrow> ir_type \<Rightarrow> nat \<Rightarrow> nat \<Rightarrow> ir_func \<Rightarrow> ir_func" where
  "create_trace_call puts ty v p f =
     insert_before p ((mk_inst (f_next f) (trace_kind puts ty v) (IntTy 32) '''')\<lparr>i_md := debug_loc_of f p\<rparr>) f
       \<lparr>f_next := Suc (f_next f)\<rparr>"

fun is_ret :: "'v ikind \<Rightarrow> bool" where
  "is_ret (Ret v) = True"
| "is_ret k = False"

definition try_emplace :: "nat \<Rightarrow> nat \<Rightarrow> (nat \<times> nat) list \<Rightarrow> (nat \<times> nat) list" where
  "try_emplace k v m = (if map_of m k = None then m @ [(k, v)] else m)"

text \<open>
  \<open>prepare\<close> stands for \<open>PrepareToSplitEntryBlock\<close> at the front of the entry block: the changed function and
  the new insertion point; \<open>demangle\<close> for \<open>llvm::demangle\<close>. The second map is read but never written.
\<close>

type_synonym trace_state = "ir_module \<times> (nat \<times> nat) list \<times> (nat \<times> nat) list"

definition trace_func ::
  "(ir_func \<Rightarrow> ir_func \<times> nat) \<Rightarrow> (string \<Rightarrow> string) \<Rightarrow> nat \<Rightarrow> ir_type \<Rightarrow> ir_func \<Rightarrow> trace_state \<Rightarrow> trace_state" where
  "trace_func prepare demangle puts ty f st =
     (case st of (m, enteringMap, leavingMap) \<Rightarrow>
       if func_empty f \<or> f_optnone f then st
       else if f_id f = puts then st
       else
         (case prepare f of (f1, insertPt) \<Rightarrow>
           (case (case map_of enteringMap (f_id f) of
                    Some v \<Rightarrow> (m, enteringMap, v)
                  | None \<Rightarrow>
                      (case new_string_global (enter_name (demangle (f_name f))) m of
                         (m', v) \<Rightarrow> (m', try_emplace (f_id f) v enteringMap, v))) of
              (m1, enteringMap1, enteringVar) \<Rightarrow>
                (case (case map_of leavingMap (f_id f) of
                         Some v \<Rightarrow> (m1, enteringMap1, v)
                       | None \<Rightarrow>
                           (case new_string_global (exit_name (demangle (f_name f))) m1 of
                              (m', v) \<Rightarrow> (m', try_emplace (f_id f) v enteringMap1, v))) of
                   (m2, enteringMap2, exitingVar) \<Rightarrow>
                     let f2 = create_trace_call puts ty enteringVar insertPt f1;
                         f3 = fold (create_trace_call puts ty exitingVar)
                                (map i_id (filter (\<lambda>i. is_ret (i_kind i)) (func_insts f2))) f2
                     in (upd_func (f_id f) (\<lambda>_. f3) m2, enteringMap2, leavingMap)))))"

definition function_name_trace ::
  "(ir_func \<Rightarrow> ir_func \<times> nat) \<Rightarrow> (string \<Rightarrow> string) \<Rightarrow> ir_module \<Rightarrow> (ir_module \<times> preserved_analyses) res" where
  "function_name_trace prepare demangle m =
     rmap (\<lambda>(m1, puts).
         (fst (fold (trace_func prepare demangle puts (puts_type m)) (m_funcs m1) (m1, [], [])), PA_none))
       (get_puts m)"

section \<open>One function\<close>

text \<open>The kinds of a list of instructions with the calls: at the insertion point and before every return.\<close>

definition traced_kinds :: "nat \<Rightarrow> ir_type \<Rightarrow> nat \<Rightarrow> nat \<Rightarrow> nat \<Rightarrow> ir_inst list \<Rightarrow> ir_value ikind list" where
  "traced_kinds puts ty e l p is =
     concat (map (\<lambda>i. (if i_id i = p then [trace_kind puts ty e] else []) @
                      (if is_ret (i_kind i) then [trace_kind puts ty l] else []) @ [i_kind i]) is)"

text \<open>The function with the calls: the layout, and the old instructions unchanged.\<close>

definition traced :: "nat \<Rightarrow> ir_type \<Rightarrow> nat \<Rightarrow> nat \<Rightarrow> nat \<Rightarrow> ir_func \<Rightarrow> ir_func \<Rightarrow> bool" where
  "traced puts ty e l p f g \<longleftrightarrow> f_id g = f_id f \<and> p \<in> i_id ` set (b_insts (hd (f_blocks f))) \<and>
     map b_id (f_blocks g) = map b_id (f_blocks f) \<and>
     list_all2 (\<lambda>b c. map i_kind (b_insts c) = traced_kinds puts ty e l p (b_insts b) \<and>
                      filter (\<lambda>i. i_id i < f_next f) (b_insts c) = b_insts b) (f_blocks f) (f_blocks g)"

lemma create_trace_call_wf: "wf_func f \<Longrightarrow> wf_func (create_trace_call puts ty v p f)"
  unfolding create_trace_call_def by (rule wf_func_insert_fresh) simp_all

text \<open>New instructions woven in before the old ones.\<close>

definition weave :: "(ir_inst \<Rightarrow> ir_inst list) \<Rightarrow> ir_inst list \<Rightarrow> ir_inst list" where
  "weave pre is = concat (map (\<lambda>i. pre i @ [i]) is)"

definition woven :: "(ir_inst \<Rightarrow> ir_inst list) \<Rightarrow> ir_func \<Rightarrow> ir_func \<Rightarrow> bool" where
  "woven pre f g \<longleftrightarrow> f_blocks g = map (on_insts (weave pre)) (f_blocks f) \<and> f_next f \<le> f_next g \<and> f_id g = f_id f
     \<and> (\<forall>i. \<forall>n \<in> set (pre i). f_next f \<le> i_id n \<and> \<not> is_ret (i_kind n))"

lemma weave_Nil [simp]: "weave pre [] = []"
  and weave_Cons [simp]: "weave pre (a # as) = pre a @ a # weave pre as"
  by (simp_all add: weave_def)

lemma weave_cong: "(\<And>i. i \<in> set is \<Longrightarrow> pre i = pre' i) \<Longrightarrow> weave pre is = weave pre' is"
  by (induction "is") simp_all

lemma weave_append [simp]: "weave pre (as @ bs) = weave pre as @ weave pre bs"
  by (induction as) simp_all

lemma weave_concat: "weave pre (concat xss) = concat (map (weave pre) xss)"
  by (induction xss) simp_all

lemma weave_none [simp]: "weave (\<lambda>i. []) is = is"
  by (induction "is") simp_all

lemma weave_ins_before:
  assumes "distinct (map i_id is)" and "\<And>i n. i \<in> set is \<Longrightarrow> n \<in> set (pre i) \<Longrightarrow> i_id n \<noteq> x"
  shows "ins_before i_id x c (weave pre is) = weave (\<lambda>i. if i_id i = x then pre i @ [c] else pre i) is"
  using assms
proof (induction "is")
  case (Cons a as)
  have pre: "x \<notin> i_id ` set (pre a)" using Cons.prems(2)[of a] by auto
  show ?case
  proof (cases "i_id a = x")
    case True
    have "i_id i \<noteq> x" if i: "i \<in> set as" for i
    proof
      assume "i_id i = x"
      with True i have "i_id a \<in> set (map i_id as)" by (metis list.set_map image_eqI)
      with Cons.prems(1) show False by simp
    qed
    then have "weave (\<lambda>i. if i_id i = x then pre i @ [c] else pre i) as = weave pre as"
      by (intro weave_cong) simp
    then show ?thesis using True pre by (simp add: ins_before_append_right)
  next
    case False
    have "ins_before i_id x c (weave pre as) = weave (\<lambda>i. if i_id i = x then pre i @ [c] else pre i) as"
    proof (rule Cons.IH)
      show "distinct (map i_id as)" using Cons.prems(1) by simp
      show "i_id n \<noteq> x" if i: "i \<in> set as" "n \<in> set (pre i)" for i n
        by (rule Cons.prems(2)[OF _ i(2)]) (simp add: i(1))
    qed
    then show ?thesis using False pre by (simp add: ins_before_append_right)
  qed
qed simp

lemma woven_call:
  assumes wf: "wf_func f" and g: "woven pre f g" and x: "x < f_next f"
  shows "\<exists>c. woven (\<lambda>i. if i_id i = x then pre i @ [c] else pre i) f (create_trace_call puts ty v x g)
    \<and> i_kind c = trace_kind puts ty v"
proof -
  let ?c = "(mk_inst (f_next g) (trace_kind puts ty v) (IntTy 32) '''')\<lparr>i_md := debug_loc_of g x\<rparr>"
  have "ins_before i_id x ?c (weave pre (b_insts b)) = weave (\<lambda>i. if i_id i = x then pre i @ [?c] else pre i) (b_insts b)"
    if "b \<in> set (f_blocks f)" for b
  proof (rule weave_ins_before[OF block_insts_distinct[OF wf that]])
    fix i n :: ir_inst assume "n \<in> set (pre i)"
    then have "f_next f \<le> i_id n" using g by (auto simp: woven_def)
    with x show "i_id n \<noteq> x" by simp
  qed
  then have "map (on_insts (ins_before i_id x ?c) \<circ> on_insts (weave pre)) (f_blocks f) =
      map (on_insts (weave (\<lambda>i. if i_id i = x then pre i @ [?c] else pre i))) (f_blocks f)"
    by (intro map_cong) (simp_all add: on_insts_def)
  then have "woven (\<lambda>i. if i_id i = x then pre i @ [?c] else pre i) f (create_trace_call puts ty v x g)"
    using g by (auto simp: woven_def create_trace_call_def insert_before_def trace_kind_def)
  then show ?thesis by (intro exI[of _ ?c]) simp
qed

lemma woven_calls:
  assumes wf: "wf_func f" and "woven pre f g" and "distinct xs" and "\<forall>x \<in> set xs. x < f_next f"
  shows "\<exists>pre'. woven pre' f (fold (create_trace_call puts ty v) xs g)
    \<and> (\<forall>i. map i_kind (pre' i) = map i_kind (pre i) @ (if i_id i \<in> set xs then [trace_kind puts ty v] else []))"
  using assms(2-)
proof (induction xs arbitrary: pre g)
  case Nil
  then show ?case by auto
next
  case (Cons x xs)
  have "x < f_next f" using Cons.prems(3) by simp
  from woven_call[OF wf Cons.prems(1) this, of puts ty v]
  obtain c where c: "woven (\<lambda>i. if i_id i = x then pre i @ [c] else pre i) f (create_trace_call puts ty v x g)"
    "i_kind c = trace_kind puts ty v" by (elim exE conjE) (rule that; assumption)
  obtain pre' where pre': "woven pre' f (fold (create_trace_call puts ty v) xs (create_trace_call puts ty v x g))"
    "\<forall>i. map i_kind (pre' i) = map i_kind (if i_id i = x then pre i @ [c] else pre i) @
       (if i_id i \<in> set xs then [trace_kind puts ty v] else [])"
    using Cons.IH[OF c(1)] Cons.prems(2,3) by fastforce
  have "map i_kind (pre' i) = map i_kind (pre i) @ (if i_id i \<in> set (x # xs) then [trace_kind puts ty v] else [])" for i
    using pre'(2) c(2) Cons.prems(2) by auto
  with pre'(1) show ?case by auto
qed

lemma weave_kinds:
  "(\<And>i. i \<in> set is \<Longrightarrow> map i_kind (pre i) = h i) \<Longrightarrow> map i_kind (weave pre is) = concat (map (\<lambda>i. h i @ [i_kind i]) is)"
  by (induction "is") (simp_all)

lemma weave_filter:
  assumes "\<And>i n. i \<in> set is \<Longrightarrow> n \<in> set (pre i) \<Longrightarrow> \<not> p n" and "\<And>i. i \<in> set is \<Longrightarrow> p i"
  shows "filter p (weave pre is) = is"
proof -
  have none: "filter p (pre i) = []" if "i \<in> set is" for i using assms(1)[OF that] by (simp add: filter_empty_conv)
  show ?thesis using none assms(2) by (induction "is") simp_all
qed

lemma weave_rets:
  assumes "\<And>i n. i \<in> set is \<Longrightarrow> n \<in> set (pre i) \<Longrightarrow> \<not> p n"
  shows "filter p (weave pre is) = filter p is"
proof -
  have none: "filter p (pre i) = []" if "i \<in> set is" for i using assms[OF that] by (simp add: filter_empty_conv)
  show ?thesis using none by (induction "is") simp_all
qed

lemma trace_func_body:
  assumes wf: "wf_func f" and entry: "p \<in> i_id ` set (b_insts (hd (f_blocks f)))" and blocks: "f_blocks f \<noteq> []"
  shows "traced puts ty e l p f
    (let f2 = create_trace_call puts ty e p f
     in fold (create_trace_call puts ty l) (map i_id (filter (\<lambda>i. is_ret (i_kind i)) (func_insts f2))) f2)"
proof -
  have ids: "i_id i < f_next f" if "i \<in> set (func_insts f)" for i using wf that by (auto simp: wf_func_def fresh_ids_def)
  have p: "p < f_next f" using entry blocks ids block_inst_func[of "hd (f_blocks f)" f] by auto
  have "map (on_insts (weave (\<lambda>i. []))) (f_blocks f) = f_blocks f" by (simp add: on_insts_def map_idI)
  then have "woven (\<lambda>i. []) f f" by (simp add: woven_def)
  from woven_call[OF wf this p, of puts ty e, unfolded append_Nil] obtain c where
    c: "woven (\<lambda>i. if i_id i = p then [c] else []) f (create_trace_call puts ty e p f)" "i_kind c = trace_kind puts ty e"
    by (elim exE conjE) (rule that; assumption)
  let ?f2 = "create_trace_call puts ty e p f"
  have "func_insts ?f2 = weave (\<lambda>i. if i_id i = p then [c] else []) (func_insts f)"
    using c(1) by (simp add: func_insts_def woven_def weave_concat comp_def on_insts_def)
  then have "filter (\<lambda>i. is_ret (i_kind i)) (func_insts ?f2) = filter (\<lambda>i. is_ret (i_kind i)) (func_insts f)"
    by (simp only:) (rule weave_rets, auto simp: c(2) trace_kind_def split: if_splits)
  then have rets: "map i_id (filter (\<lambda>i. is_ret (i_kind i)) (func_insts ?f2)) = map i_id (filter (\<lambda>i. is_ret (i_kind i)) (func_insts f))"
    (is "_ = ?rets") by simp
  have "distinct ?rets" using wf_func_distinct[OF wf] by (simp add: distinct_map_filter)
  moreover have "\<forall>x \<in> set ?rets. x < f_next f" using ids by auto
  ultimately obtain pre where pre: "woven pre f (fold (create_trace_call puts ty l) ?rets ?f2)"
    "\<forall>i. map i_kind (pre i) = map i_kind (if i_id i = p then [c] else []) @ (if i_id i \<in> set ?rets then [trace_kind puts ty l] else [])"
    using woven_calls[OF wf c(1)] by blast
  have ret: "i_id i \<in> set ?rets \<longleftrightarrow> is_ret (i_kind i)" if "i \<in> set (func_insts f)" for i
    using that inst_eq_by_id[OF wf that] by auto
  have "map i_kind (weave pre (b_insts b)) = traced_kinds puts ty e l p (b_insts b) \<and>
      filter (\<lambda>i. i_id i < f_next f) (weave pre (b_insts b)) = b_insts b" if b: "b \<in> set (f_blocks f)" for b
  proof
    have mem: "i \<in> set (b_insts b) \<Longrightarrow> i \<in> set (func_insts f)" for i using b by (rule block_inst_func)
    show "map i_kind (weave pre (b_insts b)) = traced_kinds puts ty e l p (b_insts b)"
      unfolding traced_kinds_def using pre(2) c(2) ret[OF mem]
      by (subst weave_kinds[where h = "\<lambda>i. (if i_id i = p then [trace_kind puts ty e] else []) @ (if is_ret (i_kind i) then [trace_kind puts ty l] else [])"]) auto
    have "\<not> i_id n < f_next f" if "n \<in> set (pre i)" for i n using pre(1) that by (force simp: woven_def)
    then show "filter (\<lambda>i. i_id i < f_next f) (weave pre (b_insts b)) = b_insts b"
      using ids[OF mem] by (intro weave_filter) auto
  qed
  then show ?thesis
    using pre(1) entry unfolding Let_def rets traced_def woven_def
    by (simp add: list_all2_conv_all_nth comp_def)
qed

section \<open>The module\<close>

definition traces :: "nat \<Rightarrow> ir_func \<Rightarrow> bool" where
  "traces puts f \<longleftrightarrow> \<not> func_empty f \<and> \<not> f_optnone f \<and> f_id f \<noteq> puts"

text \<open>What the code relies on of \<open>PrepareToSplitEntryBlock\<close>: a well-formed function with the insertion point in it.\<close>

definition prepare_ok :: "(ir_func \<Rightarrow> ir_func \<times> nat) \<Rightarrow> bool" where
  "prepare_ok prepare \<longleftrightarrow>
     (\<forall>f f' p. wf_func f \<longrightarrow> f_blocks f \<noteq> [] \<longrightarrow> b_insts (hd (f_blocks f)) \<noteq> [] \<longrightarrow> prepare f = (f', p) \<longrightarrow>
        wf_func f' \<and> f_id f' = f_id f \<and> f_blocks f' \<noteq> [] \<and> p \<in> i_id ` set (b_insts (hd (f_blocks f'))))"

definition string_at :: "ir_module \<Rightarrow> nat \<Rightarrow> string \<Rightarrow> bool" where
  "string_at m v s \<longleftrightarrow>
     map_option (\<lambda>g. (g_const g, g_init g)) (find_global m v) = Some (True, Some (create_string_constant s))"

definition globals_below :: "ir_module \<Rightarrow> bool" where
  "globals_below m \<longleftrightarrow> (\<forall>g \<in> set (m_globals m). g_id g < m_next m)"

text \<open>A function whose entry block, when it has one, is not empty.\<close>

definition traceable :: "ir_func \<Rightarrow> bool" where
  "traceable f \<longleftrightarrow> wf_func f \<and> (f_blocks f = [] \<or> b_insts (hd (f_blocks f)) \<noteq> [])"

text \<open>What later steps keep: the globals below the counter.\<close>

definition extends_globals :: "ir_module \<Rightarrow> ir_module \<Rightarrow> bool" where
  "extends_globals m m' \<longleftrightarrow> globals_below m' \<and> m_next m \<le> m_next m' \<and> (\<forall>v < m_next m. find_global m' v = find_global m v)"

lemma extends_globals_refl: "globals_below m \<Longrightarrow> extends_globals m m"
  by (simp add: extends_globals_def)

lemma extends_globals_trans: "extends_globals m m' \<Longrightarrow> extends_globals m' m'' \<Longrightarrow> extends_globals m m''"
  by (auto simp: extends_globals_def)

lemma extends_globals_upd_func [simp]: "extends_globals m (upd_func x h m') = extends_globals m m'"
  by (simp add: extends_globals_def globals_below_def find_global_def upd_func_def)

lemma string_at_extends: "string_at m v s \<Longrightarrow> v < m_next m \<Longrightarrow> extends_globals m m' \<Longrightarrow> string_at m' v s"
  by (simp add: string_at_def extends_globals_def)

lemma string_at_upd_func [simp]: "string_at (upd_func x h m) = string_at m"
  by (simp add: string_at_def find_global_def upd_func_def fun_eq_iff)

lemma m_next_upd_func [simp]: "m_next (upd_func x h m) = m_next m"
  by (simp add: upd_func_def)

lemma new_string_global_spec:
  assumes "globals_below m" and "new_string_global s m = (m', v)"
  shows "extends_globals m m' \<and> string_at m' v s \<and> v < m_next m' \<and> m_funcs m' = m_funcs m"
proof -
  have "m_next m \<notin> g_id ` set (m_globals m)" using assms(1) by (auto simp: globals_below_def)
  then have "at_id g_id (m_next m) (m_globals m) = None" by (simp add: at_id_None)
  with assms show ?thesis
    by (auto simp: new_string_global_def extends_globals_def globals_below_def string_at_def find_global_def
        at_id_append less_SucI split: option.splits)
qed

lemma find_func_replace:
  assumes "f_id g = x"
  shows "find_func (upd_func x (\<lambda>_. g) m) y = (if y = x then map_option (\<lambda>_. g) (find_func m y) else find_func m y)"
proof -
  have "at_id f_id y (upd_at f_id x (\<lambda>_. g) fs) =
      (if y = x then map_option (\<lambda>_. g) (at_id f_id y fs) else at_id f_id y fs)" for fs
    using assms by (induction fs) auto
  then show ?thesis by (simp add: find_func_def upd_func_def)
qed

lemma create_trace_calls_id [simp]:
  "f_id (create_trace_call puts ty v p f) = f_id f" "f_id (fold (create_trace_call puts ty v) xs f) = f_id f"
proof -
  show one: "f_id (create_trace_call puts ty v p f) = f_id f" for p and f :: ir_func
    by (simp add: create_trace_call_def insert_before_def)
  show "f_id (fold (create_trace_call puts ty v) xs f) = f_id f" by (induction xs arbitrary: f) (simp_all add: one)
qed

text \<open>What the pass leaves of one function: its two strings, and its body with the calls.\<close>

definition trace_done :: "(ir_func \<Rightarrow> ir_func \<times> nat) \<Rightarrow> (string \<Rightarrow> string) \<Rightarrow> nat \<Rightarrow> ir_type \<Rightarrow> ir_func \<Rightarrow> ir_module \<Rightarrow> bool" where
  "trace_done prepare demangle puts ty f m \<longleftrightarrow> (\<exists>g e l. find_func m (f_id f) = Some g \<and> e < m_next m \<and> l < m_next m \<and>
     string_at m e (enter_name (demangle (f_name f))) \<and> string_at m l (exit_name (demangle (f_name f))) \<and>
     traced puts ty e l (snd (prepare f)) (fst (prepare f)) g)"

lemma trace_done_extends:
  assumes "trace_done prepare demangle puts ty f m" and "extends_globals m m'" and "find_func m' (f_id f) = find_func m (f_id f)"
  shows "trace_done prepare demangle puts ty f m'"
proof -
  obtain g e l where d: "find_func m (f_id f) = Some g" "e < m_next m" "l < m_next m"
     "string_at m e (enter_name (demangle (f_name f)))" "string_at m l (exit_name (demangle (f_name f)))"
     "traced puts ty e l (snd (prepare f)) (fst (prepare f)) g"
    using assms(1) unfolding trace_done_def by (elim exE conjE) (rule that; assumption)
  have "m_next m \<le> m_next m'" using assms(2) by (simp add: extends_globals_def)
  with d(2,3) have "e < m_next m'" "l < m_next m'" by simp_all
  then show ?thesis
    unfolding trace_done_def
    by - (rule exI[of _ g], rule exI[of _ e], rule exI[of _ l],
      simp add: assms(3) d string_at_extends[OF d(4,2) assms(2)] string_at_extends[OF d(5,3) assms(2)])
qed

lemma trace_func_skips: "\<not> traces puts f \<Longrightarrow> trace_func prepare demangle puts ty f st = st"
  by (cases st) (auto simp: trace_func_def traces_def)

lemma trace_func_step:
  assumes ok: "prepare_ok prepare" and f: "traces puts f" "traceable f" "find_func m (f_id f) = Some f"
    and en: "map_of en (f_id f) = None" and below: "globals_below m"
  shows "\<exists>m' en'. trace_func prepare demangle puts ty f (m, en, []) = (m', en', []) \<and>
     extends_globals m m' \<and> trace_done prepare demangle puts ty f m' \<and>
     (\<forall>x. x \<noteq> f_id f \<longrightarrow> find_func m' x = find_func m x \<and> (map_of en x = None \<longrightarrow> map_of en' x = None))"
proof -
  obtain f1 p where p: "prepare f = (f1, p)" by fastforce
  have f1: "wf_func f1" "p \<in> i_id ` set (b_insts (hd (f_blocks f1)))" "f_blocks f1 \<noteq> []" "f_id f1 = f_id f"
    using ok f p unfolding prepare_ok_def traces_def traceable_def func_empty_def by blast+
  obtain m1 e where m1: "new_string_global (enter_name (demangle (f_name f))) m = (m1, e)" by fastforce
  obtain m2 l where m2: "new_string_global (exit_name (demangle (f_name f))) m1 = (m2, l)" by fastforce
  note s1 = new_string_global_spec[OF below m1]
  have "globals_below m1" using s1 by (simp add: extends_globals_def)
  note s2 = new_string_global_spec[OF this m2]
  let ?f3 = "let f2 = create_trace_call puts ty e p f1
     in fold (create_trace_call puts ty l) (map i_id (filter (\<lambda>i. is_ret (i_kind i)) (func_insts f2))) f2"
  let ?en = "try_emplace (f_id f) l (try_emplace (f_id f) e en)"
  let ?m = "upd_func (f_id f) (\<lambda>_. ?f3) m2"
  have run: "trace_func prepare demangle puts ty f (m, en, []) = (?m, ?en, [])"
    using f(1) en by (simp add: trace_func_def traces_def p m1 m2 Let_def)
  have ext: "extends_globals m ?m" using s1 s2 extends_globals_trans by simp blast
  have id: "f_id ?f3 = f_id f" by (simp add: Let_def f1(4))
  have funcs: "find_func m2 = find_func m" using s1 s2 by (simp add: find_func_def fun_eq_iff)
  have fin: "trace_done prepare demangle puts ty f ?m"
    unfolding trace_done_def
  proof (rule exI[of _ ?f3], rule exI[of _ e], rule exI[of _ l], intro conjI)
    show "find_func ?m (f_id f) = Some ?f3" by (simp add: find_func_replace[OF id] funcs f(3))
    have "m_next m1 \<le> m_next m2" using s2 by (simp add: extends_globals_def)
    with s1 show "e < m_next ?m" by simp
    show "l < m_next ?m" using s2 by simp
    show "string_at ?m e (enter_name (demangle (f_name f)))" using string_at_extends[of m1 e _ m2] s1 s2 by simp
    show "string_at ?m l (exit_name (demangle (f_name f)))" using s2 by simp
    show "traced puts ty e l (snd (prepare f)) (fst (prepare f)) ?f3"
      unfolding p fst_conv snd_conv by (rule trace_func_body[OF f1(1-3)])
  qed
  have rest: "find_func ?m x = find_func m x \<and> (map_of en x = None \<longrightarrow> map_of ?en x = None)" if "x \<noteq> f_id f" for x
    using that by (auto simp: find_func_replace[OF id] funcs try_emplace_def map_add_def)
  show ?thesis using run ext fin rest by (intro exI[of _ ?m] exI[of _ ?en]) simp
qed

lemma trace_loop:
  assumes ok: "prepare_ok prepare" and "distinct (map f_id fs)"
    and "\<forall>f \<in> set fs. traceable f \<and> find_func m (f_id f) = Some f \<and> map_of en (f_id f) = None" and "globals_below m"
  shows "extends_globals m (fst (fold (trace_func prepare demangle puts ty) fs (m, en, []))) \<and>
     (\<forall>f \<in> set fs. traces puts f \<longrightarrow> trace_done prepare demangle puts ty f (fst (fold (trace_func prepare demangle puts ty) fs (m, en, [])))) \<and>
     (\<forall>x. (\<forall>f \<in> set fs. f_id f = x \<longrightarrow> \<not> traces puts f) \<longrightarrow>
        find_func (fst (fold (trace_func prepare demangle puts ty) fs (m, en, []))) x = find_func m x)"
  using assms(2-)
proof (induction fs arbitrary: m en)
  case Nil
  then show ?case by (simp add: extends_globals_refl)
next
  case (Cons f fs)
  show ?case
  proof (cases "traces puts f")
    case False
    have tail: "distinct (map f_id fs)"
      "\<forall>f \<in> set fs. traceable f \<and> find_func m (f_id f) = Some f \<and> map_of en (f_id f) = None"
      using Cons.prems(1,2) by simp_all
    from Cons.IH[OF tail Cons.prems(3)] show ?thesis by (simp add: trace_func_skips[OF False] False)
  next
    case True
    have "traceable f" "find_func m (f_id f) = Some f" "map_of en (f_id f) = None" using Cons.prems(2) by simp_all
    from trace_func_step[OF ok True this Cons.prems(3), of demangle ty] obtain m' en' where
      s: "trace_func prepare demangle puts ty f (m, en, []) = (m', en', [])" "extends_globals m m'"
      "trace_done prepare demangle puts ty f m'"
      "\<forall>x. x \<noteq> f_id f \<longrightarrow> find_func m' x = find_func m x \<and> (map_of en x = None \<longrightarrow> map_of en' x = None)"
      by (elim exE conjE) (rule that; assumption)
    have other: "f_id h \<noteq> f_id f" if "h \<in> set fs" for h using Cons.prems(1) that by (metis distinct.simps(2) image_eqI list.set_map list.simps(9))
    have tail: "distinct (map f_id fs)" "globals_below m'"
      "\<forall>f \<in> set fs. traceable f \<and> find_func m' (f_id f) = Some f \<and> map_of en' (f_id f) = None"
      using Cons.prems(1,2) s(2,4) other by (simp_all add: extends_globals_def)
    let ?r = "fst (fold (trace_func prepare demangle puts ty) fs (m', en', []))"
    note ih = Cons.IH[OF tail(1,3,2)]
    have ext: "extends_globals m' ?r" using ih by (rule conjunct1)
    have keep: "find_func ?r x = find_func m' x" if "\<forall>h \<in> set fs. f_id h = x \<longrightarrow> \<not> traces puts h" for x
      using ih that by simp
    have "trace_done prepare demangle puts ty f ?r"
      by (rule trace_done_extends[OF s(3) ext keep]) (use other in auto)
    moreover have "find_func ?r x = find_func m x" if "\<forall>h \<in> set (f # fs). f_id h = x \<longrightarrow> \<not> traces puts h" for x
    proof -
      have "x \<noteq> f_id f" using that True by auto
      with s(4) keep[of x] that show ?thesis by simp
    qed
    ultimately show ?thesis using ih extends_globals_trans[OF s(2) ext] by (simp add: s(1))
  qed
qed

text \<open>A function of two blocks that returns in each, in a module with a declaration; the insertion point is the first instruction.\<close>

definition trace_demo_func :: ir_func where
  "trace_demo_func = mk_func 0 ''main'' (FuncTy VoidTy [] False) True
     [mk_block 0 [mk_inst 1 (Br 1) VoidTy ''''],
      mk_block 1 [mk_inst 2 (Ret None) VoidTy '''']] 3"

definition trace_demo :: ir_module where
  "trace_demo =
     \<lparr>m_funcs = [trace_demo_func, mk_func 1 ''g'' (FuncTy VoidTy [] False) True [] 0],
      m_globals = [], m_named_md = [], m_arch_bits = 64, m_intptr_bits = 64, m_next = 2\<rparr>"

definition at_front :: "ir_func \<Rightarrow> ir_func \<times> nat" where
  "at_front f = (f, case f_blocks f of b # _ \<Rightarrow> (case b_insts b of i # _ \<Rightarrow> i_id i | [] \<Rightarrow> 0) | [] \<Rightarrow> 0)"

lemma get_puts_keeps:
  assumes "get_puts m = Inr (m1, puts)"
  shows "m_funcs m1 = m_funcs m \<or> (\<exists>f. m_funcs m1 = m_funcs m @ [f] \<and> f_id f = m_next m \<and> func_empty f \<and> wf_func f)"
    and "m_globals m1 = m_globals m" and "m_next m \<le> m_next m1"
proof -
  have w: "wf_func (mk_func x nm ty True [] 0)" for x nm ty
    by (simp add: mk_func_def wf_func_def fresh_ids_def func_insts_def)
  have e: "f_id (mk_func x nm ty True [] 0) = x" "func_empty (mk_func x nm ty True [] 0)" for x nm ty
    by (simp_all add: mk_func_def func_empty_def)
  show "m_funcs m1 = m_funcs m \<or> (\<exists>f. m_funcs m1 = m_funcs m @ [f] \<and> f_id f = m_next m \<and> func_empty f \<and> wf_func f)"
    using assms w e unfolding get_puts_def get_or_insert_function_def by (auto split: option.splits if_splits)
  show "m_globals m1 = m_globals m" "m_next m \<le> m_next m1"
    using assms unfolding get_puts_def get_or_insert_function_def by (auto split: option.splits if_splits)
qed

text \<open>
  C18: Every function with a body that may be changed, except \<open>puts\<close>, prints its name where it is entered
  and before every return: the call of \<open>puts\<close> with the entering string stands at the insertion point of the entry block,
  one with the leaving string directly before each return, and nowhere else; the strings are new constant globals with the
  demangled name, and the old instructions stay as they were. Every other function of the module is unchanged.
\<close>

theorem trace_every_entry_and_exit:
  assumes wf: "wf_module m" and below: "globals_below m" and filled: "\<forall>f \<in> set (m_funcs m). traceable f"
    and ok: "prepare_ok prepare" and puts: "get_puts m = Inr (m1, puts)"
  shows "\<exists>m'. function_name_trace prepare demangle m = Inr (m', PA_none) \<and>
    (\<forall>f \<in> set (m_funcs m). if traces puts f then trace_done prepare demangle puts (puts_type m) f m'
       else find_func m' (f_id f) = Some f)"
proof -
  let ?m' = "fst (fold (trace_func prepare demangle puts (puts_type m)) (m_funcs m1) (m1, [], []))"
  note keep = get_puts_keeps[OF puts]
  have new: "m_next m \<notin> set (map f_id (m_funcs m))" using wf by (auto simp: wf_module_def)
  have dist: "distinct (map f_id (m_funcs m1))"
    using keep(1) wf new by (auto simp: wf_module_def simp del: list.set_map)
  have "traceable f" if "f \<in> set (m_funcs m1)" for f
    using keep(1) filled that by (auto simp: traceable_def func_empty_def)
  then have all: "\<forall>f \<in> set (m_funcs m1). traceable f \<and> find_func m1 (f_id f) = Some f \<and> map_of [] (f_id f) = None"
    using at_id_distinct[OF dist] by (simp add: find_func_def)
  have "globals_below m1" using below keep(2,3) by (auto simp: globals_below_def)
  note loop = trace_loop[OF ok dist all this, of demangle puts "puts_type m"]
  have old: "f \<in> set (m_funcs m1)" if "f \<in> set (m_funcs m)" for f using keep(1) that by auto
  have "find_func ?m' (f_id f) = Some f" if f: "f \<in> set (m_funcs m)" "\<not> traces puts f" for f
  proof -
    have "h = f" if "h \<in> set (m_funcs m1)" "f_id h = f_id f" for h using all that old[OF f(1)] by (metis option.inject)
    then have "\<forall>h \<in> set (m_funcs m1). f_id h = f_id f \<longrightarrow> \<not> traces puts h" using f(2) by blast
    then show ?thesis using loop all old[OF f(1)] by simp
  qed
  then show ?thesis
    using loop old by (intro exI[of _ ?m']) (simp add: function_name_trace_def puts)
qed

lemma trace_demo_ok:
  "wf_module trace_demo" "globals_below trace_demo" "\<forall>f \<in> set (m_funcs trace_demo). traceable f"
  "get_puts trace_demo = Inr (trace_demo\<lparr>m_funcs := m_funcs trace_demo @
     [mk_func 2 ''puts'' (puts_type trace_demo) True [] 0], m_next := 3\<rparr>, 2)"
  by (simp_all add: trace_demo_def trace_demo_func_def wf_module_def wf_func_def fresh_ids_def func_insts_def mk_func_def
      mk_block_def globals_below_def traceable_def get_puts_def get_or_insert_function_def)

lemma at_front_ok: "prepare_ok at_front"
  by (auto simp: prepare_ok_def at_front_def neq_Nil_conv)

theorem trace_every_entry_and_exit_witness:
  "\<exists>m' g e l. function_name_trace at_front id trace_demo = Inr (m', PA_none) \<and> find_func m' 0 = Some g \<and>
     string_at m' e (enter_name ''main'') \<and> string_at m' l (exit_name ''main'') \<and>
     traced 2 (puts_type trace_demo) e l 1 trace_demo_func g \<and>
     find_func m' 1 = Some (mk_func 1 ''g'' (FuncTy VoidTy [] False) True [] 0)"
proof -
  obtain m' where m': "function_name_trace at_front id trace_demo = Inr (m', PA_none)"
    "\<forall>f \<in> set (m_funcs trace_demo). if traces 2 f then trace_done at_front id 2 (puts_type trace_demo) f m'
       else find_func m' (f_id f) = Some f"
    using trace_every_entry_and_exit[OF trace_demo_ok(1,2,3) at_front_ok trace_demo_ok(4)] by blast
  have t: "traces 2 trace_demo_func" "\<not> traces 2 (mk_func 1 ''g'' (FuncTy VoidTy [] False) True [] 0)"
    by (simp_all add: traces_def trace_demo_func_def mk_func_def func_empty_def)
  have f: "f_id trace_demo_func = 0" "f_name trace_demo_func = ''main''" "at_front trace_demo_func = (trace_demo_func, 1)"
    by (simp_all add: trace_demo_func_def mk_func_def at_front_def mk_block_def)
  have "trace_done at_front id 2 (puts_type trace_demo) trace_demo_func m'"
    using m'(2) t(1) by (simp add: trace_demo_def)
  moreover have "find_func m' 1 = Some (mk_func 1 ''g'' (FuncTy VoidTy [] False) True [] 0)"
    using m'(2) t(2) by (simp add: trace_demo_def) (simp add: mk_func_def)
  ultimately show ?thesis using m'(1) by (auto simp: trace_done_def f)
qed

end
