(* ===== verification/Promote_Blocks.thy ===== *)
theory Promote_Blocks
  imports Combined_Call Demote_Registers
begin

text \<open>
  \<open>lib/passes/promote-blocks/promote-blocks.cpp\<close>: a module pass that makes functions of blocks. As
  \<open>promote-instructions\<close> it first splits every block at every instruction that may start a block. The
  extraction itself is LLVM's \<open>CodeExtractor\<close>, a parameter.
\<close>

section \<open>The candidates\<close>

definition is_dbg_info :: "ir_value ikind \<Rightarrow> bool" where
  "is_dbg_info k \<longleftrightarrow> is_call k \<and>
     (case called_function k of
        Some (Intrinsic s) \<Rightarrow> s \<in> {''llvm.dbg.declare'', ''llvm.dbg.value'', ''llvm.dbg.addr'', ''llvm.dbg.label''}
      | _ \<Rightarrow> False)"

definition splits_block :: "ir_inst \<Rightarrow> bool" where
  "splits_block inst \<longleftrightarrow>
     \<not> (is_alloca (i_kind inst) \<or> is_phi (i_kind inst) \<or> i_kind inst = CatchPad \<or> i_kind inst = LandingPad
         \<or> is_dbg_info (i_kind inst)) \<and> \<not> is_terminator (i_kind inst)"

text \<open>\<open>instBlockMap\<close>, in the order in which the instructions are collected in \<open>insts\<close>.\<close>

definition split_name :: "ir_block \<Rightarrow> string" where
  "split_name b = (if b_name b = [] then ''split'' else b_name b)"

definition inst_block_map :: "ir_func \<Rightarrow> (nat \<times> string) list" where
  "inst_block_map f =
     concat (map (\<lambda>b. map (\<lambda>i. (i_id i, split_name b)) (filter splits_block (b_insts b))) (f_blocks f))"

text \<open>\<open>split\<close> stands for \<open>llvm::SplitBlock\<close>.\<close>

definition split_at_inst :: "block_split \<Rightarrow> nat \<times> string \<Rightarrow> ir_func \<times> nat list \<Rightarrow> (ir_func \<times> nat list) res" where
  "split_at_inst split inst st =
     (case st of (f, blocksToPromote) \<Rightarrow>
       rmap (\<lambda>b. case split (b_id b) (fst inst) (snd inst) f of (g, r) \<Rightarrow> (g, blocksToPromote @ [r]))
         (deref (parent_block f (fst inst))))"

text \<open>\<open>prepare\<close> stands for \<open>PrepareToSplitEntryBlock\<close> at the front of the entry block.\<close>

definition func_candidates_to_promote ::
  "bool \<Rightarrow> (ir_func \<Rightarrow> ir_func) \<Rightarrow> block_split \<Rightarrow> ir_func \<Rightarrow> (ir_func \<times> nat list) res" where
  "func_candidates_to_promote perInstruction prepare split func =
     (if f_optnone func \<or> func_empty func \<or> is_declaration func then Inr (func, [])
      else if \<not> perInstruction then Inr (func, map b_id (f_blocks func))
      else let f = prepare func in rfold (split_at_inst split) (inst_block_map f) (f, []))"

type_synonym block_ref = "nat \<times> nat"   \<comment> \<open>a function and one of its blocks\<close>

definition collect_blocks ::
  "bool \<Rightarrow> (ir_func \<Rightarrow> ir_func) \<Rightarrow> block_split \<Rightarrow> ir_func \<Rightarrow> ir_module \<times> block_ref list \<Rightarrow> (ir_module \<times> block_ref list) res" where
  "collect_blocks perInstruction prepare split func st =
     rmap (\<lambda>(f, bs). (upd_func (f_id func) (\<lambda>_. f) (fst st), snd st @ map (Pair (f_id func)) bs))
       (func_candidates_to_promote perInstruction prepare split func)"

section \<open>The extraction\<close>

record promote_stats =
  NumPromotedBlocks :: nat
  NumCandidateBlocks :: nat
  NumIneligleBlocks :: nat
  NumFailedBlocks :: nat

text \<open>What the code asks of a \<open>CodeExtractor\<close> for one block: the types of the inputs, in their order, whether the
  block is eligible, and the extraction, with the new function or a null pointer.\<close>

record code_extractor =
  x_inputs :: "ir_module \<Rightarrow> block_ref \<Rightarrow> ir_type list"
  x_eligible :: "ir_module \<Rightarrow> block_ref \<Rightarrow> bool"
  x_extract :: "ir_module \<Rightarrow> block_ref \<Rightarrow> ir_module \<times> nat option"

fun is_first_class :: "ir_type \<Rightarrow> bool" where
  "is_first_class VoidTy = False"
| "is_first_class (FuncTy r as v) = False"
| "is_first_class t = True"

definition unsupported_input :: "ir_type \<Rightarrow> bool" where
  "unsupported_input t \<longleftrightarrow> \<not> is_first_class t \<or> t = MetadataTy \<or> t = TokenTy"

definition count_ineligible :: "promote_stats \<Rightarrow> promote_stats" where
  "count_ineligible st = st\<lparr>NumIneligleBlocks := Suc (NumIneligleBlocks st)\<rparr>"

text \<open>The loop over the inputs: its \<open>continue\<close> goes on with the next input.\<close>

definition check_inputs :: "ir_type list \<Rightarrow> promote_stats \<Rightarrow> promote_stats" where
  "check_inputs ts st = fold (\<lambda>inputType st. if unsupported_input inputType then count_ineligible st else st) ts st"

definition block_at :: "ir_module \<Rightarrow> block_ref \<Rightarrow> ir_block res" where
  "block_at m r = rbind (deref (find_func m (fst r))) (\<lambda>f. deref (find_block f (snd r)))"

definition pad_block :: "ir_block \<Rightarrow> bool res" where
  "pad_block b = rmap (\<lambda>i. is_eh_pad (i_kind i) \<or> i_kind i = LandingPad) (deref (first_non_phi b))"

definition promote_block ::
  "code_extractor \<Rightarrow> block_ref \<Rightarrow> ir_module \<times> promote_stats \<Rightarrow> (ir_module \<times> promote_stats) res" where
  "promote_block x r s =
     (case s of (m, st) \<Rightarrow>
       rbind (block_at m r) (\<lambda>block.
       rbind (pad_block block) (\<lambda>pad.
         if pad then Inr (m, count_ineligible st)
         else
           let st1 = check_inputs (x_inputs x m r) st in
           if \<not> x_eligible x m r then Inr (m, count_ineligible st1)
           else
             (case x_extract x m r of
                (m', None) \<Rightarrow> Inr (m', st1\<lparr>NumFailedBlocks := Suc (NumFailedBlocks st1)\<rparr>)
              | (m', Some promotedBlockFunc) \<Rightarrow> Inr (m', st1\<lparr>NumPromotedBlocks := Suc (NumPromotedBlocks st1)\<rparr>)))))"

text \<open>The statistics are variables of the process, which a run starts with.\<close>

definition promote_blocks ::
  "bool \<Rightarrow> (ir_func \<Rightarrow> ir_func) \<Rightarrow> block_split \<Rightarrow> code_extractor \<Rightarrow> ir_module \<Rightarrow> promote_stats
     \<Rightarrow> (ir_module \<times> promote_stats \<times> preserved_analyses) res" where
  "promote_blocks perInstruction prepare split x m st =
     rbind (rfold (collect_blocks perInstruction prepare split) (m_funcs m) (m, [])) (\<lambda>(m1, blocksToPromote).
       rmap (\<lambda>(m2, st2). (m2, st2, PA_none))
         (rfold (promote_block x) blocksToPromote (m1, st\<lparr>NumCandidateBlocks := length blocksToPromote\<rparr>)))"

section \<open>Splitting at every instruction\<close>

text \<open>
  What the code relies on of \<open>SplitBlock\<close>: what \<open>split_ok\<close> says of \<open>splitBasicBlock\<close>, at instructions that it
  does not skip, which are all but \<open>phi\<close> nodes and pads.
\<close>

definition block_split_ok :: "block_split \<Rightarrow> bool" where
  "block_split_ok split \<longleftrightarrow>
     (\<forall>f ys blk zs pre i post nm. wf_func f \<longrightarrow> f_blocks f = ys @ blk # zs \<longrightarrow> b_insts blk = pre @ i # post \<longrightarrow>
        \<not> is_phi (i_kind i) \<longrightarrow> \<not> is_eh_pad (i_kind i) \<longrightarrow>
        (\<exists>g r br h nm'. split (b_id blk) (i_id i) nm f = (g, r) \<and> renames_phis h \<and> i_kind br = Br r
           \<and> wf_func g \<and> f_id g = f_id f \<and> f_next f \<le> f_next g \<and> f_next f \<le> r \<and> f_next f \<le> i_id br
           \<and> f_blocks g = map (on_insts (map h)) ys @ blk\<lparr>b_insts := map h pre @ [br]\<rparr>
               # \<lparr>b_id = r, b_name = nm', b_insts = map h (i # post)\<rparr> # map (on_insts (map h)) zs))"

lemma split_ok_block_split: "split_ok split \<Longrightarrow> block_split_ok split"
  unfolding split_ok_def block_split_ok_def by meson

lemma renames_phis_id: "renames_phis (\<lambda>i. i)"
  by (simp add: renames_phis_def)

text \<open>The block of a function that starts with an instruction.\<close>

definition starts_block :: "ir_func \<Rightarrow> nat \<Rightarrow> nat \<Rightarrow> bool" where
  "starts_block g x c \<longleftrightarrow> (\<exists>b \<in> set (f_blocks g). b_id b = c \<and> b_insts b \<noteq> [] \<and> i_id (hd (b_insts b)) = x)"

text \<open>Between two splits: \<open>f\<close> is the function before the first one, \<open>xs\<close> are the instructions it was split at.\<close>

definition splitting :: "ir_func \<Rightarrow> ir_func \<Rightarrow> nat list \<Rightarrow> nat list \<Rightarrow> bool" where
  "splitting f g xs cs \<longleftrightarrow> wf_func g \<and> f_next f \<le> f_next g \<and> list_all2 (starts_block g) xs cs
     \<and> (\<exists>h. renames_phis h \<and> filter (\<lambda>i. i_id i < f_next f) (func_insts g) = map h (func_insts f))
     \<and> (\<forall>i \<in> set (func_insts g). f_next f \<le> i_id i \<longrightarrow> is_terminator (i_kind i))"

lemma splitting_start: "wf_func f \<Longrightarrow> splitting f f [] []"
  using renames_phis_id by (auto simp: splitting_def wf_func_def fresh_ids_def intro!: exI[of _ "\<lambda>i. i"])

lemma splitting_old:
  assumes "splitting f g xs cs" and "i \<in> set (func_insts g)" and "i_id i < f_next f" and "\<not> is_phi (i_kind i)"
  shows "i \<in> set (func_insts f)"
proof -
  obtain h where h: "renames_phis h" "filter (\<lambda>i. i_id i < f_next f) (func_insts g) = map h (func_insts f)"
    using assms(1) by (auto simp: splitting_def)
  have "i \<in> set (map h (func_insts f))" using assms(2,3) unfolding h(2)[symmetric] by simp
  then obtain j where j: "j \<in> set (func_insts f)" "i = h j" by auto
  have "\<not> is_phi (i_kind j)" using h(1) assms(4) by (simp add: j(2) renames_phis_def)
  then have "h j = j" using h(1) by (simp add: renames_phis_def)
  with j show ?thesis by simp
qed

lemma splitting_keeps:
  assumes "splitting f g xs cs" and "i \<in> set (func_insts f)" and "\<not> is_phi (i_kind i)"
  shows "i \<in> set (func_insts g)"
proof -
  obtain h where h: "renames_phis h" "filter (\<lambda>i. i_id i < f_next f) (func_insts g) = map h (func_insts f)"
    using assms(1) by (auto simp: splitting_def)
  have "h i = i" using h(1) assms(3) by (simp add: renames_phis_def)
  with assms(2) have "i \<in> set (map h (func_insts f))" by force
  then show ?thesis unfolding h(2)[symmetric] by simp
qed

lemma parent_block_exists:
  assumes "i \<in> set (func_insts f)"
  shows "\<exists>b. parent_block f (i_id i) = Some b"
proof -
  obtain b where "b \<in> set (f_blocks f)" "i \<in> set (b_insts b)" using assms by (auto simp: func_insts_def)
  then have "parent_block f (i_id i) \<noteq> None" unfolding parent_block_def find_None_iff by auto
  then show ?thesis by blast
qed

lemma cut_insts:
  assumes "f_blocks f = ys @ blk # zs" and "b_insts blk = pre @ i # post"
    and "f_blocks g = map (on_insts (map h)) ys @ blk\<lparr>b_insts := map h pre @ [br]\<rparr>
      # \<lparr>b_id = r, b_name = nm, b_insts = map h (i # post)\<rparr> # map (on_insts (map h)) zs"
  shows "\<exists>A B. func_insts f = A @ B \<and> func_insts g = map h A @ br # map h B"
proof (intro exI conjI)
  show "func_insts f = (concat (map b_insts ys) @ pre) @ i # post @ concat (map b_insts zs)"
    by (simp add: func_insts_def assms(1,2))
  have "concat (map (b_insts \<circ> on_insts (map h)) bs) = map h (concat (map b_insts bs))" for bs :: "ir_block list"
    by (simp add: map_concat comp_def)
  then show "func_insts g = map h (concat (map b_insts ys) @ pre) @ br # map h (i # post @ concat (map b_insts zs))"
    by (simp add: func_insts_def assms(3))
qed

lemma starts_block_split:
  assumes "f_blocks f = ys @ blk # zs" and "b_insts blk = pre @ i # post" and h: "renames_phis h"
    and "f_blocks g = map (on_insts (map h)) ys @ blk\<lparr>b_insts := map h pre @ [br]\<rparr>
      # \<lparr>b_id = r, b_name = nm, b_insts = map h (i # post)\<rparr> # map (on_insts (map h)) zs"
    and "starts_block f x c" and "x \<noteq> i_id i"
  shows "starts_block g x c"
proof -
  have id: "i_id (h j) = i_id j" for j using h by (simp add: renames_phis_simps)
  have hd: "hd (map h is) = h (hd is)" if "is \<noteq> []" for "is" by (rule list.map_sel(1)[OF that])
  obtain b where b: "b \<in> set (f_blocks f)" "b_id b = c" "b_insts b \<noteq> []" "i_id (hd (b_insts b)) = x"
    using assms(5) by (auto simp: starts_block_def)
  show ?thesis
  proof (cases "b = blk")
    case False
    then have "on_insts (map h) b \<in> set (f_blocks g)" using b(1) by (auto simp: assms(1,4))
    with b(2-4) show ?thesis unfolding starts_block_def
      by (intro bexI[of _ "on_insts (map h) b"]) (simp_all add: hd id)
  next
    case True
    then have "pre \<noteq> []" using b(4) assms(2,6) by (cases pre) auto
    then have "i_id (hd (map h pre @ [br])) = x" using b(4) True by (simp add: assms(2) hd id)
    with b(2) True show ?thesis unfolding starts_block_def
      by (intro bexI[of _ "blk\<lparr>b_insts := map h pre @ [br]\<rparr>"]) (simp_all add: assms(4))
  qed
qed

lemma split_step:
  assumes split: "block_split_ok split" and inv: "splitting f g xs cs"
    and i: "i \<in> set (func_insts f)" "splits_block i" "i_kind i \<noteq> CleanupPad" "i_id i \<notin> set xs"
  shows "\<exists>g' r. split_at_inst split (i_id i, nm) (g, cs) = Inr (g', cs @ [r]) \<and> splitting f g' (xs @ [i_id i]) (cs @ [r])"
proof -
  have wf: "wf_func g" and le: "f_next f \<le> f_next g" using inv by (simp_all add: splitting_def)
  have kind: "\<not> is_phi (i_kind i)" "\<not> is_eh_pad (i_kind i)"
    using i(2,3) by (auto simp: splits_block_def elim: is_eh_pad.elims)
  have ig: "i \<in> set (func_insts g)" by (rule splitting_keeps[OF inv i(1) kind(1)])
  obtain blk where blk: "parent_block g (i_id i) = Some blk" using parent_block_exists[OF ig] by blast
  obtain j where j: "j \<in> set (b_insts blk)" "i_id j = i_id i" "blk \<in> set (f_blocks g)"
    using parent_block_Some[OF blk] by auto
  have "j = i" using find_inst_member[OF wf ig] find_inst_parent[OF wf blk j(1)] j(2) by simp
  with j(1) obtain pre post where insts: "b_insts blk = pre @ i # post" by (meson split_list)
  obtain ys zs where layout: "f_blocks g = ys @ blk # zs" using j(3) by (meson split_list)
  obtain g' r br h nm' where g': "split (b_id blk) (i_id i) nm g = (g', r)" "renames_phis h" "i_kind br = Br r" "wf_func g'"
    "f_next g \<le> f_next g'" "f_next g \<le> r" "f_next g \<le> i_id br"
    "f_blocks g' = map (on_insts (map h)) ys @ blk\<lparr>b_insts := map h pre @ [br]\<rparr>
       # \<lparr>b_id = r, b_name = nm', b_insts = map h (i # post)\<rparr> # map (on_insts (map h)) zs"
    using split[unfolded block_split_ok_def, rule_format, OF wf layout insts kind] by metis
  have id: "i_id (h j) = i_id j" and same: "\<not> is_phi (i_kind j) \<Longrightarrow> h j = j" for j
    using g'(2) by (simp_all add: renames_phis_simps)
  obtain A B where AB: "func_insts g = A @ B" "func_insts g' = map h A @ br # map h B"
    using cut_insts[OF layout insts g'(8)] by blast
  have "list_all2 (starts_block g') xs cs"
    using inv i(4) starts_block_split[OF layout insts g'(2,8)] unfolding splitting_def
    by (auto elim!: list_all2_mono_set)
  moreover have "starts_block g' (i_id i) r"
    unfolding starts_block_def g'(8) by (simp add: id)
  ultimately have heads: "list_all2 (starts_block g') (xs @ [i_id i]) (cs @ [r])" by (simp add: list_all2_appendI)
  obtain h0 where h0: "renames_phis h0" "filter (\<lambda>i. i_id i < f_next f) (func_insts g) = map h0 (func_insts f)"
    using inv by (auto simp: splitting_def)
  have "filter (\<lambda>i. i_id i < f_next f) (func_insts g') = map h (filter (\<lambda>i. i_id i < f_next f) (func_insts g))"
    using g'(7) le by (simp add: AB filter_map comp_def id)
  then have old: "filter (\<lambda>i. i_id i < f_next f) (func_insts g') = map (h \<circ> h0) (func_insts f)" by (simp add: h0(2))
  have new: "is_terminator (i_kind k)" if k: "k \<in> set (func_insts g')" "f_next f \<le> i_id k" for k
  proof (cases "k = br")
    case True
    then show ?thesis by (simp add: g'(3))
  next
    case False
    then obtain k0 where k0: "k0 \<in> set (func_insts g)" "k = h k0" using k(1) by (auto simp: AB)
    then have "is_terminator (i_kind k0)" using inv k(2) by (simp add: splitting_def id)
    then have "h k0 = k0" by (intro same) (auto elim: is_phi.elims)
    with k0 \<open>is_terminator (i_kind k0)\<close> show ?thesis by simp
  qed
  have "split_at_inst split (i_id i, nm) (g, cs) = Inr (g', cs @ [r])"
    by (simp add: split_at_inst_def blk g'(1) deref_def)
  moreover have "splitting f g' (xs @ [i_id i]) (cs @ [r])"
    unfolding splitting_def using g'(4,5) le heads renames_phis_comp[OF g'(2) h0(1)] old new by (meson order_trans)
  ultimately show ?thesis by blast
qed

lemma cut_loop:
  assumes split: "block_split_ok split"
  shows "splitting f g xs cs \<Longrightarrow>
    (\<forall>p \<in> set ps. \<exists>i \<in> set (func_insts f). i_id i = fst p \<and> splits_block i \<and> i_kind i \<noteq> CleanupPad) \<Longrightarrow>
    distinct (xs @ map fst ps) \<Longrightarrow>
    \<exists>g' cs'. rfold (split_at_inst split) ps (g, cs) = Inr (g', cs') \<and> splitting f g' (xs @ map fst ps) cs'"
proof (induction ps arbitrary: g xs cs)
  case (Cons p ps)
  obtain i where i: "i \<in> set (func_insts f)" "i_id i = fst p" "splits_block i" "i_kind i \<noteq> CleanupPad"
    using Cons.prems(2) by auto
  have "i_id i \<notin> set xs" using Cons.prems(3) i(2) by auto
  from split_step[OF split Cons.prems(1) i(1,3,4) this, of "snd p"] obtain g' r where
    s: "split_at_inst split p (g, cs) = Inr (g', cs @ [r])" "splitting f g' (xs @ [fst p]) (cs @ [r])"
    by (auto simp: i(2))
  from Cons.IH[OF s(2)] Cons.prems(2,3) show ?case by (simp add: s(1))
qed auto

lemma set_inst_block_map: "fst ` set (inst_block_map f) = i_id ` set (filter splits_block (func_insts f))"
  by (force simp: inst_block_map_def func_insts_def)

lemma map_fst_inst_block_map: "map fst (inst_block_map f) = map i_id (filter splits_block (func_insts f))"
  by (simp add: inst_block_map_def func_insts_def map_concat filter_concat comp_def)

lemma starts_block_rest:
  assumes inv: "splitting f g (map i_id (filter splits_block (func_insts f))) cs"
    and b: "b \<in> set (f_blocks g)" "j \<in> set (tl (b_insts b))"
  shows "\<not> splits_block j"
proof
  assume sj: "splits_block j"
  have wf: "wf_func g" using inv by (simp add: splitting_def)
  have jb: "j \<in> set (b_insts b)" using b(2) by (cases "b_insts b") auto
  have jg: "j \<in> set (func_insts g)" by (rule block_inst_func[OF b(1) jb])
  have "\<not> is_terminator (i_kind j)" "\<not> is_phi (i_kind j)" using sj by (simp_all add: splits_block_def)
  then have "j \<in> set (func_insts f)" using inv jg splitting_old[OF inv jg] by (auto simp: splitting_def)
  then have "i_id j \<in> set (map i_id (filter splits_block (func_insts f)))" using sj by simp
  then obtain c where "starts_block g (i_id j) c"
    using inv list_all2_image unfolding splitting_def by metis
  then obtain b' where b': "b' \<in> set (f_blocks g)" "b_insts b' \<noteq> []" "i_id (hd (b_insts b')) = i_id j"
    by (auto simp: starts_block_def)
  have hb: "hd (b_insts b') \<in> set (b_insts b')" using b'(2) by simp
  have "b = b'"
  proof (rule ccontr)
    assume "b \<noteq> b'"
    obtain ys zs where layout: "f_blocks g = ys @ b # zs" using b(1) by (meson split_list)
    then have "b' \<in> set ys \<union> set zs" using b'(1) \<open>b \<noteq> b'\<close> by auto
    from layout_ids(3)[OF wf layout _ this, of "i_id j"] jb hb b'(3) show False by (metis image_eqI)
  qed
  then have "i_id (hd (b_insts b)) \<in> set (map i_id (tl (b_insts b)))" using b(2) b'(3) by simp
  moreover have "distinct (map i_id (b_insts b))" by (rule block_insts_distinct[OF wf b(1)])
  ultimately show False by (cases "b_insts b") auto
qed


section \<open>The extraction and its statistics\<close>

lemma check_inputs_stats:
  "NumIneligleBlocks (check_inputs ts st) = NumIneligleBlocks st + length (filter unsupported_input ts)"
  "NumPromotedBlocks (check_inputs ts st) = NumPromotedBlocks st" "NumFailedBlocks (check_inputs ts st) = NumFailedBlocks st"
  "NumCandidateBlocks (check_inputs ts st) = NumCandidateBlocks st"
  by (induction ts arbitrary: st) (simp_all add: check_inputs_def count_ineligible_def)

text \<open>All but the number of ineligible blocks.\<close>

definition other_stats :: "promote_stats \<Rightarrow> promote_stats" where
  "other_stats st = st\<lparr>NumIneligleBlocks := 0\<rparr>"

lemma other_stats_eq:
  "other_stats st = other_stats st' \<longleftrightarrow> NumPromotedBlocks st = NumPromotedBlocks st' \<and>
     NumCandidateBlocks st = NumCandidateBlocks st' \<and> NumFailedBlocks st = NumFailedBlocks st'"
  by (cases st; cases st') (simp add: other_stats_def)

lemma promote_block_inputs:
  assumes "fst s = fst t" and "other_stats (snd s) = other_stats (snd t)"
  shows "rmap (map_prod id other_stats) (promote_block x r s) = rmap (map_prod id other_stats) (promote_block (x\<lparr>x_inputs := ins\<rparr>) r t)"
proof -
  obtain m a b where s: "s = (m, a)" "t = (m, b)" using assms(1) by (metis prod.collapse)
  have ab: "NumPromotedBlocks a = NumPromotedBlocks b" "NumCandidateBlocks a = NumCandidateBlocks b" "NumFailedBlocks a = NumFailedBlocks b"
    using assms(2) by (simp_all add: s other_stats_eq)
  show ?thesis
  proof (cases "rbind (block_at m r) pad_block")
    case (Inl e)
    then show ?thesis
      by (cases "block_at m r") (simp_all add: promote_block_def s)
  next
    case (Inr pad)
    then obtain blk where "block_at m r = Inr blk" "pad_block blk = Inr pad" by auto
    then show ?thesis
      by (simp add: promote_block_def s ab other_stats_eq check_inputs_stats count_ineligible_def Let_def
          split: prod.split option.split)
  qed
qed

text \<open>
  C23: The inputs of a block never keep it from being extracted: with any other inputs the run gives the same
  module, promotes and fails as often, and stops at the same failures; only the number of ineligible
  blocks depends on them.
\<close>

theorem promote_ignores_inputs:
  "rmap (\<lambda>(m', st', pa). (m', other_stats st', pa)) (promote_blocks perInstruction prepare split x m st) =
   rmap (\<lambda>(m', st', pa). (m', other_stats st', pa)) (promote_blocks perInstruction prepare split (x\<lparr>x_inputs := ins\<rparr>) m st)"
proof -
  have loop: "fst s = fst t \<Longrightarrow> other_stats (snd s) = other_stats (snd t) \<Longrightarrow>
      rmap (map_prod id other_stats) (rfold (promote_block x) bs s) =
      rmap (map_prod id other_stats) (rfold (promote_block (x\<lparr>x_inputs := ins\<rparr>)) bs t)" for bs s t
  proof (induction bs arbitrary: s t)
    case (Cons r bs)
    note step = promote_block_inputs[OF Cons.prems, of x r ins]
    show ?case
    proof (cases "promote_block x r s")
      case (Inl e)
      with step[symmetric] show ?thesis by simp
    next
      case (Inr s1)
      with step[symmetric] obtain t1 where t1: "promote_block (x\<lparr>x_inputs := ins\<rparr>) r t = Inr t1"
        "fst s1 = fst t1" "other_stats (snd s1) = other_stats (snd t1)"
        by (auto simp: map_prod_def split: prod.splits)
      from Cons.IH[OF t1(2,3)] show ?thesis by (simp add: Inr t1(1))
    qed
  next
    case Nil
    then show ?case by (cases s; cases t) simp
  qed
  show ?thesis
  proof (cases "rfold (collect_blocks perInstruction prepare split) (m_funcs m) (m, [])")
    case (Inr c)
    then obtain m1 bs where c: "rfold (collect_blocks perInstruction prepare split) (m_funcs m) (m, []) = Inr (m1, bs)"
      by (cases c) auto
    let ?s = "(m1, st\<lparr>NumCandidateBlocks := length bs\<rparr>)"
    from loop[of ?s ?s bs] show ?thesis
      by (cases "rfold (promote_block x) bs ?s"; cases "rfold (promote_block (x\<lparr>x_inputs := ins\<rparr>)) bs ?s")
        (auto simp: promote_blocks_def c)
  qed (simp add: promote_blocks_def)
qed

text \<open>How often the loop over the inputs counts a block, and the sum of the three counts.\<close>

definition extra_counts :: "code_extractor \<Rightarrow> ir_module \<Rightarrow> block_ref \<Rightarrow> nat" where
  "extra_counts x m r =
     (if rbind (block_at m r) pad_block = Inr False then length (filter unsupported_input (x_inputs x m r)) else 0)"

definition total_count :: "promote_stats \<Rightarrow> nat" where
  "total_count st = NumPromotedBlocks st + NumIneligleBlocks st + NumFailedBlocks st"

lemma promote_block_count:
  assumes "promote_block x r (m, st) = Inr (m', st')"
  shows "total_count st' = Suc (total_count st + extra_counts x m r)" "NumCandidateBlocks st' = NumCandidateBlocks st"
proof -
  obtain blk pad where b: "block_at m r = Inr blk" "pad_block blk = Inr pad"
    using assms by (auto simp: promote_block_def)
  show "total_count st' = Suc (total_count st + extra_counts x m r)" "NumCandidateBlocks st' = NumCandidateBlocks st"
    using assms by (auto simp: promote_block_def b total_count_def extra_counts_def Let_def check_inputs_stats count_ineligible_def
        split: if_splits prod.splits option.splits)
qed

text \<open>A run of the loop, with the module before every block.\<close>

definition promote_run :: "code_extractor \<Rightarrow> ir_module list \<Rightarrow> block_ref list \<Rightarrow> bool" where
  "promote_run x ms bs \<longleftrightarrow> length ms = Suc (length bs) \<and>
     (\<forall>k < length bs. \<exists>s s'. promote_block x (bs ! k) (ms ! k, s) = Inr (ms ! Suc k, s'))"

lemma promote_loop_count:
  "rfold (promote_block x) bs (m, st) = Inr (m', st') \<Longrightarrow>
   \<exists>ms. promote_run x ms bs \<and> ms ! 0 = m \<and> last ms = m' \<and> NumCandidateBlocks st' = NumCandidateBlocks st \<and>
     total_count st' = total_count st + length bs + sum_list (map (\<lambda>k. extra_counts x (ms ! k) (bs ! k)) [0..<length bs])"
proof (induction bs arbitrary: m st)
  case Nil
  then show ?case by (intro exI[of _ "[m]"]) (simp add: promote_run_def)
next
  case (Cons r bs)
  obtain m1 st1 where s: "promote_block x r (m, st) = Inr (m1, st1)" "rfold (promote_block x) bs (m1, st1) = Inr (m', st')"
    using Cons.prems by auto
  obtain ms where ms: "promote_run x ms bs" "ms ! 0 = m1" "last ms = m'" "NumCandidateBlocks st' = NumCandidateBlocks st1"
    "total_count st' = total_count st1 + length bs + sum_list (map (\<lambda>k. extra_counts x (ms ! k) (bs ! k)) [0..<length bs])"
    using Cons.IH[OF s(2)] by blast
  have "promote_run x (m # ms) (r # bs)"
    using ms(1,2) s(1) unfolding promote_run_def by (auto simp: nth_Cons split: nat.split)
  moreover have "last (m # ms) = m'" using ms(1,3) by (auto simp: promote_run_def)
  moreover have "map (\<lambda>k. extra_counts x ((m # ms) ! k) ((r # bs) ! k)) [0..<length (r # bs)] =
      extra_counts x m r # map (\<lambda>k. extra_counts x (ms ! k) (bs ! k)) [0..<length bs]"
    by (simp add: upt_conv_Cons map_Suc_upt[symmetric] comp_def del: upt_Suc)
  ultimately show ?case
    using ms(4,5) promote_block_count[OF s(1)] by (intro exI[of _ "m # ms"]) simp
qed

text \<open>
  C24: The statistics of a run: the candidates are counted once, and the promoted, ineligible and failed blocks
  together grow by the number of candidates, plus one for each input of an unsupported type of a block
  that is no pad. A block with such inputs is counted several times, as ineligible and as what then
  becomes of it.
\<close>

theorem promote_statistics:
  assumes "promote_blocks perInstruction prepare split x m st = Inr (m', st', pa)"
  shows "\<exists>m1 bs ms. rfold (collect_blocks perInstruction prepare split) (m_funcs m) (m, []) = Inr (m1, bs) \<and>
    promote_run x ms bs \<and> ms ! 0 = m1 \<and> last ms = m' \<and> NumCandidateBlocks st' = length bs \<and>
    total_count st' = total_count st + length bs + sum_list (map (\<lambda>k. extra_counts x (ms ! k) (bs ! k)) [0..<length bs])"
proof -
  obtain m1 bs where c: "rfold (collect_blocks perInstruction prepare split) (m_funcs m) (m, []) = Inr (m1, bs)"
    "rfold (promote_block x) bs (m1, st\<lparr>NumCandidateBlocks := length bs\<rparr>) = Inr (m', st')"
    using assms by (auto simp: promote_blocks_def)
  have "total_count (st\<lparr>NumCandidateBlocks := length bs\<rparr>) = total_count st" by (simp add: total_count_def)
  with promote_loop_count[OF c(2)] c(1) show ?thesis by auto
qed

section \<open>An example\<close>

definition promo_func :: ir_func where
  "promo_func = mk_func 0 ''f'' (FuncTy VoidTy [] False) True
     [mk_block 0 [demo_inst 1 (Alloca (IntTy 32)), demo_inst 2 (Store (ConstInt (CInt 32 5)) (InstVal 1)), demo_inst 3 (Br 10)],
      mk_block 10 [demo_inst 11 (PHI [(ConstInt (CInt 32 7), 0)]), demo_inst 12 (Load (InstVal 1)), demo_inst 13 (Ret None)]] 20"

definition promo_module :: ir_module where
  "promo_module = \<lparr>m_funcs = [promo_func], m_globals = [], m_named_md = [], m_arch_bits = 64, m_intptr_bits = 64, m_next = 1\<rparr>"

text \<open>An extractor that copies the block to a new function, with an input of a type that cannot be passed.\<close>

definition copy_block :: code_extractor where
  "copy_block =
     \<lparr>x_inputs = (\<lambda>m r. [IntTy 32, TokenTy]), x_eligible = (\<lambda>m r. True),
      x_extract = (\<lambda>m r. case block_at m r of
         Inl e \<Rightarrow> (m, None)
       | Inr b \<Rightarrow> (m\<lparr>m_funcs := m_funcs m @ [mk_func (m_next m) ''outlined'' (FuncTy VoidTy [] False) False [b] 20],
                    m_next := Suc (m_next m)\<rparr>, Some (m_next m)))\<rparr>"

definition no_stats :: promote_stats where
  "no_stats = \<lparr>NumPromotedBlocks = 0, NumCandidateBlocks = 0, NumIneligleBlocks = 0, NumFailedBlocks = 0\<rparr>"

lemmas promo_eval = promo_module_def promo_func_def mk_func_def mk_block_def demo_inst_def mk_inst_def

lemma promo_run:
  "\<exists>m'. promote_blocks False id cut_block copy_block promo_module no_stats =
     Inr (m', \<lparr>NumPromotedBlocks = 2, NumCandidateBlocks = 2, NumIneligleBlocks = 2, NumFailedBlocks = 0\<rparr>, PA_none)"
  by (simp add: promote_blocks_def collect_blocks_def func_candidates_to_promote_def promo_eval is_declaration_def
      func_empty_def upd_func_def promote_block_def block_at_def find_func_def find_block_def deref_def pad_block_def
      first_non_phi_def copy_block_def check_inputs_def unsupported_input_def count_ineligible_def no_stats_def Let_def)

theorem promote_statistics_witness:
  "\<exists>m' m1 bs ms. promote_blocks False id cut_block copy_block promo_module no_stats =
     Inr (m', \<lparr>NumPromotedBlocks = 2, NumCandidateBlocks = 2, NumIneligleBlocks = 2, NumFailedBlocks = 0\<rparr>, PA_none) \<and>
     rfold (collect_blocks False id cut_block) (m_funcs promo_module) (promo_module, []) = Inr (m1, bs) \<and>
     promote_run copy_block ms bs \<and> length bs = 2 \<and>
     4 = 2 + sum_list (map (\<lambda>k. extra_counts copy_block (ms ! k) (bs ! k)) [0..<length bs])"
proof -
  obtain m' where run: "promote_blocks False id cut_block copy_block promo_module no_stats =
     Inr (m', \<lparr>NumPromotedBlocks = 2, NumCandidateBlocks = 2, NumIneligleBlocks = 2, NumFailedBlocks = 0\<rparr>, PA_none)"
    using promo_run by blast
  from promote_statistics[OF run] run show ?thesis
    by (auto simp: total_count_def no_stats_def)
qed

lemma promo_func_ok:
  "\<not> f_optnone promo_func" "\<not> func_empty promo_func" "wf_func (id promo_func)"
  "\<forall>i \<in> set (func_insts (id promo_func)). i_kind i \<noteq> CleanupPad"
  "map i_id (filter splits_block (func_insts promo_func)) = [2, 12]"
  by (simp_all add: promo_eval func_empty_def wf_func_def fresh_ids_def func_insts_def splits_block_def is_dbg_info_def)


end
