(* ===== verification/Pass_Pipeline.thy ===== *)
theory Pass_Pipeline
  imports Fuse_Functions
begin

text \<open>
  \<open>lib/support/pass-pipeline.cpp\<close>, which runs a pipeline of passes given by its text, and the plugin entry
  points that give the passes of the repository their names. The \<open>PassBuilder\<close>, which parses a text and
  asks the plugins, and the pass managers, which run the passes, are LLVM's and parameters.
\<close>

section \<open>The plugins\<close>

text \<open>The passes that are added to a pass manager: those of the repository, and LLVM's by their names.\<close>

datatype ir_pass =
    BreakpointNetPass | DemoteRegistersPass | FunctionNameTracePass | FuseFunctionsPass bool
  | PachinkoCallsPass | PromoteBlocksPass bool | ResizeMallocPass | StackToGlobalPass
  | LLVMPass string

text \<open>A callback gets a name and a pass manager, adds passes to it, and returns whether it knows the name.\<close>

type_synonym pipeline_parser = "string \<Rightarrow> ir_pass list \<Rightarrow> ir_pass list \<times> bool"

definition breakpoint_net_plugin :: pipeline_parser where
  "breakpoint_net_plugin name fpm =
     (if name = ''breakpoint-net'' then (fpm @ [BreakpointNetPass], True) else (fpm, False))"

definition demote_registers_plugin :: pipeline_parser where
  "demote_registers_plugin name fpm =
     (if name = ''demote-registers'' then (fpm @ [DemoteRegistersPass], True) else (fpm, False))"

definition stack_to_global_plugin :: pipeline_parser where
  "stack_to_global_plugin name fpm =
     (if name = ''stack-to-global'' then (fpm @ [StackToGlobalPass], True) else (fpm, False))"

definition resize_malloc_plugin :: pipeline_parser where
  "resize_malloc_plugin name fpm =
     (if name = ''resize-malloc''
      then (((fpm @ [LLVMPass ''sccp'']) @ [LLVMPass ''adce'']) @ [ResizeMallocPass], True) else (fpm, False))"

definition function_name_trace_plugin :: pipeline_parser where
  "function_name_trace_plugin name mpm =
     (if name = ''function-name-trace'' then (mpm @ [FunctionNameTracePass], True) else (mpm, False))"

definition pachinko_calls_plugin :: pipeline_parser where
  "pachinko_calls_plugin name mpm =
     (if name = ''pachinko-calls'' then (mpm @ [PachinkoCallsPass], True) else (mpm, False))"

definition promote_blocks_plugin :: pipeline_parser where
  "promote_blocks_plugin name mpm =
     (if name = ''promote-blocks'' then (mpm @ [PromoteBlocksPass False], True)
      else if name = ''promote-instructions'' then (mpm @ [PromoteBlocksPass True], True)
      else (mpm, False))"

definition fuse_functions_plugin :: pipeline_parser where
  "fuse_functions_plugin name mpm =
     (if name = ''fuse-functions'' then (mpm @ [FuseFunctionsPass False], True)
      else if name = ''fuse-functions<force>'' \<or> name = ''fuse-functions-force''
      then (mpm @ [FuseFunctionsPass True], True)
      else (mpm, False))"

section \<open>Pipelines\<close>

text \<open>
  What the code calls of LLVM: \<open>parsePassPipeline\<close> on a pass manager, with what it added until the end of the text
  or the first error and the message of the error, and the pass managers' \<open>run\<close>.
\<close>

record pass_builder =
  parse_module_passes :: "ir_pass list \<Rightarrow> string \<Rightarrow> ir_pass list \<times> string option"
  parse_function_passes :: "ir_pass list \<Rightarrow> string \<Rightarrow> ir_pass list \<times> string option"
  run_module_passes :: "ir_pass list \<Rightarrow> ir_module \<Rightarrow> ir_module \<times> preserved_analyses"
  run_function_passes :: "ir_pass list \<Rightarrow> ir_func \<Rightarrow> ir_func \<times> preserved_analyses"

record pass_pipeline =
  function_pass_manager :: "ir_pass list"
  module_pass_manager :: "ir_pass list"
  parse_error :: string

text \<open>The constructor; the analysis managers hold no state that the repository uses.\<close>

definition PassPipeline :: "pass_builder \<Rightarrow> string \<Rightarrow> bool \<Rightarrow> pass_pipeline" where
  "PassPipeline pb passes functionPipeline =
     (let pp = \<lparr>function_pass_manager = [], module_pass_manager = [], parse_error = ''''\<rparr> in
      if \<not> functionPipeline then
        (case parse_module_passes pb (module_pass_manager pp) passes of
           (mpm, None) \<Rightarrow> pp\<lparr>module_pass_manager := mpm\<rparr>
         | (mpm, Some err) \<Rightarrow> pp\<lparr>module_pass_manager := mpm, parse_error := err\<rparr>)
      else
        (case parse_function_passes pb (function_pass_manager pp) passes of
           (fpm, None) \<Rightarrow> pp\<lparr>function_pass_manager := fpm\<rparr>
         | (fpm, Some err) \<Rightarrow> pp\<lparr>function_pass_manager := fpm, parse_error := err\<rparr>))"

definition pipeline_run_module :: "pass_builder \<Rightarrow> pass_pipeline \<Rightarrow> ir_module \<Rightarrow> ir_module \<times> preserved_analyses" where
  "pipeline_run_module pb pp m = run_module_passes pb (module_pass_manager pp) m"

definition pipeline_run_function :: "pass_builder \<Rightarrow> pass_pipeline \<Rightarrow> ir_func \<Rightarrow> ir_func \<times> preserved_analyses" where
  "pipeline_run_function pb pp f = run_function_passes pb (function_pass_manager pp) f"

definition create_function_pipeline :: "pass_builder \<Rightarrow> string \<Rightarrow> pass_pipeline" where
  "create_function_pipeline pb passes = PassPipeline pb passes True"

definition create_module_pipeline :: "pass_builder \<Rightarrow> string \<Rightarrow> pass_pipeline" where
  "create_module_pipeline pb passes = PassPipeline pb passes False"

definition run_pass_pipeline :: "pass_builder \<Rightarrow> string \<Rightarrow> ir_module \<Rightarrow> ir_module \<times> preserved_analyses \<times> string" where
  "run_pass_pipeline pb passes m =
     (let passPipeline = create_module_pipeline pb passes in
      (case pipeline_run_module pb passPipeline m of (m', result) \<Rightarrow> (m', result, parse_error passPipeline)))"

definition run_function_pipeline :: "pass_builder \<Rightarrow> string \<Rightarrow> ir_func \<Rightarrow> ir_func \<times> preserved_analyses \<times> string" where
  "run_function_pipeline pb passes f =
     (let passPipeline = create_function_pipeline pb passes in
      (case pipeline_run_function pb passPipeline f of (f', result) \<Rightarrow> (f', result, parse_error passPipeline)))"

section \<open>What a plugin promises\<close>

text \<open>A plugin knows a table of names and adds the passes of the table to the end.\<close>

locale pipeline_plugin =
  fixes parse :: pipeline_parser and table :: "(string \<times> ir_pass list) list"
  assumes parses: "parse name pm = (case map_of table name of None \<Rightarrow> (pm, False) | Some ps \<Rightarrow> (pm @ ps, True))"
begin

lemma known: "map_of table name = Some ps \<Longrightarrow> parse name pm = (pm @ ps, True)"
  by (simp add: parses)

lemma unknown: "map_of table name = None \<Longrightarrow> parse name pm = (pm, False)"
  by (simp add: parses)

end

lemmas plugin_defs = breakpoint_net_plugin_def demote_registers_plugin_def stack_to_global_plugin_def
  resize_malloc_plugin_def function_name_trace_plugin_def pachinko_calls_plugin_def promote_blocks_plugin_def
  fuse_functions_plugin_def

interpretation breakpoint_net_names: pipeline_plugin breakpoint_net_plugin "[(''breakpoint-net'', [BreakpointNetPass])]"
  by unfold_locales (simp add: plugin_defs)

interpretation demote_registers_names: pipeline_plugin demote_registers_plugin "[(''demote-registers'', [DemoteRegistersPass])]"
  by unfold_locales (simp add: plugin_defs)

interpretation stack_to_global_names: pipeline_plugin stack_to_global_plugin "[(''stack-to-global'', [StackToGlobalPass])]"
  by unfold_locales (simp add: plugin_defs)

interpretation resize_malloc_names: pipeline_plugin resize_malloc_plugin
  "[(''resize-malloc'', [LLVMPass ''sccp'', LLVMPass ''adce'', ResizeMallocPass])]"
  by unfold_locales (simp add: plugin_defs)

interpretation function_name_trace_names: pipeline_plugin function_name_trace_plugin
  "[(''function-name-trace'', [FunctionNameTracePass])]"
  by unfold_locales (simp add: plugin_defs)

interpretation pachinko_calls_names: pipeline_plugin pachinko_calls_plugin "[(''pachinko-calls'', [PachinkoCallsPass])]"
  by unfold_locales (simp add: plugin_defs)

interpretation promote_blocks_names: pipeline_plugin promote_blocks_plugin
  "[(''promote-blocks'', [PromoteBlocksPass False]), (''promote-instructions'', [PromoteBlocksPass True])]"
  by unfold_locales (simp add: plugin_defs)

interpretation fuse_functions_names: pipeline_plugin fuse_functions_plugin
  "[(''fuse-functions'', [FuseFunctionsPass False]), (''fuse-functions<force>'', [FuseFunctionsPass True]),
    (''fuse-functions-force'', [FuseFunctionsPass True])]"
  by unfold_locales (simp add: plugin_defs)

section \<open>Names and errors\<close>

text \<open>The \<open>PassBuilder\<close> asks its callbacks in the order of their registration until one knows the name.\<close>

fun ask_plugins :: "pipeline_parser list \<Rightarrow> pipeline_parser" where
  "ask_plugins [] name pm = (pm, False)"
| "ask_plugins (c # cs) name pm = (case c name pm of (pm', True) \<Rightarrow> (pm', True) | (pm', False) \<Rightarrow> ask_plugins cs name pm')"

lemma ask_plugins_agree:
  "\<forall>c \<in> set cs. c name pm = (pm, False) \<or> c name pm = (pm', True) \<Longrightarrow>
   ask_plugins cs name pm = (if \<exists>c \<in> set cs. snd (c name pm) then (pm', True) else (pm, False))"
  by (induction cs) auto

text \<open>The names of all passes, in whatever order the plugins are loaded: no two plugins know the same name.\<close>

definition module_pass_names :: "(string \<times> ir_pass list) list" where
  "module_pass_names =
     [(''function-name-trace'', [FunctionNameTracePass]), (''pachinko-calls'', [PachinkoCallsPass]),
      (''promote-blocks'', [PromoteBlocksPass False]), (''promote-instructions'', [PromoteBlocksPass True]),
      (''fuse-functions'', [FuseFunctionsPass False]), (''fuse-functions<force>'', [FuseFunctionsPass True]),
      (''fuse-functions-force'', [FuseFunctionsPass True])]"

definition function_pass_names :: "(string \<times> ir_pass list) list" where
  "function_pass_names =
     [(''breakpoint-net'', [BreakpointNetPass]), (''demote-registers'', [DemoteRegistersPass]),
      (''stack-to-global'', [StackToGlobalPass]),
      (''resize-malloc'', [LLVMPass ''sccp'', LLVMPass ''adce'', ResizeMallocPass])]"

lemma module_plugins_any_order:
  assumes "set cs = {function_name_trace_plugin, pachinko_calls_plugin, promote_blocks_plugin, fuse_functions_plugin}"
  shows "ask_plugins cs name pm = (case map_of module_pass_names name of None \<Rightarrow> (pm, False) | Some ps \<Rightarrow> (pm @ ps, True))"
proof -
  have one: "\<forall>c \<in> set cs. c name pm = (pm, False) \<or> c name pm = (pm @ the (map_of module_pass_names name), True)"
    unfolding assms by (simp add: plugin_defs module_pass_names_def)
  have "(\<exists>c \<in> set cs. snd (c name pm)) \<longleftrightarrow> map_of module_pass_names name \<noteq> None"
    unfolding assms by (simp add: plugin_defs module_pass_names_def)
  then show ?thesis by (auto simp: ask_plugins_agree[OF one] split: option.splits)
qed

lemma function_plugins_any_order:
  assumes "set cs = {breakpoint_net_plugin, demote_registers_plugin, stack_to_global_plugin, resize_malloc_plugin}"
  shows "ask_plugins cs name pm = (case map_of function_pass_names name of None \<Rightarrow> (pm, False) | Some ps \<Rightarrow> (pm @ ps, True))"
proof -
  have one: "\<forall>c \<in> set cs. c name pm = (pm, False) \<or> c name pm = (pm @ the (map_of function_pass_names name), True)"
    unfolding assms by (simp add: plugin_defs function_pass_names_def)
  have "(\<exists>c \<in> set cs. snd (c name pm)) \<longleftrightarrow> map_of function_pass_names name \<noteq> None"
    unfolding assms by (simp add: plugin_defs function_pass_names_def)
  then show ?thesis by (auto simp: ask_plugins_agree[OF one] split: option.splits)
qed

text \<open>A pipeline with an error is run as far as it was parsed; the error is reported afterwards.\<close>

lemma run_pass_pipeline_error:
  assumes "parse_module_passes pb [] passes = (ps, err)"
  shows "run_pass_pipeline pb passes m =
    (fst (run_module_passes pb ps m), snd (run_module_passes pb ps m), case err of None \<Rightarrow> '''' | Some e \<Rightarrow> e)"
  using assms by (auto simp: run_pass_pipeline_def create_module_pipeline_def PassPipeline_def pipeline_run_module_def Let_def
      split: prod.splits option.splits)

lemma fuse_functions_stops_at_error:
  assumes "parse_module_passes pb [] ''module(function(lowerinvoke,simplifycfg),mergefunc)'' = (ps, Some err)" and "err \<noteq> []"
  shows "fuse_functions (u\<lparr>u_pipeline := run_pass_pipeline pb\<rparr>) ignoreNoInline m = Some (Inr (run_module_passes pb ps m))"
proof -
  define nm where "nm = ''module(function(lowerinvoke,simplifycfg),mergefunc)''"
  note run = run_pass_pipeline_error[OF assms(1)[folded nm_def], of m]
  show ?thesis
    unfolding fuse_functions_def nm_def[symmetric] using assms(2) by (simp add: run)
qed

end
